(* ===== verification/Prelude.thy ===== *)
theory Prelude
  imports Main "HOL-Library.Word" "HOL-Library.Sublist"
begin

text \<open>
  What the components share: C strings and the part of the C string library the
  sources use.

  A C string is the \<^typ>\<open>string\<close> of its bytes before the terminating NUL. A pointer into a
  string is the suffix it points at, so \<open>p + n\<close> is \<open>drop n p\<close>, \<open>*p\<close> is \<open>cur p\<close> (NUL at the
  end of the string), and of two pointers into the same string the one with the shorter
  suffix is the larger. A library call that returns a pointer or NULL returns an option.
  A fixed array \<open>char out[cap]\<close> that is written with \<open>snprintf\<close> holds the truncated string.
\<close>

section \<open>Collections of rewrite rules\<close>

named_theorems cstr_simps \<open>evaluation of the C string library on concrete and symbolic strings\<close>

section \<open>Characters\<close>

abbreviation NUL :: char where
  "NUL \<equiv> CHR 0x00"

definition is_cstr :: "string \<Rightarrow> bool" where
  "is_cstr s \<longleftrightarrow> NUL \<notin> set s"

definition is_digit :: "char \<Rightarrow> bool" where
  "is_digit c \<longleftrightarrow> 48 \<le> (of_char c :: nat) \<and> (of_char c :: nat) \<le> 57"

definition digit_val :: "char \<Rightarrow> nat" where
  "digit_val c = of_char c - 48"

lemma is_cstr_Nil [simp]: "is_cstr []"
  by (simp add: is_cstr_def)

lemma is_cstr_Cons [simp]: "is_cstr (c # s) \<longleftrightarrow> c \<noteq> NUL \<and> is_cstr s"
  by (auto simp: is_cstr_def)

lemma is_cstr_append [simp]: "is_cstr (s @ t) \<longleftrightarrow> is_cstr s \<and> is_cstr t"
  by (auto simp: is_cstr_def)

lemma is_cstr_take [simp]: "is_cstr s \<Longrightarrow> is_cstr (take n s)"
  by (auto simp: is_cstr_def dest: in_set_takeD)

lemma is_cstr_drop [simp]: "is_cstr s \<Longrightarrow> is_cstr (drop n s)"
  by (auto simp: is_cstr_def dest: in_set_dropD)

section \<open>Reading through a pointer\<close>

definition cur :: "string \<Rightarrow> char" where
  "cur p = (case p of [] \<Rightarrow> NUL | c # _ \<Rightarrow> c)"

definition char_at :: "string \<Rightarrow> nat \<Rightarrow> char" where
  "char_at s i = (if i < length s then s ! i else NUL)"

lemma cur_simps [simp, cstr_simps]: "cur [] = NUL" "cur (c # s) = c"
  by (simp_all add: cur_def)

lemma char_at_0 [simp, cstr_simps]: "char_at [] i = NUL" "char_at (c # s) 0 = c"
  by (simp_all add: char_at_def)

lemma char_at_Suc [simp]: "char_at (c # s) (Suc i) = char_at s i"
  by (simp add: char_at_def)

lemma char_at_length [simp]: "char_at s (length s) = NUL"
  by (simp add: char_at_def)

lemma char_at_append [simp]: "char_at (s @ t) (length s) = cur t"
  by (cases t) (simp_all add: char_at_def)

section \<open>Comparing and searching\<close>

definition strncmp_eq :: "string \<Rightarrow> string \<Rightarrow> nat \<Rightarrow> bool" where
  \<comment> \<open>\<open>strncmp(a, b, n) == 0\<close>\<close>
  "strncmp_eq a b n \<longleftrightarrow> take n a = take n b"

fun strchr :: "string \<Rightarrow> char \<Rightarrow> string option" where
  "strchr [] c = None"
| "strchr (x # xs) c = (if x = c then Some (x # xs) else strchr xs c)"

fun strrchr :: "string \<Rightarrow> char \<Rightarrow> string option" where
  "strrchr [] c = None"
| "strrchr (x # xs) c =
     (case strrchr xs c of Some p \<Rightarrow> Some p | None \<Rightarrow> if x = c then Some (x # xs) else None)"

fun strstr :: "string \<Rightarrow> string \<Rightarrow> string option" where
  "strstr [] pat = (if pat = [] then Some [] else None)"
| "strstr (x # xs) pat = (if prefix pat (x # xs) then Some (x # xs) else strstr xs pat)"

definition ptr_off :: "string \<Rightarrow> string \<Rightarrow> nat" where
  \<comment> \<open>the pointer difference \<open>p - s\<close> for \<open>p\<close> a pointer into \<open>s\<close>\<close>
  "ptr_off p s = length s - length p"

definition snprintf_s :: "nat \<Rightarrow> string \<Rightarrow> string" where
  \<comment> \<open>what \<open>snprintf(out, cap, "%s", s)\<close> leaves in \<open>out\<close>, for \<open>cap > 0\<close>\<close>
  "snprintf_s cap s = take (cap - 1) s"

lemma strncmp_eq_prefix: "strncmp_eq s p (length p) \<longleftrightarrow> prefix p s"
  by (auto simp: strncmp_eq_def prefix_def) (metis append_take_drop_id)

lemma snprintf_s_fits [simp]: "length s < cap \<Longrightarrow> snprintf_s cap s = s"
  by (simp add: snprintf_s_def)

lemma snprintf_s_length: "0 < cap \<Longrightarrow> length (snprintf_s cap s) < cap"
  by (cases cap) (auto simp: snprintf_s_def)

lemma is_cstr_snprintf_s [simp]: "is_cstr s \<Longrightarrow> is_cstr (snprintf_s cap s)"
  by (simp add: snprintf_s_def)

lemma strchr_None_iff [simp]: "strchr s c = None \<longleftrightarrow> c \<notin> set s"
  by (induction s) auto

lemma strchr_SomeD: "strchr s c = Some p \<Longrightarrow> \<exists>q. s = q @ p \<and> c \<notin> set q \<and> (\<exists>r. p = c # r)"
proof (induction s)
  case (Cons x xs)
  show ?case
  proof (cases "x = c")
    case True
    with Cons.prems show ?thesis by (auto intro: exI [of _ "[]"])
  next
    case False
    with Cons.prems Cons.IH obtain q r where "xs = q @ p" "c \<notin> set q" "p = c # r" by auto
    with False show ?thesis by (auto intro!: exI [of _ "x # q"])
  qed
qed simp

lemma strchr_shorter: "strchr s c = Some p \<Longrightarrow> length p \<le> length s \<and> p \<noteq> []"
  using strchr_SomeD [of s c p] by auto

lemma strchr_after_shorter: "Some p = strchr s c \<Longrightarrow> length p - Suc 0 < length s"
  using strchr_shorter [of s c p] by (cases p) auto

lemma split_first_eq:
  assumes "c \<notin> set a" and "c \<notin> set b"
  shows "a @ c # x = b @ c # y \<longleftrightarrow> a = b \<and> x = y"
proof
  assume "a @ c # x = b @ c # y"
  moreover have "takeWhile (\<lambda>d. d \<noteq> c) (a @ c # x) = a" "takeWhile (\<lambda>d. d \<noteq> c) (b @ c # y) = b"
    using assms by (auto simp: takeWhile_tail)
  ultimately have "a = b" by metis
  with \<open>a @ c # x = b @ c # y\<close> show "a = b \<and> x = y" by simp
qed simp

lemma strchr_append_notin: "c \<notin> set q \<Longrightarrow> strchr (q @ p) c = strchr p c"
  by (induction q) auto

lemma strchr_first [simp]: "c \<notin> set q \<Longrightarrow> strchr (q @ c # r) c = Some (c # r)"
  by (simp add: strchr_append_notin)

lemma strrchr_None_iff [simp]: "strrchr s c = None \<longleftrightarrow> c \<notin> set s"
  by (induction s) (auto split: option.splits)

lemma strrchr_last: "c \<notin> set r \<Longrightarrow> strrchr (q @ c # r) c = Some (c # r)"
proof (induction q)
  case Nil
  then have "strrchr r c = None" by simp
  then show ?case by (simp del: strrchr_None_iff)
qed simp

lemma strrchr_SomeD: "strrchr s c = Some p \<Longrightarrow> \<exists>q r. s = q @ c # r \<and> p = c # r \<and> c \<notin> set r"
proof (induction s)
  case (Cons x xs)
  show ?case
  proof (cases "strrchr xs c")
    case None
    with Cons.prems show ?thesis by (auto split: if_splits intro: exI [of _ "[]"])
  next
    case (Some p')
    with Cons.prems Cons.IH obtain q r where "xs = q @ c # r" "p = c # r" "c \<notin> set r" by auto
    then show ?thesis by (auto intro!: exI [of _ "x # q"])
  qed
qed simp

lemma strstr_SomeD: "strstr s pat = Some p \<Longrightarrow> suffix p s \<and> prefix pat p"
  by (induction s) (auto split: if_splits simp: suffix_Cons)

lemma strstr_prefix [simp]: "strstr (pat @ r) pat = Some (pat @ r)"
  by (cases "pat @ r") (auto simp: prefix_def simp flip: append_Cons dest: sym)

lemma strstr_append_None: "strstr (a @ b) n = None \<Longrightarrow> n \<noteq> [] \<Longrightarrow> strstr a n = None"
proof (induction a)
  case (Cons x a)
  from Cons.prems(1) have "\<not> prefix n (x # a @ b)" "strstr (a @ b) n = None"
    by (simp_all split: if_splits)
  moreover from this(1) have "\<not> prefix n (x # a)"
    using prefix_prefix [of n "x # a" b] by auto
  ultimately show ?case using Cons by simp
qed simp

lemma strstr_skip: "\<not> prefix pat (x # xs) \<Longrightarrow> strstr (x # xs) pat = strstr xs pat"
  by simp

text \<open>The search is unfolded on demand only.\<close>

declare strstr.simps [simp del, cstr_simps]

section \<open>Comma-separated lists\<close>

text \<open>
  Several components walk a comma-separated list with the same loop: take the text up to the
  next comma, look at it, go on after the comma. \<open>csv\<close> is the list of entries that loop visits
  (an empty entry after a trailing comma included).
\<close>

fun csv :: "string \<Rightarrow> string list" where
  "csv [] = [[]]"
| "csv (c # cs) = (if c = CHR '','' then [] # csv cs else (c # hd (csv cs)) # tl (csv cs))"

lemma csv_nonempty [simp]: "csv s \<noteq> []"
  by (induction s) auto

lemma csv_comma: "CHR '','' \<notin> set e \<Longrightarrow> csv (e @ CHR '','' # r) = e # csv r"
  by (induction e) auto

lemma csv_single: "CHR '','' \<notin> set e \<Longrightarrow> csv e = [e]"
  by (induction e) auto

lemma csv_cases:
  obtains (one) "strchr p (CHR '','') = None" "csv p = [p]"
    | (more) e r where "p = e @ CHR '','' # r" "CHR '','' \<notin> set e"
        "strchr p (CHR '','') = Some (CHR '','' # r)" "csv p = e # csv r"
proof (cases "strchr p (CHR '','')")
  case None
  then show ?thesis by (auto intro: one simp: csv_single)
next
  case (Some q)
  then obtain e r where "p = e @ CHR '','' # r" "CHR '','' \<notin> set e"
    using strchr_SomeD by blast
  then show ?thesis by (auto intro: more simp: csv_comma)
qed

section \<open>Decimal text\<close>

text \<open>
  \<open>%u\<close>, \<open>%d\<close> and \<open>%lld\<close> print with \<open>show_nat\<close> and \<open>show_int\<close>. \<open>strtol10\<close> is \<open>strtol(s, NULL, 10)\<close>
  on a platform with a 64-bit \<open>long\<close>: blanks, a sign, digits, saturating at the ends of the
  range; \<open>atoi\<close> is its conversion to a 32-bit \<open>int\<close>.
\<close>

fun show_nat :: "nat \<Rightarrow> string" where
  "show_nat n = (if n < 10 then [char_of (48 + n)] else show_nat (n div 10) @ [char_of (48 + n mod 10)])"

declare show_nat.simps [simp del]

definition show_int :: "int \<Rightarrow> string" where
  "show_int i = (if i < 0 then CHR ''-'' # show_nat (nat (- i)) else show_nat (nat i))"

fun digits_val :: "nat \<Rightarrow> string \<Rightarrow> nat" where
  \<comment> \<open>\<open>while (*p is a digit) v = v * 10 + (*p - '0')\<close>\<close>
  "digits_val v [] = v"
| "digits_val v (c # cs) = (if is_digit c then digits_val (v * 10 + digit_val c) cs else v)"

definition is_space :: "char \<Rightarrow> bool" where
  "is_space c \<longleftrightarrow> c = CHR '' '' \<or> 9 \<le> (of_char c :: nat) \<and> (of_char c :: nat) \<le> 13"

definition strtol10 :: "string \<Rightarrow> int" where
  "strtol10 s =
     (let p = dropWhile is_space s;
          neg = (cur p = CHR ''-'');
          q = (if cur p = CHR ''-'' \<or> cur p = CHR ''+'' then tl p else p);
          v = int (digits_val 0 q);
          r = (if neg then - v else v)
      in max (- (2 ^ 63)) (min (2 ^ 63 - 1) r))"

definition cast_int :: "int \<Rightarrow> int" where
  "cast_int i = sint (word_of_int i :: 32 word)"

definition atoi :: "string \<Rightarrow> int" where
  "atoi s = cast_int (strtol10 s)"

lemma cast_int_small: "- (2 ^ 31) \<le> i \<Longrightarrow> i < 2 ^ 31 \<Longrightarrow> cast_int i = i"
  by (simp add: cast_int_def sint_sbintrunc' signed_take_bit_int_eq_self)

lemma of_char_digit: "d < 10 \<Longrightarrow> of_char (char_of (48 + d) :: char) = 48 + d" for d :: nat
  by (simp add: of_char_of)

lemma digit_char [simp]:
  fixes d :: nat
  assumes "d < 10"
  shows "is_digit (char_of (48 + d))" "digit_val (char_of (48 + d)) = d"
  using assms by (simp_all add: is_digit_def digit_val_def of_char_of)

lemma show_nat_digits: "\<forall>c \<in> set (show_nat n). is_digit c"
proof (induction n rule: show_nat.induct)
  case (1 n)
  then show ?case by (subst show_nat.simps) auto
qed

lemma show_nat_only_digits: "\<not> is_digit c \<Longrightarrow> c \<notin> set (show_nat n)"
  using show_nat_digits by blast

lemma show_nat_nonempty [simp]: "show_nat n \<noteq> []"
  by (subst show_nat.simps) simp

lemma digits_val_append:
  "\<forall>c \<in> set ds. is_digit c \<Longrightarrow> digits_val v (ds @ r) = digits_val (digits_val v ds) r"
  by (induction ds arbitrary: v) auto

lemma digits_val_stop [simp]: "r = [] \<or> \<not> is_digit (hd r) \<Longrightarrow> digits_val v r = v"
  by (cases r) auto

lemma digits_val_show_nat: "digits_val 0 (show_nat n) = n"
proof (induction n rule: show_nat.induct)
  case (1 n)
  show ?case
  proof (cases "n < 10")
    case True
    then show ?thesis by (subst show_nat.simps) simp
  next
    case False
    with 1 have "digits_val 0 (show_nat (n div 10)) = n div 10" by simp
    with False show ?thesis
      by (subst show_nat.simps) (simp add: digits_val_append show_nat_digits)
  qed
qed

lemma digits_val_show_nat_stop:
  "r = [] \<or> \<not> is_digit (hd r) \<Longrightarrow> digits_val 0 (show_nat n @ r) = n"
  by (simp add: digits_val_append show_nat_digits digits_val_show_nat)

lemma is_digit_char: "is_digit c \<Longrightarrow> c \<noteq> CHR ''-'' \<and> c \<noteq> CHR ''+'' \<and> \<not> is_space c \<and> c \<noteq> NUL"
  by (auto simp: is_digit_def is_space_def)

lemma show_nat_cur: "is_digit (cur (show_nat n @ r))"
  using show_nat_digits [of n] by (cases "show_nat n") auto

lemma is_cstr_show_nat [simp]: "is_cstr (show_nat n)"
  using show_nat_digits [of n] by (auto simp: is_cstr_def is_digit_def)

section \<open>Bounded sets kept in arrays\<close>

text \<open>
  Several components keep a set in an array of fixed size and add to it unless the element is
  already there or the array is full. \<open>ok\<close> marks the elements the array holds unchanged.
\<close>

locale bounded_set =
  fixes add :: "'s \<Rightarrow> 'a \<Rightarrow> 's"
    and elems :: "'s \<Rightarrow> 'a list"
    and cap :: nat
    and ok :: "'a \<Rightarrow> bool"
  assumes elems_add: "ok x \<Longrightarrow>
      elems (add s x) = (if x \<in> set (elems s) \<or> cap \<le> length (elems s) then elems s else elems s @ [x])"
begin

lemma distinct_add: "ok x \<Longrightarrow> distinct (elems s) \<Longrightarrow> distinct (elems (add s x))"
  by (simp add: elems_add)

lemma length_add: "ok x \<Longrightarrow> length (elems s) \<le> cap \<Longrightarrow> length (elems (add s x)) \<le> cap"
  by (simp add: elems_add)

lemma set_add_room: "ok x \<Longrightarrow> length (elems s) < cap \<Longrightarrow> set (elems (add s x)) = insert x (set (elems s))"
  by (auto simp: elems_add)

lemma length_add_le: "ok x \<Longrightarrow> length (elems (add s x)) \<le> Suc (length (elems s))"
  by (simp add: elems_add)

lemma distinct_foldl:
  "list_all ok xs \<Longrightarrow> distinct (elems s) \<Longrightarrow> distinct (elems (foldl add s xs))"
  by (induction xs arbitrary: s) (simp_all add: distinct_add)

lemma length_foldl:
  "list_all ok xs \<Longrightarrow> length (elems s) \<le> cap \<Longrightarrow> length (elems (foldl add s xs)) \<le> cap"
  by (induction xs arbitrary: s) (simp_all add: length_add)

lemma length_foldl_le:
  "list_all ok xs \<Longrightarrow> length (elems (foldl add s xs)) \<le> length (elems s) + length xs"
proof (induction xs arbitrary: s)
  case (Cons x xs)
  then have "length (elems (foldl add (add s x) xs)) \<le> length (elems (add s x)) + length xs" by simp
  also have "\<dots> \<le> length (elems s) + length (x # xs)" using Cons.prems length_add_le [of x s] by simp
  finally show ?case by simp
qed simp

lemma set_foldl_sub:
  "list_all ok xs \<Longrightarrow> set (elems (foldl add s xs)) \<subseteq> set (elems s) \<union> set xs"
proof (induction xs arbitrary: s)
  case (Cons x xs)
  then have "set (elems (foldl add s (x # xs))) \<subseteq> set (elems (add s x)) \<union> set xs" by simp
  with Cons.prems show ?case by (auto simp: elems_add split: if_splits)
qed simp

lemma set_foldl:
  "list_all ok xs \<Longrightarrow> length (elems s) + length xs \<le> cap \<Longrightarrow>
     set (elems (foldl add s xs)) = set (elems s) \<union> set xs"
proof (induction xs arbitrary: s)
  case (Cons x xs)
  then have "length (elems (add s x)) + length xs \<le> cap" using length_add_le [of x s] by simp
  with Cons have "set (elems (foldl add (add s x) xs)) = set (elems (add s x)) \<union> set xs" by simp
  with Cons.prems show ?case by (simp add: set_add_room)
qed simp

end

end
