(* ===== verification/Paths.thy ===== *)
theory Paths
  imports Prelude
begin

text \<open>
  Path predicates and name mangling of the detection track: the directory-prefix tests that
  \<open>policy_eval.c\<close>, \<open>baseline_set.c\<close>, \<open>unit_envelope.c\<close> and \<open>sandbox_synth.c\<close> each declare for
  themselves, \<open>parent_dir\<close>, the executable slug (\<open>exe_slug.c\<close>), the unit of a control group
  (\<open>cgroup_unit.c\<close>) and the read suppression list (\<open>suppress.c\<close>).

  The specification they are compared with is \<open>below\<close>: a path is below a directory when it is
  the directory itself or continues it with a slash.
\<close>

section \<open>Directory prefixes\<close>

definition under :: "string \<Rightarrow> string \<Rightarrow> bool" where
  "under path pre =
     (let lp = length pre
      in if lp = 0 then False
         else if \<not> strncmp_eq path pre lp then False
         else char_at path lp = NUL \<or> char_at path lp = CHR ''/'' \<or> pre ! (lp - 1) = CHR ''/'')"

definition bl_under :: "string \<Rightarrow> string \<Rightarrow> bool" where
  "bl_under path pre =
     (let lp = length pre
      in if lp = 0 then False
         else if \<not> strncmp_eq path pre lp then False
         else char_at path lp = NUL \<or> char_at path lp = CHR ''/'' \<or> pre ! (lp - 1) = CHR ''/'')"

definition env_under :: "string \<Rightarrow> string \<Rightarrow> bool" where
  "env_under path pre =
     (let lp = length pre
      in strncmp_eq path pre lp \<and> (char_at path lp = NUL \<or> char_at path lp = CHR ''/''))"

definition synth_under :: "string \<Rightarrow> string \<Rightarrow> bool" where
  "synth_under path pre =
     (let lp = length pre
      in strncmp_eq path pre lp \<and> (char_at path lp = NUL \<or> char_at path lp = CHR ''/''))"

definition below :: "string \<Rightarrow> string \<Rightarrow> bool" where
  \<comment> \<open>specification: \<open>path\<close> is \<open>dir\<close> or lies in the tree rooted at \<open>dir\<close>\<close>
  "below path dir \<longleftrightarrow> path = dir \<or> prefix (dir @ ''/'') path"

lemma char_at_prefix_boundary:
  assumes "is_cstr path" and "prefix pre path"
  shows "char_at path (length pre) = NUL \<or> char_at path (length pre) = CHR ''/'' \<longleftrightarrow> below path pre"
proof -
  from assms(2) obtain r where path: "path = pre @ r" by (auto simp: prefix_def)
  with assms(1) show ?thesis
    by (cases r) (auto simp: below_def prefix_def)
qed

lemma below_prefix: "below path dir \<Longrightarrow> prefix dir path"
  by (auto simp: below_def prefix_def)

lemma below_refl [simp]: "below d d"
  by (simp add: below_def)

lemma below_trans: "below a b \<Longrightarrow> below b c \<Longrightarrow> below a c"
  by (auto simp: below_def prefix_def)

lemma under_iff:
  assumes "is_cstr path"
  shows "under path pre \<longleftrightarrow>
    pre \<noteq> [] \<and> (below path pre \<or> last pre = CHR ''/'' \<and> prefix pre path)"
proof (cases "pre = []")
  case False
  then have "pre ! (length pre - Suc 0) = last pre" by (simp add: last_conv_nth)
  then show ?thesis
    using False char_at_prefix_boundary [OF assms] below_prefix [of path pre]
    by (auto simp: under_def Let_def strncmp_eq_prefix)
qed (simp add: under_def)

lemma bl_under_eq_under: "bl_under = under"
  by (intro ext) (simp add: bl_under_def under_def)

lemma env_under_below: "is_cstr path \<Longrightarrow> env_under path pre \<longleftrightarrow> below path pre"
  using char_at_prefix_boundary below_prefix
  by (auto simp: env_under_def Let_def strncmp_eq_prefix)

lemma synth_under_eq: "synth_under = env_under"
  by (intro ext) (simp add: synth_under_def env_under_def)

lemma under_below:
  "is_cstr path \<Longrightarrow> pre \<noteq> [] \<Longrightarrow> last pre \<noteq> CHR ''/'' \<Longrightarrow> under path pre \<longleftrightarrow> below path pre"
  by (simp add: under_iff)

lemma under_self: "is_cstr p \<Longrightarrow> p \<noteq> [] \<Longrightarrow> under p p"
  by (simp add: under_iff)

lemma under_trans:
  assumes "is_cstr a" "is_cstr b" "under a b" "under b c"
  shows "under a c"
proof -
  from assms have ab: "b \<noteq> []" "below a b \<or> last b = CHR ''/'' \<and> prefix b a"
    and bc: "c \<noteq> []" "below b c \<or> last c = CHR ''/'' \<and> prefix c b"
    by (simp_all add: under_iff)
  have pab: "prefix b a" using ab(2) below_prefix by blast
  show ?thesis
  proof (cases "last c = CHR ''/'' \<and> prefix c b")
    case True
    with pab bc(1) have "prefix c a" by (blast intro: prefix_order.trans)
    with True bc(1) assms(1) show ?thesis by (simp add: under_iff)
  next
    case False
    with bc(2) have cb: "below b c" by blast
    show ?thesis
    proof (cases "b = c")
      case True
      with assms(3) show ?thesis by simp
    next
      case False
      with cb have "prefix (c @ ''/'') b" by (simp add: below_def)
      with pab have "prefix (c @ ''/'') a" by (rule prefix_order.trans [rotated])
      with bc(1) assms(1) show ?thesis by (simp add: under_iff below_def)
    qed
  qed
qed

section \<open>The parent directory\<close>

definition parent_dir :: "string \<Rightarrow> nat \<Rightarrow> string" where
  "parent_dir path cap =
     (let slash = strrchr path (CHR ''/'');
          len = (case slash of
                   Some p \<Rightarrow> if length p \<noteq> length path then ptr_off p path else 1
                 | None \<Rightarrow> 1);
          len = (if len \<ge> cap then cap - 1 else len);
          out = take len path
      in if len = 1 \<and> char_at path 0 = CHR ''/'' then ''/'' else out)"

definition synth_parent_dir :: "string \<Rightarrow> nat \<Rightarrow> string" where
  "synth_parent_dir path cap =
     (let slash = strrchr path (CHR ''/'');
          len = (case slash of
                   Some p \<Rightarrow> if length p \<noteq> length path then ptr_off p path else 1
                 | None \<Rightarrow> 1);
          len = (if len \<ge> cap then cap - 1 else len);
          out = take len path
      in if len = 1 \<and> char_at path 0 = CHR ''/'' then ''/'' else out)"

lemma synth_parent_dir_eq: "synth_parent_dir = parent_dir"
  by (intro ext) (simp add: synth_parent_dir_def parent_dir_def)

lemma parent_dir_split:
  assumes "CHR ''/'' \<notin> set f" and "d \<noteq> []" and "length d < cap"
  shows "parent_dir (d @ CHR ''/'' # f) cap = d"
proof -
  have s: "strrchr (d @ CHR ''/'' # f) (CHR ''/'') = Some (CHR ''/'' # f)"
    using assms(1) by (rule strrchr_last)
  have "length d = 1 \<Longrightarrow> d ! 0 = CHR ''/'' \<Longrightarrow> d = ''/''"
    by (cases d) auto
  with assms s show ?thesis
    by (auto simp: parent_dir_def ptr_off_def Let_def char_at_def nth_append)
qed

lemma parent_dir_root:
  "CHR ''/'' \<notin> set f \<Longrightarrow> 2 \<le> cap \<Longrightarrow> parent_dir (CHR ''/'' # f) cap = ''/''"
  using strrchr_last [of "CHR ''/''" f "[]"] by (simp add: parent_dir_def Let_def)

lemma absolute_path_cases:
  assumes "cur path = CHR ''/''"
  obtains (root) f where "path = CHR ''/'' # f" "CHR ''/'' \<notin> set f"
    | (sub) d f where "path = d @ CHR ''/'' # f" "d \<noteq> []" "CHR ''/'' \<notin> set f"
proof -
  from assms have "CHR ''/'' \<in> set path" by (cases path) auto
  then obtain d f where *: "path = d @ CHR ''/'' # f" "CHR ''/'' \<notin> set f"
    by (meson split_list_last)
  show thesis
  proof (cases "d = []")
    case True
    with * show ?thesis by (auto intro: root)
  next
    case False
    with * show ?thesis by (auto intro: sub)
  qed
qed

lemma parent_dir_covers:
  assumes "is_cstr path" and "cur path = CHR ''/''" and "length path < cap"
  shows "under path (parent_dir path cap)"
  using assms(2)
proof (cases path rule: absolute_path_cases)
  case (root f)
  with assms show ?thesis
    by (cases f) (auto simp: parent_dir_root under_iff prefix_def)
next
  case (sub d f)
  with assms have "parent_dir path cap = d" by (simp add: parent_dir_split)
  with sub assms show ?thesis by (auto simp: under_iff below_def prefix_def)
qed

lemma parent_dir_length: "1 < cap \<Longrightarrow> length (parent_dir path cap) < cap"
  by (auto simp: parent_dir_def Let_def split: option.splits)

lemma parent_dir_cstr: "is_cstr path \<Longrightarrow> is_cstr (parent_dir path cap)"
  by (auto simp: parent_dir_def Let_def split: option.splits)

lemma parent_dir_chars: "set (parent_dir path cap) \<subseteq> insert (CHR ''/'') (set path)"
proof -
  have "set (if b then ''/'' else take n path) \<subseteq> insert (CHR ''/'') (set path)" for b n
    using set_take_subset [of n path] by auto
  then show ?thesis unfolding parent_dir_def Let_def .
qed

lemma parent_dir_nonempty: "path \<noteq> [] \<Longrightarrow> 1 < cap \<Longrightarrow> parent_dir path cap \<noteq> []"
proof -
  assume a: "path \<noteq> []" "1 < cap"
  have "ptr_off p path \<noteq> 0" if "strrchr path (CHR ''/'') = Some p" "length p \<noteq> length path" for p
    using strrchr_SomeD [OF that(1)] that(2) by (auto simp: ptr_off_def)
  with a show ?thesis
    by (auto simp: parent_dir_def Let_def split: option.splits)
qed

section \<open>The executable slug\<close>

definition slug_ok :: "char \<Rightarrow> bool" where
  "slug_ok c \<longleftrightarrow>
     (let n = (of_char c :: nat)
      in 65 \<le> n \<and> n \<le> 90 \<or> 97 \<le> n \<and> n \<le> 122 \<or> 48 \<le> n \<and> n \<le> 57 \<or>
         c = CHR ''.'' \<or> c = CHR ''_'' \<or> c = CHR ''-'')"

fun slug_loop :: "nat \<Rightarrow> string \<Rightarrow> string \<Rightarrow> bool \<Rightarrow> string" where
  "slug_loop cap [] out prev_dash = out"
| "slug_loop cap (c # cs) out prev_dash =
     (if length out < cap - 1
      then if slug_ok c then slug_loop cap cs (out @ [c]) False
           else if \<not> prev_dash then slug_loop cap cs (out @ ''-'') True
           else slug_loop cap cs out prev_dash
      else out)"

definition trim_dash :: "string \<Rightarrow> string" where
  "trim_dash out = rev (dropWhile (\<lambda>c. c = CHR ''-'') (rev out))"

definition ps_exe_slug :: "string \<Rightarrow> nat \<Rightarrow> string option" where
  "ps_exe_slug exe cap =
     (if exe = [] \<or> cap < 2 then None
      else let o' = trim_dash (slug_loop cap exe [] True)
           in if o' \<noteq> [] then Some o' else None)"

lemma slug_ok_dash [simp]: "slug_ok (CHR ''-'')"
  by (simp add: slug_ok_def)

lemma slug_ok_slash [simp]: "\<not> slug_ok (CHR ''/'')"
  by (simp add: slug_ok_def)

lemma slug_loop_ok: "list_all slug_ok out \<Longrightarrow> list_all slug_ok (slug_loop cap cs out d)"
  by (induction cap cs out d rule: slug_loop.induct) auto

lemma slug_loop_length: "length out \<le> cap - 1 \<Longrightarrow> length (slug_loop cap cs out d) \<le> cap - 1"
  by (induction cap cs out d rule: slug_loop.induct) auto

lemma slug_loop_safe_id:
  "list_all slug_ok cs \<Longrightarrow> length out + length cs \<le> cap - 1 \<Longrightarrow>
   slug_loop cap cs out d = out @ cs"
  by (induction cap cs out d rule: slug_loop.induct) auto

lemma trim_dash_prefix: "prefix (trim_dash s) s"
  unfolding trim_dash_def by (metis rev_rev_ident suffix_dropWhile suffix_to_prefix)

lemma trim_dash_last: "trim_dash s \<noteq> [] \<Longrightarrow> last (trim_dash s) \<noteq> CHR ''-''"
  unfolding trim_dash_def
  by (metis (mono_tags, lifting) Nil_is_rev_conv hd_dropWhile last_rev)

lemma trim_dash_id: "s \<noteq> [] \<Longrightarrow> last s \<noteq> CHR ''-'' \<Longrightarrow> trim_dash s = s"
  by (cases s rule: rev_cases) (auto simp: trim_dash_def)

lemma list_all_prefix: "prefix xs ys \<Longrightarrow> list_all P ys \<Longrightarrow> list_all P xs"
  by (auto simp: prefix_def)

lemma ps_exe_slug_SomeD:
  assumes "ps_exe_slug exe cap = Some s"
  shows "s \<noteq> []" "list_all slug_ok s" "length s < cap" "last s \<noteq> CHR ''-''" "2 \<le> cap"
proof -
  let ?l = "slug_loop cap exe [] True"
  from assms have cap: "2 \<le> cap" and s: "s = trim_dash ?l" and ne: "s \<noteq> []"
    by (auto simp: ps_exe_slug_def Let_def split: if_splits)
  have len: "length ?l \<le> cap - 1" using slug_loop_length [of "[]" cap exe True] by simp
  have ok: "list_all slug_ok ?l" using slug_loop_ok [of "[]" cap exe True] by simp
  show "s \<noteq> []" "2 \<le> cap" by fact+
  show "list_all slug_ok s" using ok trim_dash_prefix s list_all_prefix by blast
  have "length s \<le> length ?l" using trim_dash_prefix s by (simp add: prefix_length_le)
  with len cap show "length s < cap" by linarith
  show "last s \<noteq> CHR ''-''" using trim_dash_last s ne by blast
qed

text \<open>A slug never leaves its directory entry: every character is one of the allowed ones (so
  there is no slash in it), it is not empty, it fits the buffer, and taking the slug of a slug
  changes nothing.\<close>

theorem exe_slug_safe:
  assumes "ps_exe_slug exe cap = Some s"
  shows "list_all slug_ok s \<and> CHR ''/'' \<notin> set s \<and> s \<noteq> [] \<and> length s < cap \<and>
         ps_exe_slug s cap = Some s"
proof -
  note s = ps_exe_slug_SomeD [OF assms]
  have "CHR ''/'' \<notin> set s" using s(2) by (auto simp: list_all_iff)
  moreover have "slug_loop cap s [] True = s"
    using slug_loop_safe_id [of s "[]" cap True] s by simp
  ultimately show ?thesis
    using s trim_dash_id [of s] by (simp add: ps_exe_slug_def)
qed

theorem exe_slug_safe_witness:
  "ps_exe_slug ''/usr/bin/x'' 256 = Some ''usr-bin-x'' \<and> CHR ''/'' \<notin> set ''usr-bin-x'' \<and>
   ps_exe_slug ''usr-bin-x'' 256 = Some ''usr-bin-x''"
proof -
  have h: "ps_exe_slug ''/usr/bin/x'' 256 = Some ''usr-bin-x''"
    by (simp add: ps_exe_slug_def slug_ok_def trim_dash_def)
  show ?thesis using h exe_slug_safe [OF h] by blast
qed

section \<open>The unit of a control group\<close>

definition has_suffix :: "string \<Rightarrow> string \<Rightarrow> bool" where
  "has_suffix s suf = (length s \<ge> length suf \<and> drop (length s - length suf) s = suf)"

definition ps_cgroup_to_unit :: "string \<Rightarrow> nat \<Rightarrow> string option" where
  "ps_cgroup_to_unit cgroup cap =
     (if cgroup = [] then None
      else let slash = strrchr cgroup (CHR ''/'');
               seg = (case slash of Some p \<Rightarrow> drop 1 p | None \<Rightarrow> cgroup)
           in if seg = [] then None
              else if has_suffix seg ''.service'' \<or> has_suffix seg ''.socket'' \<or>
                      has_suffix seg ''.mount'' \<or> has_suffix seg ''.scope''
              then let n = length seg in if n \<ge> cap then None else Some seg
              else None)"

definition is_unit_name :: "string \<Rightarrow> bool" where
  \<comment> \<open>specification: the unit types the overwatch evaluates\<close>
  "is_unit_name u \<longleftrightarrow> suffix ''.service'' u \<or> suffix ''.socket'' u \<or>
     suffix ''.mount'' u \<or> suffix ''.scope'' u"

lemma has_suffix_iff: "has_suffix s suf \<longleftrightarrow> suffix suf s"
  by (auto simp: has_suffix_def suffix_def) (metis append_take_drop_id)

lemma not_is_unit_name_Nil [simp]: "\<not> is_unit_name []"
  by (simp add: is_unit_name_def)

lemma ps_cgroup_to_unit_alt:
  "ps_cgroup_to_unit cgroup cap =
     (let seg = (case strrchr cgroup (CHR ''/'') of Some p \<Rightarrow> drop 1 p | None \<Rightarrow> cgroup)
      in if is_unit_name seg \<and> length seg < cap then Some seg else None)"
  by (simp only: ps_cgroup_to_unit_def has_suffix_iff Let_def flip: is_unit_name_def)
     (auto simp: not_le)

lemma last_segment:
  "(case strrchr cgroup (CHR ''/'') of Some p \<Rightarrow> drop 1 p | None \<Rightarrow> cgroup) = u \<longleftrightarrow>
   (cgroup = u \<or> suffix (CHR ''/'' # u) cgroup) \<and> CHR ''/'' \<notin> set u"
proof (cases "strrchr cgroup (CHR ''/'')")
  case None
  then have "CHR ''/'' \<notin> set cgroup" by simp
  with None show ?thesis by (auto simp: suffix_def simp del: strrchr_None_iff)
next
  case (Some p)
  then obtain q r where qr: "cgroup = q @ CHR ''/'' # r" "p = CHR ''/'' # r" "CHR ''/'' \<notin> set r"
    using strrchr_SomeD by blast
  have eq: "u = r" if "suffix (CHR ''/'' # u) cgroup" "CHR ''/'' \<notin> set u"
  proof -
    from that(1) obtain z where "cgroup = z @ CHR ''/'' # u" by (auto simp: suffix_def)
    with that(2) have "strrchr cgroup (CHR ''/'') = Some (CHR ''/'' # u)"
      by (simp add: strrchr_last)
    with Some qr(2) show "u = r" by simp
  qed
  moreover have "suffix (CHR ''/'' # r) cgroup" "CHR ''/'' \<in> set cgroup"
    using qr(1) by (auto simp: suffix_def)
  moreover have "(case strrchr cgroup (CHR ''/'') of Some p \<Rightarrow> drop 1 p | None \<Rightarrow> cgroup) = r"
    using Some qr(2) by simp
  ultimately show ?thesis using qr(3) by metis
qed

text \<open>A control group yields the unit \<open>u\<close> exactly when its last path segment is \<open>u\<close>, that segment
  names a service, socket, mount or scope, and it fits the caller's buffer.\<close>

theorem cgroup_to_unit_iff:
  "ps_cgroup_to_unit cgroup cap = Some u \<longleftrightarrow>
     (cgroup = u \<or> suffix (CHR ''/'' # u) cgroup) \<and> CHR ''/'' \<notin> set u \<and>
     is_unit_name u \<and> length u < cap"
  using last_segment [of cgroup u] by (auto simp: ps_cgroup_to_unit_alt Let_def)

section \<open>Read suppression\<close>

definition prefix_match :: "string \<Rightarrow> nat \<Rightarrow> string \<Rightarrow> bool" where
  "prefix_match pre plen path = strncmp_eq path pre plen"

definition suppress_entry :: "string \<Rightarrow> nat \<Rightarrow> string option \<Rightarrow> string \<Rightarrow> bool" where
  \<comment> \<open>the body of the loop for the entry of \<open>elen\<close> bytes at \<open>p\<close>\<close>
  "suppress_entry p elen comm path =
     (case strchr (take elen p) (CHR '':'') of
        Some colon \<Rightarrow>
          (let clen = ptr_off colon (take elen p); pref = drop (clen + 1) p; plen = elen - clen - 1
           in case comm of
                None \<Rightarrow> False
              | Some cm \<Rightarrow> length cm = clen \<and> strncmp_eq cm p clen \<and> 0 < plen \<and> prefix_match pref plen path)
      | None \<Rightarrow> 0 < elen \<and> prefix_match p elen path)"

function suppress_scan :: "string \<Rightarrow> string option \<Rightarrow> string \<Rightarrow> bool" where
  "suppress_scan p comm path =
     (if p = [] then False
      else let comma = strchr p (CHR '','');
               elen = (case comma of Some q \<Rightarrow> ptr_off q p | None \<Rightarrow> length p)
           in if suppress_entry p elen comm path then True
              else case comma of None \<Rightarrow> False | Some q \<Rightarrow> suppress_scan (drop 1 q) comm path)"
  by pat_completeness auto
termination
  by (relation "measure (\<lambda>(p, _, _). length p)") (auto dest!: strchr_after_shorter)

declare suppress_scan.simps [simp del]

definition ps_suppress_match :: "string option \<Rightarrow> string option \<Rightarrow> string option \<Rightarrow> bool \<Rightarrow> bool" where
  "ps_suppress_match lst comm path is_read =
     (case (lst, path) of
        (Some l, Some p) \<Rightarrow> if \<not> is_read \<or> l = [] then False else suppress_scan l comm p
      | _ \<Rightarrow> False)"

definition suppresses :: "string \<Rightarrow> string option \<Rightarrow> string \<Rightarrow> bool" where
  \<comment> \<open>specification of one entry: \<open>prefix\<close> or \<open>comm:prefix\<close>, the prefix not empty\<close>
  "suppresses e comm path \<longleftrightarrow>
     (if CHR '':'' \<in> set e
      then \<exists>c pre. e = c @ CHR '':'' # pre \<and> CHR '':'' \<notin> set c \<and> comm = Some c \<and> pre \<noteq> [] \<and> prefix pre path
      else e \<noteq> [] \<and> prefix e path)"

lemma suppresses_plain:
  "CHR '':'' \<notin> set e \<Longrightarrow> suppresses e comm path \<longleftrightarrow> e \<noteq> [] \<and> prefix e path"
  by (simp add: suppresses_def)

lemma suppresses_comm:
  assumes "CHR '':'' \<notin> set c"
  shows "suppresses (c @ CHR '':'' # pre) comm path \<longleftrightarrow> comm = Some c \<and> pre \<noteq> [] \<and> prefix pre path"
proof -
  have "c' = c \<and> pre' = pre" if "c @ CHR '':'' # pre = c' @ CHR '':'' # pre'" "CHR '':'' \<notin> set c'" for c' pre'
    using that assms by (simp add: split_first_eq)
  with assms show ?thesis unfolding suppresses_def by (simp only: set_append) fastforce
qed

lemma strncmp_eq_prefix_append: "strncmp_eq path (e @ r) (length e) \<longleftrightarrow> prefix e path"
  using strncmp_eq_prefix [of path e] by (simp add: strncmp_eq_def)

lemma suppress_entry_iff: "suppress_entry (e @ r) (length e) comm path \<longleftrightarrow> suppresses e comm path"
proof (cases "strchr e (CHR '':'')")
  case None
  then have "CHR '':'' \<notin> set e" by simp
  with None show ?thesis
    by (simp add: suppress_entry_def suppresses_plain prefix_match_def strncmp_eq_prefix_append
          del: strchr_None_iff)
next
  case (Some q)
  then obtain c pre where e: "e = c @ CHR '':'' # pre" "CHR '':'' \<notin> set c" "q = CHR '':'' # pre"
    using strchr_SomeD by blast
  have entry: "suppress_entry (e @ r) (length e) comm path \<longleftrightarrow>
      (case comm of None \<Rightarrow> False
       | Some cm \<Rightarrow> (length cm = length c \<and> take (length c) cm = c) \<and> pre \<noteq> [] \<and> prefix pre path)"
    using e strncmp_eq_prefix_append [of path pre r]
    by (simp add: suppress_entry_def ptr_off_def prefix_match_def strncmp_eq_def Let_def split: option.split)
  have "length cm = length c \<and> take (length c) cm = c \<longleftrightarrow> cm = c" for cm
    by auto
  then show ?thesis
    unfolding entry unfolding e(1) suppresses_comm [OF e(2)] by (simp split: option.split)
qed

lemma not_suppresses_Nil [simp]: "\<not> suppresses [] comm path"
  by (simp add: suppresses_def)

lemma suppress_scan_more:
  assumes "CHR '','' \<notin> set e"
  shows "suppress_scan (e @ CHR '','' # r) comm path \<longleftrightarrow> suppresses e comm path \<or> suppress_scan r comm path"
  using assms suppress_entry_iff [of e "CHR '','' # r" comm path]
  by (subst suppress_scan.simps) (simp add: ptr_off_def)

lemma suppress_scan_one:
  assumes "CHR '','' \<notin> set e"
  shows "suppress_scan e comm path \<longleftrightarrow> suppresses e comm path"
proof -
  have "strchr e (CHR '','') = None" using assms by simp
  then show ?thesis
    using suppress_entry_iff [of e "[]" comm path]
    by (subst suppress_scan.simps) (auto simp del: strchr_None_iff)
qed

lemma suppress_scan_csv: "suppress_scan p comm path \<longleftrightarrow> (\<exists>e \<in> set (csv p). suppresses e comm path)"
proof (induction p rule: length_induct)
  case (1 p)
  show ?case
  proof (cases p rule: csv_cases)
    case one
    then show ?thesis by (simp add: suppress_scan_one)
  next
    case (more e r)
    with 1 have "suppress_scan r comm path \<longleftrightarrow> (\<exists>e \<in> set (csv r). suppresses e comm path)" by simp
    with more(1,2) show ?thesis by (simp add: suppress_scan_more csv_comma)
  qed
qed

text \<open>An access is suppressed exactly when it is a read and some entry of the comma-separated
  list matches it, by path prefix or by command name and path prefix; a write or an execution
  is never suppressed.\<close>

theorem suppress_match_iff:
  "ps_suppress_match (Some l) comm (Some path) is_read \<longleftrightarrow>
     is_read \<and> (\<exists>e \<in> set (csv l). suppresses e comm path)"
  by (cases l) (simp_all add: ps_suppress_match_def suppress_scan_csv)

end
