(* ===== verification/Policy.thy ===== *)
theory Policy
  imports Paths
begin

text \<open>
  The declared sandbox of a systemd unit: \<open>systemd_policy.c\<close> derives a policy from the text of
  \<open>systemctl show\<close> and caches it per unit, \<open>policy_eval.c\<close> evaluates one access against it.
  The loader (\<open>systemctl\<close> run through \<open>popen\<close>) is a parameter of the cache.
\<close>

section \<open>The policy record\<close>

datatype ps_protect_system = PROTSYS_NO | PROTSYS_YES | PROTSYS_FULL | PROTSYS_STRICT

datatype ps_protect_home = PROTHOME_NO | PROTHOME_RO | PROTHOME_INACCESSIBLE

fun protsys_rank :: "ps_protect_system \<Rightarrow> nat" where
  "protsys_rank PROTSYS_NO = 0"
| "protsys_rank PROTSYS_YES = 1"
| "protsys_rank PROTSYS_FULL = 2"
| "protsys_rank PROTSYS_STRICT = 3"

lemma protsys_rank_inj: "protsys_rank a = protsys_rank b \<Longrightarrow> a = b"
  by (cases a; cases b) simp_all

text \<open>The order of the enumeration constants, which \<open>protsys_protects\<close> compares with.\<close>

instantiation ps_protect_system :: linorder
begin

definition less_eq_ps_protect_system :: "ps_protect_system \<Rightarrow> ps_protect_system \<Rightarrow> bool" where
  "a \<le> b \<longleftrightarrow> protsys_rank a \<le> protsys_rank b"

definition less_ps_protect_system :: "ps_protect_system \<Rightarrow> ps_protect_system \<Rightarrow> bool" where
  "a < b \<longleftrightarrow> protsys_rank a < protsys_rank b"

instance
  by standard
     (auto simp: less_eq_ps_protect_system_def less_ps_protect_system_def intro: protsys_rank_inj)

end

record ps_unit_policy =
  known :: bool
  protect_system :: ps_protect_system
  protect_home :: ps_protect_home
  private_tmp :: bool
  mdwe :: bool
  rw :: "string list"
  ro :: "string list"
  inacc :: "string list"

definition empty_policy :: ps_unit_policy where
  "empty_policy = \<lparr>known = False, protect_system = PROTSYS_NO, protect_home = PROTHOME_NO,
     private_tmp = False, mdwe = False, rw = [], ro = [], inacc = []\<rparr>"

abbreviation PS_POL_MAX_PATHS :: nat where "PS_POL_MAX_PATHS \<equiv> 64"
abbreviation PS_POL_PATHLEN :: nat where "PS_POL_PATHLEN \<equiv> 256"

section \<open>Deriving a policy\<close>

function add_paths :: "string \<Rightarrow> string list \<Rightarrow> string list" where
  "add_paths p arr =
     (if p = [] \<or> length arr \<ge> PS_POL_MAX_PATHS then arr
      else let p = dropWhile (\<lambda>c. c = CHR '' '') p
           in if p = [] then arr
              else let tok = takeWhile (\<lambda>c. c \<noteq> CHR '' '') p; e = dropWhile (\<lambda>c. c \<noteq> CHR '' '') p
                   in add_paths e (if 0 < length tok \<and> length tok < PS_POL_PATHLEN then arr @ [tok] else arr))"
  by pat_completeness auto

lemma token_shorter:
  "dropWhile P p \<noteq> [] \<Longrightarrow> (\<And>c. P c \<longleftrightarrow> \<not> Q c) \<Longrightarrow> length (dropWhile Q (dropWhile P p)) < length p"
proof -
  assume a: "dropWhile P p \<noteq> []" and PQ: "\<And>c. P c \<longleftrightarrow> \<not> Q c"
  obtain c r where cr: "dropWhile P p = c # r" using a by (cases "dropWhile P p") auto
  then have "Q c" using hd_dropWhile [OF a] PQ by auto
  then have "length (dropWhile Q (dropWhile P p)) \<le> length r"
    using cr length_dropWhile_le [of Q r] by simp
  moreover have "length (c # r) \<le> length p" using length_dropWhile_le [of P p] cr by simp
  ultimately show ?thesis by simp
qed

termination add_paths
  by (relation "measure (\<lambda>(p, _). length p)") (auto intro!: token_shorter)

declare add_paths.simps [simp del]

definition policy_set_key :: "string \<Rightarrow> string \<Rightarrow> ps_unit_policy \<Rightarrow> ps_unit_policy" where
  \<comment> \<open>the chain of \<open>KEYIS\<close> tests; \<open>v\<close> is the value in its buffer of 2048 bytes\<close>
  "policy_set_key key v out =
     (if key = ''FragmentPath'' then out\<lparr>known := v \<noteq> []\<rparr>
      else if key = ''ProtectSystem''
      then out\<lparr>protect_system :=
             if v = ''strict'' then PROTSYS_STRICT else if v = ''full'' then PROTSYS_FULL
             else if v = ''yes'' then PROTSYS_YES else PROTSYS_NO\<rparr>
      else if key = ''ProtectHome''
      then out\<lparr>protect_home :=
             if v = ''read-only'' then PROTHOME_RO
             else if v = ''yes'' \<or> v = ''true'' \<or> v = ''tmpfs'' then PROTHOME_INACCESSIBLE
             else PROTHOME_NO\<rparr>
      else if key = ''PrivateTmp'' then out\<lparr>private_tmp := (v = ''yes'' \<or> v = ''true'')\<rparr>
      else if key = ''MemoryDenyWriteExecute'' then out\<lparr>mdwe := (v = ''yes'' \<or> v = ''true'')\<rparr>
      else if key = ''ReadWritePaths'' then out\<lparr>rw := add_paths v (rw out)\<rparr>
      else if key = ''ReadOnlyPaths'' then out\<lparr>ro := add_paths v (ro out)\<rparr>
      else if key = ''InaccessiblePaths'' then out\<lparr>inacc := add_paths v (inacc out)\<rparr>
      else out)"

definition policy_line :: "string \<Rightarrow> ps_unit_policy \<Rightarrow> ps_unit_policy" where
  "policy_line line out =
     (case strchr line (CHR ''='') of
        None \<Rightarrow> out
      | Some eq \<Rightarrow>
          (let klen = ptr_off eq line; val = drop 1 eq; vlen = length line - klen - 1;
               vc = (if vlen < 2047 then vlen else 2047)
           in policy_set_key (take klen line) (take vc val) out))"

function derive_lines :: "string \<Rightarrow> ps_unit_policy \<Rightarrow> ps_unit_policy" where
  "derive_lines line out =
     (if line = [] then out
      else let nl = strchr line (CHR 0x0A);
               llen = (case nl of Some q \<Rightarrow> ptr_off q line | None \<Rightarrow> length line);
               out = policy_line (take llen line) out
           in case nl of None \<Rightarrow> out | Some q \<Rightarrow> derive_lines (drop 1 q) out)"
  by pat_completeness auto
termination
  by (relation "measure (\<lambda>(p, _). length p)") (auto dest!: strchr_after_shorter)

declare derive_lines.simps [simp del]

definition ps_unit_policy_derive :: "string option \<Rightarrow> ps_unit_policy" where
  "ps_unit_policy_derive txt =
     (case txt of None \<Rightarrow> empty_policy | Some t \<Rightarrow> derive_lines t empty_policy)"

section \<open>Evaluating an access\<close>

datatype ps_op = OP_READ | OP_WRITE | OP_EXEC

definition under_any :: "string \<Rightarrow> string list \<Rightarrow> bool" where
  "under_any path arr = list_ex (under path) arr"

definition protsys_protects :: "ps_protect_system \<Rightarrow> string \<Rightarrow> bool" where
  "protsys_protects ps path =
     (if ps = PROTSYS_STRICT then True
      else if ps \<ge> PROTSYS_FULL \<and> under path ''/etc'' then True
      else if ps \<ge> PROTSYS_YES \<and> (under path ''/usr'' \<or> under path ''/boot'' \<or> under path ''/efi'') then True
      else False)"

definition home_path :: "string \<Rightarrow> bool" where
  "home_path path = (under path ''/home'' \<or> under path ''/root'' \<or> under path ''/run/user'')"

definition ps_policy_eval :: "ps_unit_policy \<Rightarrow> string \<Rightarrow> ps_op \<Rightarrow> (string \<times> bool) option" where
  \<comment> \<open>\<open>None\<close>: allowed; \<open>Some (directive, heuristic)\<close>: a violation\<close>
  "ps_policy_eval p path op =
     (if \<not> known p \<or> path = [] then None
      else if under_any path (inacc p) then Some (''InaccessiblePaths'', False)
      else if protect_home p = PROTHOME_INACCESSIBLE \<and> home_path path then Some (''ProtectHome'', False)
      else let rwp = under_any path (rw p)
           in case op of
                OP_WRITE \<Rightarrow>
                  (if rwp then None
                   else if protect_home p = PROTHOME_RO \<and> home_path path then Some (''ProtectHome'', False)
                   else if under_any path (ro p) then Some (''ReadOnlyPaths'', False)
                   else if protsys_protects (protect_system p) path then Some (''ProtectSystem'', False)
                   else None)
              | OP_EXEC \<Rightarrow>
                  (if rwp \<and> (mdwe p \<or> protect_system p = PROTSYS_STRICT)
                   then Some (''exec_from_writable'', True) else None)
              | OP_READ \<Rightarrow> None)"

section \<open>The cache\<close>

record pol_cache_ent =
  ce_unit :: string
  ce_loaded :: "64 word"
  ce_pol :: ps_unit_policy
  ce_used :: bool

abbreviation PS_POL_CACHE_N :: nat where "PS_POL_CACHE_N \<equiv> 128"

type_synonym pol_cache = "pol_cache_ent list"

definition empty_cache :: pol_cache where
  "empty_cache = replicate PS_POL_CACHE_N
     \<lparr>ce_unit = [], ce_loaded = 0, ce_pol = empty_policy, ce_used = False\<rparr>"

function cache_scan :: "pol_cache \<Rightarrow> string \<Rightarrow> nat \<Rightarrow> nat option \<Rightarrow> nat \<Rightarrow> nat option \<times> nat" where
  \<comment> \<open>the loop over the entries: the slot to use, and the least recently loaded entry\<close>
  "cache_scan g unit i slot lru =
     (if i \<ge> length g then (slot, lru)
      else if ce_used (g ! i) \<and> ce_unit (g ! i) = unit then (Some i, lru)
      else cache_scan g unit (Suc i)
             (if \<not> ce_used (g ! i) \<and> slot = None then Some i else slot)
             (if ce_loaded (g ! i) < ce_loaded (g ! lru) then i else lru))"
  by pat_completeness auto
termination
  by (relation "measure (\<lambda>(g, _, i, _, _). length g - i)") auto

declare cache_scan.simps [simp del]

definition ps_unit_policy_get ::
  "(string \<Rightarrow> nat \<Rightarrow> string option) \<Rightarrow> pol_cache \<Rightarrow> string \<Rightarrow> 64 word \<Rightarrow> 64 word \<Rightarrow>
   ps_unit_policy \<times> pol_cache" where
  "ps_unit_policy_get loader g unit now ttl =
     (let (slot, lru) = cache_scan g unit 0 None 0
      in if (case slot of Some i \<Rightarrow> ce_used (g ! i) \<and> ce_unit (g ! i) = unit \<and> now - ce_loaded (g ! i) < ttl
             | None \<Rightarrow> False)
         then (ce_pol (g ! the slot), g)
         else let i = (case slot of Some i \<Rightarrow> i | None \<Rightarrow> lru);
                  txt = (case loader unit 8192 of None \<Rightarrow> [] | Some t \<Rightarrow> t);
                  pol = ps_unit_policy_derive (Some txt)
              in (pol, g[i := \<lparr>ce_unit = snprintf_s 128 unit, ce_loaded = now, ce_pol = pol, ce_used = True\<rparr>]))"

definition unit_name_char :: "char \<Rightarrow> bool" where
  "unit_name_char c \<longleftrightarrow>
     (let n = (of_char c :: nat)
      in 65 \<le> n \<and> n \<le> 90 \<or> 97 \<le> n \<and> n \<le> 122 \<or> 48 \<le> n \<and> n \<le> 57 \<or>
         c \<in> {CHR ''.'', CHR ''-'', CHR ''_'', CHR ''@'', CHR '':'', CHR 0x5C})"

definition ps_unit_policy_load_systemctl :: "(string \<Rightarrow> string option) \<Rightarrow> string \<Rightarrow> nat \<Rightarrow> string option" where
  \<comment> \<open>\<open>popen\<close> runs a shell command and returns its output, or \<open>None\<close> when it cannot be started\<close>
  "ps_unit_policy_load_systemctl popen unit cap =
     (if \<not> list_all unit_name_char unit then None
      else case popen (snprintf_s 512 (''systemctl show '' @ [CHR 0x27] @ unit @ [CHR 0x27] @
              '' -p FragmentPath -p ProtectSystem -p ProtectHome '' @
              ''-p PrivateTmp -p MemoryDenyWriteExecute -p ReadWritePaths -p ReadOnlyPaths '' @
              ''-p InaccessiblePaths 2>/dev/null'')) of
             None \<Rightarrow> None
           | Some output \<Rightarrow> Some (take (cap - 1) output))"

section \<open>Lemmas on the path lists\<close>

function words :: "string \<Rightarrow> string list" where
  \<comment> \<open>specification: the blank-separated words of a value\<close>
  "words p =
     (let p = dropWhile (\<lambda>c. c = CHR '' '') p
      in if p = [] then []
         else takeWhile (\<lambda>c. c \<noteq> CHR '' '') p # words (dropWhile (\<lambda>c. c \<noteq> CHR '' '') p))"
  by pat_completeness auto
termination
  by (relation "measure length") (auto intro!: token_shorter)

declare words.simps [simp del]

lemma words_Nil [simp]: "words [] = []"
  by (simp add: words.simps)

lemma words_blank: "words (CHR '' '' # p) = words p"
  by (subst (1 2) words.simps) simp

lemma words_token:
  "tok \<noteq> [] \<Longrightarrow> CHR '' '' \<notin> set tok \<Longrightarrow> r = [] \<or> cur r = CHR '' '' \<Longrightarrow> words (tok @ r) = tok # words r"
proof -
  assume a: "tok \<noteq> []" "CHR '' '' \<notin> set tok" "r = [] \<or> cur r = CHR '' ''"
  have "dropWhile (\<lambda>c. c = CHR '' '') (tok @ r) = tok @ r"
    using a by (cases tok) auto
  moreover have "takeWhile (\<lambda>c. c \<noteq> CHR '' '') (tok @ r) = tok"
    using a by (cases r) (auto simp: takeWhile_tail)
  moreover have "dropWhile (\<lambda>c. c \<noteq> CHR '' '') (tok @ r) = r"
    using a by (cases r) (auto simp: dropWhile_append)
  ultimately show ?thesis using a(1) by (subst words.simps) simp
qed

lemma add_paths_step:
  assumes "length arr < PS_POL_MAX_PATHS" "p' = dropWhile (\<lambda>c. c = CHR '' '') p" "p' \<noteq> []"
  shows "add_paths p arr =
    add_paths (dropWhile (\<lambda>c. c \<noteq> CHR '' '') p')
      (let tok = takeWhile (\<lambda>c. c \<noteq> CHR '' '') p'
       in if 0 < length tok \<and> length tok < PS_POL_PATHLEN then arr @ [tok] else arr)"
proof -
  have "\<not> (p = [] \<or> length arr \<ge> PS_POL_MAX_PATHS)" using assms by auto
  then show ?thesis
    using assms(3)
    by (simp only: add_paths.simps [of p arr] Let_def assms(2) [symmetric] if_False)
qed

lemma words_step:
  assumes "p' = dropWhile (\<lambda>c. c = CHR '' '') p" "p' \<noteq> []"
  shows "words p = takeWhile (\<lambda>c. c \<noteq> CHR '' '') p' # words (dropWhile (\<lambda>c. c \<noteq> CHR '' '') p')"
  using assms(2) by (simp only: words.simps [of p] Let_def assms(1) [symmetric] if_False)

lemma add_paths_words:
  "length arr \<le> PS_POL_MAX_PATHS \<Longrightarrow>
   add_paths p arr = take PS_POL_MAX_PATHS (arr @ filter (\<lambda>t. length t < PS_POL_PATHLEN) (words p))"
proof (induction p arbitrary: arr rule: length_induct)
  case (1 p)
  define p' where "p' = dropWhile (\<lambda>c. c = CHR '' '') p"
  show ?case
  proof (cases "p' = [] \<or> length arr = PS_POL_MAX_PATHS")
    case True
    then show ?thesis
    proof
      assume "p' = []"
      then have "words p = []"
        by (simp only: words.simps [of p] Let_def p'_def [symmetric] if_True refl)
      moreover have "add_paths p arr = arr"
        using \<open>p' = []\<close> by (simp only: add_paths.simps [of p] Let_def p'_def [symmetric] if_True refl if_cancel)
      ultimately show ?thesis using "1.prems" by simp
    next
      assume "length arr = PS_POL_MAX_PATHS"
      then show ?thesis by (simp add: add_paths.simps [of p])
    qed
  next
    case False
    define tok where "tok = takeWhile (\<lambda>c. c \<noteq> CHR '' '') p'"
    define arr' where "arr' = (if length tok < PS_POL_PATHLEN then arr @ [tok] else arr)"
    let ?r = "dropWhile (\<lambda>c. c \<noteq> CHR '' '') p'"
    have "tok \<noteq> []"
      using False hd_dropWhile [of "\<lambda>c. c = CHR '' ''" p] unfolding p'_def tok_def
      by (cases "dropWhile (\<lambda>c. c = CHR '' '') p") auto
    then have "add_paths p arr = add_paths ?r arr'"
      using add_paths_step [OF _ p'_def, of arr] False "1.prems" by (simp add: tok_def arr'_def Let_def)
    also have "\<dots> = take PS_POL_MAX_PATHS (arr' @ filter (\<lambda>t. length t < PS_POL_PATHLEN) (words ?r))"
      using "1.IH" False "1.prems" token_shorter [of "\<lambda>c. c = CHR '' ''" p "\<lambda>c. c \<noteq> CHR '' ''"]
      by (simp add: arr'_def p'_def)
    also have "arr' @ filter (\<lambda>t. length t < PS_POL_PATHLEN) (words ?r) =
        arr @ filter (\<lambda>t. length t < PS_POL_PATHLEN) (words p)"
      using words_step [OF p'_def] False by (simp add: arr'_def tok_def)
    finally show ?thesis .
  qed
qed

section \<open>Lemmas on the evaluation\<close>

definition denied :: "ps_unit_policy \<Rightarrow> string \<Rightarrow> bool" where
  \<comment> \<open>specification: no access at all\<close>
  "denied p path \<longleftrightarrow> under_any path (inacc p) \<or> protect_home p = PROTHOME_INACCESSIBLE \<and> home_path path"

definition read_only :: "ps_unit_policy \<Rightarrow> string \<Rightarrow> bool" where
  \<comment> \<open>specification: no write access outside \<open>ReadWritePaths\<close>\<close>
  "read_only p path \<longleftrightarrow>
     protect_home p = PROTHOME_RO \<and> home_path path \<or> under_any path (ro p) \<or>
     protsys_protects (protect_system p) path"

lemma eval_write_iff:
  "ps_policy_eval p path OP_WRITE \<noteq> None \<longleftrightarrow>
     known p \<and> path \<noteq> [] \<and> (denied p path \<or> \<not> under_any path (rw p) \<and> read_only p path)"
  by (auto simp: ps_policy_eval_def denied_def read_only_def Let_def)

lemma eval_read_iff:
  "ps_policy_eval p path OP_READ \<noteq> None \<longleftrightarrow> known p \<and> path \<noteq> [] \<and> denied p path"
  by (auto simp: ps_policy_eval_def denied_def Let_def)

lemma eval_denied_same:
  "denied p path \<Longrightarrow> ps_policy_eval p path op = ps_policy_eval p path OP_READ"
  by (auto simp: ps_policy_eval_def denied_def Let_def)

lemma eval_exec_read:
  assumes "ps_policy_eval p path OP_READ = Some d"
  shows "ps_policy_eval p path OP_EXEC = Some d"
proof -
  have "denied p path" using assms eval_read_iff [of p path] by simp
  then show ?thesis using assms eval_denied_same by metis
qed

lemma protsys_protects_mono:
  assumes "ps \<le> ps'" and "protsys_protects ps path"
  shows "protsys_protects ps' path"
proof (cases "ps' = PROTSYS_STRICT")
  case False
  with assms(1) have "ps \<noteq> PROTSYS_STRICT"
    by (cases ps; cases ps') (simp_all add: less_eq_ps_protect_system_def)
  with assms(2) have "(ps \<ge> PROTSYS_FULL \<and> under path ''/etc'') \<or>
      (ps \<ge> PROTSYS_YES \<and> (under path ''/usr'' \<or> under path ''/boot'' \<or> under path ''/efi''))"
    by (simp add: protsys_protects_def split: if_splits)
  with assms(1) show ?thesis by (auto simp: protsys_protects_def intro: order_trans)
qed (simp add: protsys_protects_def)


text \<open>C25. Tightening \<open>ProtectSystem\<close> never hides a violation: an access that violates a policy also
  violates the same policy with a stricter \<open>ProtectSystem\<close>.\<close>

theorem policy_eval_mono:
  assumes "protect_system p \<le> ps" and "ps_policy_eval p path op \<noteq> None"
  shows "ps_policy_eval (p\<lparr>protect_system := ps\<rparr>) path op \<noteq> None"
proof (cases op)
  case OP_READ
  with assms(2) show ?thesis
    using eval_read_iff [of p path] eval_read_iff [of "p\<lparr>protect_system := ps\<rparr>" path]
    by (simp add: denied_def)
next
  case OP_WRITE
  have "read_only p path \<Longrightarrow> read_only (p\<lparr>protect_system := ps\<rparr>) path"
    using protsys_protects_mono [OF assms(1)] by (auto simp: read_only_def)
  with OP_WRITE assms(2) show ?thesis
    using eval_write_iff [of p path] eval_write_iff [of "p\<lparr>protect_system := ps\<rparr>" path]
    by (auto simp: denied_def)
next
  case OP_EXEC
  have "protect_system p = PROTSYS_STRICT \<Longrightarrow> ps = PROTSYS_STRICT"
    using assms(1) by (cases ps) (simp_all add: less_eq_ps_protect_system_def)
  with OP_EXEC assms(2) show ?thesis
    by (auto simp: ps_policy_eval_def Let_def split: if_splits)
qed

theorem policy_eval_mono_witness:
  "ps_policy_eval (empty_policy\<lparr>known := True, protect_system := PROTSYS_STRICT\<rparr>) ''/usr/x'' OP_WRITE \<noteq> None"
proof -
  let ?p = "empty_policy\<lparr>known := True, protect_system := PROTSYS_YES\<rparr>"
  have "protect_system ?p \<le> PROTSYS_STRICT"
    by (simp add: less_eq_ps_protect_system_def empty_policy_def)
  moreover have "ps_policy_eval ?p ''/usr/x'' OP_WRITE \<noteq> None"
    by (simp add: ps_policy_eval_def empty_policy_def under_any_def protsys_protects_def under_def
        strncmp_eq_def char_at_def less_eq_ps_protect_system_def)
  ultimately have "ps_policy_eval (?p\<lparr>protect_system := PROTSYS_STRICT\<rparr>) ''/usr/x'' OP_WRITE \<noteq> None"
    by (rule policy_eval_mono)
  then show ?thesis by simp
qed

section \<open>Lemmas on the cache\<close>

definition holds_unit :: "pol_cache \<Rightarrow> string \<Rightarrow> nat \<Rightarrow> bool" where
  "holds_unit g unit i \<longleftrightarrow> i < length g \<and> ce_used (g ! i) \<and> ce_unit (g ! i) = unit"

definition cache_inv :: "pol_cache \<Rightarrow> bool" where
  \<comment> \<open>the size never changes and no unit has two entries\<close>
  "cache_inv g \<longleftrightarrow> length g = PS_POL_CACHE_N \<and>
     (\<forall>u i j. holds_unit g u i \<longrightarrow> holds_unit g u j \<longrightarrow> i = j)"

definition cached :: "pol_cache \<Rightarrow> string \<Rightarrow> (ps_unit_policy \<times> 64 word) option" where
  \<comment> \<open>abstraction: the map from units to policies and load times\<close>
  "cached g unit = map_option (\<lambda>e. (ce_pol e, ce_loaded e)) (find (\<lambda>e. ce_used e \<and> ce_unit e = unit) g)"

lemma cache_scan_spec:
  assumes "cache_scan g unit i slot lru = (s, l)"
    and "\<forall>k < i. \<not> holds_unit g unit k"
    and "\<forall>k. slot = Some k \<longrightarrow> k < length g \<and> \<not> ce_used (g ! k)"
    and "slot = None \<longrightarrow> (\<forall>k < min i (length g). ce_used (g ! k))"
    and "lru < length g" "\<forall>k < min i (length g). ce_loaded (g ! lru) \<le> ce_loaded (g ! k)"
  shows "case s of
           Some k \<Rightarrow> holds_unit g unit k \<or> k < length g \<and> \<not> ce_used (g ! k) \<and> (\<forall>j. \<not> holds_unit g unit j)
         | None \<Rightarrow> (\<forall>j. \<not> holds_unit g unit j) \<and> (\<forall>k < length g. ce_used (g ! k)) \<and>
                   l < length g \<and> (\<forall>k < length g. ce_loaded (g ! l) \<le> ce_loaded (g ! k))"
  using assms
proof (induction g unit i slot lru rule: cache_scan.induct)
  case (1 g unit i slot lru)
  show ?case
  proof (cases "i \<ge> length g")
    case True
    have "\<not> holds_unit g unit j" for j
      using True "1.prems"(2) by (cases "j < i") (auto simp: holds_unit_def)
    moreover have "s = slot" "l = lru" "min i (length g) = length g"
      using True "1.prems"(1) by (simp_all add: cache_scan.simps [of g unit i])
    ultimately show ?thesis using "1.prems" by (auto split: option.split)
  next
    case False
    show ?thesis
    proof (cases "ce_used (g ! i) \<and> ce_unit (g ! i) = unit")
      case True
      with False "1.prems"(1) have "s = Some i" by (simp add: cache_scan.simps [of g unit i])
      with True False show ?thesis by (simp add: holds_unit_def)
    next
      case noti: False
      let ?slot = "if \<not> ce_used (g ! i) \<and> slot = None then Some i else slot"
      let ?lru = "if ce_loaded (g ! i) < ce_loaded (g ! lru) then i else lru"
      have scan: "cache_scan g unit (Suc i) ?slot ?lru = (s, l)"
        using False noti "1.prems"(1) by (simp only: cache_scan.simps [of g unit i] if_False)
      have min: "min (Suc i) (length g) = Suc i" "min i (length g) = i" using False by auto
      show ?thesis
      proof (rule "1.IH" [OF False noti scan])
        show "\<forall>k < Suc i. \<not> holds_unit g unit k"
          using noti "1.prems"(2) by (auto simp: less_Suc_eq holds_unit_def)
        show "\<forall>k. ?slot = Some k \<longrightarrow> k < length g \<and> \<not> ce_used (g ! k)"
          using False "1.prems"(3) by auto
        show "?slot = None \<longrightarrow> (\<forall>k < min (Suc i) (length g). ce_used (g ! k))"
          using "1.prems"(4) min by (auto simp: less_Suc_eq)
        show "?lru < length g" using False "1.prems"(5) by simp
        show "\<forall>k < min (Suc i) (length g). ce_loaded (g ! ?lru) \<le> ce_loaded (g ! k)"
          using "1.prems"(6) min by (auto simp: less_Suc_eq intro: order_trans less_imp_le)
      qed
    qed
  qed
qed

lemma cache_scan_start:
  assumes "cache_scan g unit 0 None 0 = (s, l)" and "g \<noteq> []"
  shows "case s of
           Some k \<Rightarrow> holds_unit g unit k \<or> k < length g \<and> \<not> ce_used (g ! k) \<and> (\<forall>j. \<not> holds_unit g unit j)
         | None \<Rightarrow> (\<forall>j. \<not> holds_unit g unit j) \<and> (\<forall>k < length g. ce_used (g ! k)) \<and>
                   l < length g \<and> (\<forall>k < length g. ce_loaded (g ! l) \<le> ce_loaded (g ! k))"
  using cache_scan_spec [OF assms(1)] assms(2) by simp

definition cache_hit :: "pol_cache \<Rightarrow> string \<Rightarrow> 64 word \<Rightarrow> 64 word \<Rightarrow> bool" where
  "cache_hit g unit now ttl \<longleftrightarrow> (\<exists>i. holds_unit g unit i \<and> now - ce_loaded (g ! i) < ttl)"

lemma cached_holds:
  assumes "cache_inv g" and "holds_unit g unit i"
  shows "cached g unit = Some (ce_pol (g ! i), ce_loaded (g ! i))"
proof (cases "find (\<lambda>e. ce_used e \<and> ce_unit e = unit) g")
  case None
  with assms(2) show ?thesis by (auto simp: find_None_iff holds_unit_def)
next
  case (Some e)
  then obtain j where "j < length g" "ce_used (g ! j)" "ce_unit (g ! j) = unit" "e = g ! j"
    by (auto simp: find_Some_iff)
  with assms have "j = i" by (auto simp: cache_inv_def holds_unit_def)
  with Some \<open>e = g ! j\<close> show ?thesis by (simp add: cached_def)
qed

lemma get_cases:
  assumes inv: "cache_inv g" and get: "ps_unit_policy_get loader g unit now ttl = (pol, g')"
  obtains (hit) i where "holds_unit g unit i" "now - ce_loaded (g ! i) < ttl" "pol = ce_pol (g ! i)" "g' = g"
  | (load) i where "i < length g" "\<not> cache_hit g unit now ttl"
      "pol = ps_unit_policy_derive (Some (case loader unit 8192 of None \<Rightarrow> [] | Some t \<Rightarrow> t))"
      "g' = g[i := \<lparr>ce_unit = snprintf_s 128 unit, ce_loaded = now, ce_pol = pol, ce_used = True\<rparr>]"
      "holds_unit g unit i \<or> (\<forall>j. \<not> holds_unit g unit j) \<and>
         (\<not> ce_used (g ! i) \<or>
          (\<forall>k < length g. ce_used (g ! k)) \<and> (\<forall>k < length g. ce_loaded (g ! i) \<le> ce_loaded (g ! k)))"
proof -
  obtain s l where scan: "cache_scan g unit 0 None 0 = (s, l)" by (cases "cache_scan g unit 0 None 0")
  have "g \<noteq> []" using inv by (auto simp: cache_inv_def)
  note spec = cache_scan_start [OF scan this]
  let ?fresh = "case s of Some i \<Rightarrow> ce_used (g ! i) \<and> ce_unit (g ! i) = unit \<and> now - ce_loaded (g ! i) < ttl
             | None \<Rightarrow> False"
  show thesis
  proof (cases ?fresh)
    case True
    then obtain i where i: "s = Some i" "ce_used (g ! i)" "ce_unit (g ! i) = unit" "now - ce_loaded (g ! i) < ttl"
      by (auto split: option.splits)
    with spec have "holds_unit g unit i" by (auto simp: holds_unit_def)
    moreover have "pol = ce_pol (g ! i)" "g' = g"
      using get scan i by (auto simp: ps_unit_policy_get_def)
    ultimately show ?thesis using hit i by blast
  next
    case False
    let ?i = "case s of Some i \<Rightarrow> i | None \<Rightarrow> l"
    have res: "pol = ps_unit_policy_derive (Some (case loader unit 8192 of None \<Rightarrow> [] | Some t \<Rightarrow> t))"
      "g' = g[?i := \<lparr>ce_unit = snprintf_s 128 unit, ce_loaded = now, ce_pol = pol, ce_used = True\<rparr>]"
      using get scan False by (auto simp: ps_unit_policy_get_def Let_def)
    have "\<not> cache_hit g unit now ttl"
      using spec False inv by (auto simp: cache_hit_def cache_inv_def holds_unit_def split: option.splits)
    moreover have "?i < length g" using spec by (auto simp: holds_unit_def split: option.splits)
    moreover have "holds_unit g unit ?i \<or> (\<forall>j. \<not> holds_unit g unit j) \<and>
         (\<not> ce_used (g ! ?i) \<or>
          (\<forall>k < length g. ce_used (g ! k)) \<and> (\<forall>k < length g. ce_loaded (g ! ?i) \<le> ce_loaded (g ! k)))"
      using spec by (auto split: option.splits)
    ultimately show ?thesis using load res by blast
  qed
qed

lemma cached_none: "(\<And>j. \<not> holds_unit g unit j) \<Longrightarrow> cached g unit = None"
  by (auto simp: cached_def find_None_iff holds_unit_def in_set_conv_nth)

lemma holds_unit_update:
  assumes "i < length g"
  shows "holds_unit (g[i := \<lparr>ce_unit = unit, ce_loaded = now, ce_pol = pol, ce_used = True\<rparr>]) u j \<longleftrightarrow>
    (if j = i then u = unit else holds_unit g u j)"
  using assms by (auto simp: holds_unit_def nth_list_update)

lemma cache_inv_update:
  assumes "cache_inv g" and "i < length g"
    and "holds_unit g unit i \<or> (\<forall>j. \<not> holds_unit g unit j)"
  shows "cache_inv (g[i := \<lparr>ce_unit = unit, ce_loaded = now, ce_pol = pol, ce_used = True\<rparr>])"
  using assms by (auto simp: cache_inv_def holds_unit_update split: if_splits)

lemma not_holds_empty [simp]: "\<not> holds_unit empty_cache u i"
  unfolding holds_unit_def empty_cache_def by (auto simp del: replicate.simps)

lemma cache_inv_empty: "cache_inv empty_cache"
  by (simp add: cache_inv_def) (simp add: empty_cache_def)

lemma get_inv:
  assumes "cache_inv g" and "length unit < 128" and "ps_unit_policy_get loader g unit now ttl = (pol, g')"
  shows "cache_inv g'"
  using assms(1,3)
proof (cases rule: get_cases)
  case (load i)
  then show ?thesis using assms(1,2) by (auto intro!: cache_inv_update)
qed (use assms(1) in simp)

text \<open>The cache never holds two entries for a unit and keeps its size, whatever the loader returns
  and however often the clock jumps.\<close>

theorem policy_cache_invariant:
  assumes "cache_inv g" and "length unit < 128"
  shows "cache_inv (snd (ps_unit_policy_get loader g unit now ttl))"
  using get_inv [OF assms] by (cases "ps_unit_policy_get loader g unit now ttl") auto

theorem policy_cache_invariant_witness:
  "cache_inv (snd (ps_unit_policy_get (\<lambda>_ _. None) empty_cache ''a.service'' 5 300))"
  using policy_cache_invariant [OF cache_inv_empty, of "''a.service''"] by simp



section \<open>Reading back a printed policy\<close>

text \<open>The text that \<open>systemctl show\<close> prints for a unit with a given policy.\<close>

fun unwords :: "string list \<Rightarrow> string" where
  "unwords [] = []"
| "unwords [w] = w"
| "unwords (w # v # ws) = w @ CHR '' '' # unwords (v # ws)"

fun show_protsys :: "ps_protect_system \<Rightarrow> string" where
  "show_protsys PROTSYS_NO = ''no''"
| "show_protsys PROTSYS_YES = ''yes''"
| "show_protsys PROTSYS_FULL = ''full''"
| "show_protsys PROTSYS_STRICT = ''strict''"

fun show_prothome :: "ps_protect_home \<Rightarrow> string" where
  "show_prothome PROTHOME_NO = ''no''"
| "show_prothome PROTHOME_RO = ''read-only''"
| "show_prothome PROTHOME_INACCESSIBLE = ''yes''"

definition show_yes :: "bool \<Rightarrow> string" where
  "show_yes b = (if b then ''yes'' else ''no'')"

definition policy_fields :: "ps_unit_policy \<Rightarrow> (string \<times> string) list" where
  "policy_fields p =
     [(''FragmentPath'', if known p then ''/lib/u.service'' else []),
      (''ProtectSystem'', show_protsys (protect_system p)),
      (''ProtectHome'', show_prothome (protect_home p)),
      (''PrivateTmp'', show_yes (private_tmp p)),
      (''MemoryDenyWriteExecute'', show_yes (mdwe p)),
      (''ReadWritePaths'', unwords (rw p)),
      (''ReadOnlyPaths'', unwords (ro p)),
      (''InaccessiblePaths'', unwords (inacc p))]"

definition show_policy :: "ps_unit_policy \<Rightarrow> string" where
  "show_policy p = concat (map (\<lambda>(k, v). k @ ''='' @ v @ [CHR 0x0A]) (policy_fields p))"

definition path_list_ok :: "string list \<Rightarrow> bool" where
  "path_list_ok ps \<longleftrightarrow> length ps \<le> PS_POL_MAX_PATHS \<and> length (unwords ps) < 2048 \<and>
     list_all (\<lambda>t. t \<noteq> [] \<and> length t < PS_POL_PATHLEN \<and> CHR '' '' \<notin> set t \<and> CHR 0x0A \<notin> set t) ps"

lemma words_unwords:
  "list_all (\<lambda>t. t \<noteq> [] \<and> CHR '' '' \<notin> set t) ps \<Longrightarrow> words (unwords ps) = ps"
proof (induction ps rule: unwords.induct)
  case (2 w)
  then show ?case using words_token [of w "[]"] by simp
next
  case (3 w v ws)
  then show ?case
    using words_token [of w "CHR '' '' # unwords (v # ws)"] by (simp add: words_blank)
qed simp

lemma unwords_no_newline: "list_all (\<lambda>t. CHR 0x0A \<notin> set t) ps \<Longrightarrow> CHR 0x0A \<notin> set (unwords ps)"
  by (induction ps rule: unwords.induct) auto

lemma add_paths_unwords: "path_list_ok ps \<Longrightarrow> add_paths (unwords ps) [] = ps"
proof -
  assume ok: "path_list_ok ps"
  then have "words (unwords ps) = ps"
    by (intro words_unwords) (auto simp: path_list_ok_def list_all_iff)
  moreover have "filter (\<lambda>t. length t < PS_POL_PATHLEN) ps = ps"
    using ok by (auto simp: path_list_ok_def list_all_iff intro: filter_True)
  ultimately show ?thesis using ok by (simp add: add_paths_words path_list_ok_def)
qed

lemma policy_line_field:
  "CHR ''='' \<notin> set k \<Longrightarrow> length v < 2048 \<Longrightarrow> policy_line (k @ CHR ''='' # v) out = policy_set_key k v out"
  by (simp add: policy_line_def ptr_off_def)

lemma derive_lines_line:
  "CHR 0x0A \<notin> set l \<Longrightarrow> derive_lines (l @ CHR 0x0A # r) out = derive_lines r (policy_line l out)"
  by (simp add: derive_lines.simps [of "l @ CHR 0x0A # r"] ptr_off_def)

lemma derive_lines_fields:
  assumes "list_all (\<lambda>(k, v). CHR ''='' \<notin> set k \<and> CHR 0x0A \<notin> set k \<and> CHR 0x0A \<notin> set v \<and> length v < 2048) kvs"
  shows "derive_lines (concat (map (\<lambda>(k, v). k @ ''='' @ v @ [CHR 0x0A]) kvs)) out =
    foldl (\<lambda>out (k, v). policy_set_key k v out) out kvs"
  using assms
proof (induction kvs arbitrary: out)
  case Nil
  then show ?case by (simp add: derive_lines.simps)
next
  case (Cons kv kvs)
  obtain k v where kv: "kv = (k, v)" by (cases kv)
  have "derive_lines (concat (map (\<lambda>(k, v). k @ ''='' @ v @ [CHR 0x0A]) (kv # kvs))) out =
      derive_lines ((k @ CHR ''='' # v) @ CHR 0x0A # concat (map (\<lambda>(k, v). k @ ''='' @ v @ [CHR 0x0A]) kvs)) out"
    using kv by simp
  also have "\<dots> = derive_lines (concat (map (\<lambda>(k, v). k @ ''='' @ v @ [CHR 0x0A]) kvs)) (policy_set_key k v out)"
    using Cons.prems kv by (subst derive_lines_line) (simp_all add: policy_line_field)
  finally show ?case using Cons kv by simp
qed

lemma show_values_ok:
  "CHR 0x0A \<notin> set (show_protsys a) \<and> length (show_protsys a) < 2048"
  "CHR 0x0A \<notin> set (show_prothome h) \<and> length (show_prothome h) < 2048"
  "CHR 0x0A \<notin> set (show_yes b) \<and> length (show_yes b) < 2048"
  subgoal by (cases a) simp_all
  subgoal by (cases h) simp_all
  subgoal by (simp add: show_yes_def)
  done

lemma path_list_okD:
  "path_list_ok ps \<Longrightarrow> CHR 0x0A \<notin> set (unwords ps) \<and> length (unwords ps) < 2048"
  using unwords_no_newline [of ps] by (auto simp: path_list_ok_def list_all_iff)

definition update_fields :: "ps_unit_policy \<Rightarrow> ps_unit_policy" where
  "update_fields p = foldl (\<lambda>out (k, v). policy_set_key k v out) empty_policy (policy_fields p)"

lemma update_fields_id:
  assumes "path_list_ok (rw p)" "path_list_ok (ro p)" "path_list_ok (inacc p)"
  shows "update_fields p = p"
proof -
  have sys: "(if show_protsys a = ''strict'' then PROTSYS_STRICT else if show_protsys a = ''full'' then PROTSYS_FULL
             else if show_protsys a = ''yes'' then PROTSYS_YES else PROTSYS_NO) = a" for a
    by (cases a) simp_all
  have home: "(if show_prothome h = ''read-only'' then PROTHOME_RO
       else if show_prothome h = ''yes'' \<or> show_prothome h = ''true'' \<or> show_prothome h = ''tmpfs''
       then PROTHOME_INACCESSIBLE else PROTHOME_NO) = h" for h
    by (cases h) simp_all
  have yes: "(show_yes b = ''yes'' \<or> show_yes b = ''true'') = b" for b
    by (simp add: show_yes_def)
  show ?thesis
    using assms
    by (simp add: update_fields_def policy_fields_def policy_set_key_def empty_policy_def sys home yes
        add_paths_unwords)
qed

text \<open>C32. Deriving a policy from the text that \<open>systemctl show\<close> prints for it gives the policy back,
  for path lists within the limits of the record.\<close>

theorem policy_derive_show:
  assumes "path_list_ok (rw p)" "path_list_ok (ro p)" "path_list_ok (inacc p)"
  shows "ps_unit_policy_derive (Some (show_policy p)) = p"
proof -
  have "ps_unit_policy_derive (Some (show_policy p)) = update_fields p"
    unfolding ps_unit_policy_derive_def option.case show_policy_def update_fields_def
    using assms [THEN path_list_okD]
    by (intro derive_lines_fields) (simp add: policy_fields_def show_values_ok)
  with update_fields_id [OF assms] show ?thesis by simp
qed

theorem policy_derive_show_witness:
  "let p = empty_policy\<lparr>known := True, protect_system := PROTSYS_FULL, rw := [''/var/lib/a'', ''/run/a'']\<rparr>
   in ps_unit_policy_derive (Some (show_policy p)) = p"
  using policy_derive_show [of "empty_policy\<lparr>known := True, protect_system := PROTSYS_FULL,
      rw := [''/var/lib/a'', ''/run/a'']\<rparr>"]
  by (simp add: path_list_ok_def empty_policy_def)

end
