(* ===== verification/Json_Writer.thy ===== *)
theory Json_Writer
  imports Prelude
begin

text \<open>
  The JSON writer of \<open>json.c\<close>. Its state is the text written so far (\<open>buf\<close> and \<open>len\<close> of the
  struct), the capacity, the depth, the comma flag and the error flag. A write that does not fit
  sets the error flag and every later write is dropped, so that \<open>ps_json_finish\<close> reports either
  the whole text or a failure.

  The specification is \<open>show_json\<close>, the text of a JSON value as a tree; \<open>text_sink\<close> is the contract
  of the buffer under the writer.
\<close>

section \<open>The buffer\<close>

record ps_json =
  jbuf :: string
  jcap :: nat
  jdepth :: int
  jcomma :: bool
  jerror :: bool

definition ps_json_init :: "nat \<Rightarrow> ps_json" where
  "ps_json_init cap = \<lparr>jbuf = [], jcap = cap, jdepth = 0, jcomma = False, jerror = False\<rparr>"

definition emit :: "ps_json \<Rightarrow> string \<Rightarrow> ps_json" where
  "emit j s =
     (if jerror j then j
      else if length (jbuf j) + length s \<ge> jcap j then j\<lparr>jerror := True\<rparr>
      else j\<lparr>jbuf := jbuf j @ s\<rparr>)"

definition maybe_comma :: "ps_json \<Rightarrow> ps_json" where
  "maybe_comma j = (if jcomma j then emit j '','' else j)\<lparr>jcomma := False\<rparr>"

definition hex_digit :: "nat \<Rightarrow> char" where
  "hex_digit n = (if n < 10 then char_of (48 + n) else char_of (87 + n))"

definition escape_char :: "char \<Rightarrow> string" where
  \<comment> \<open>the text the loop of \<open>emit_quoted\<close> writes for one character\<close>
  "escape_char c =
     (if c = CHR 0x22 then [CHR 0x5C, CHR 0x22]
      else if c = CHR 0x5C then [CHR 0x5C, CHR 0x5C]
      else if c = CHR 0x0A then [CHR 0x5C, CHR ''n'']
      else if c = CHR 0x09 then [CHR 0x5C, CHR ''t'']
      else if c = CHR 0x0D then [CHR 0x5C, CHR ''r'']
      else if (of_char c :: nat) < 0x20
      then [CHR 0x5C, CHR ''u'', CHR ''0'', CHR ''0'',
            hex_digit (of_char c div 16), hex_digit (of_char c mod 16)]
      else [c])"

definition emit_quoted :: "ps_json \<Rightarrow> string \<Rightarrow> ps_json" where
  "emit_quoted j s = emit (foldl (\<lambda>j c. emit j (escape_char c)) (emit j [CHR 0x22]) s) [CHR 0x22]"

section \<open>The operations\<close>

definition ps_json_object_begin :: "ps_json \<Rightarrow> ps_json" where
  "ps_json_object_begin j =
     (let j = emit (maybe_comma j) ''{'' in j\<lparr>jcomma := False, jdepth := jdepth j + 1\<rparr>)"

definition ps_json_object_end :: "ps_json \<Rightarrow> ps_json" where
  "ps_json_object_end j =
     (let j = emit j ''}'' in j\<lparr>jdepth := jdepth j - 1, jcomma := True\<rparr>)"

definition ps_json_key_object_begin :: "ps_json \<Rightarrow> string \<Rightarrow> ps_json" where
  "ps_json_key_object_begin j key =
     (let j = emit (emit_quoted (maybe_comma j) key) '':{''
      in j\<lparr>jcomma := False, jdepth := jdepth j + 1\<rparr>)"

definition ps_json_array_begin :: "ps_json \<Rightarrow> string \<Rightarrow> ps_json" where
  "ps_json_array_begin j key =
     (let j = emit (emit_quoted (maybe_comma j) key) '':['' in j\<lparr>jcomma := False\<rparr>)"

definition ps_json_array_end :: "ps_json \<Rightarrow> ps_json" where
  "ps_json_array_end j = (emit j '']'')\<lparr>jcomma := True\<rparr>"

definition ps_json_key_string :: "ps_json \<Rightarrow> string \<Rightarrow> string \<Rightarrow> ps_json" where
  "ps_json_key_string j key val =
     (emit_quoted (emit (emit_quoted (maybe_comma j) key) '':'') val)\<lparr>jcomma := True\<rparr>"

definition ps_json_key_int :: "ps_json \<Rightarrow> string \<Rightarrow> int \<Rightarrow> ps_json" where
  "ps_json_key_int j key val =
     (emit (emit_quoted (maybe_comma j) key) (CHR '':'' # show_int val))\<lparr>jcomma := True\<rparr>"

definition ps_json_key_bool :: "ps_json \<Rightarrow> string \<Rightarrow> bool \<Rightarrow> ps_json" where
  "ps_json_key_bool j key val =
     (emit (emit_quoted (maybe_comma j) key) (if val then '':true'' else '':false''))\<lparr>jcomma := True\<rparr>"

definition ps_json_key_null :: "ps_json \<Rightarrow> string \<Rightarrow> ps_json" where
  "ps_json_key_null j key = (emit (emit_quoted (maybe_comma j) key) '':null'')\<lparr>jcomma := True\<rparr>"

definition ps_json_array_string :: "ps_json \<Rightarrow> string \<Rightarrow> ps_json" where
  "ps_json_array_string j val = (emit_quoted (maybe_comma j) val)\<lparr>jcomma := True\<rparr>"

definition ps_json_key_double :: "('d \<Rightarrow> string) \<Rightarrow> ps_json \<Rightarrow> string \<Rightarrow> 'd \<Rightarrow> ps_json" where
  \<comment> \<open>\<open>fmt\<close> is the conversion \<open>%.3f\<close> of the C library\<close>
  "ps_json_key_double fmt j key val =
     (emit (emit_quoted (maybe_comma j) key) (snprintf_s 64 (CHR '':'' # fmt val)))\<lparr>jcomma := True\<rparr>"

definition ps_json_array_double :: "('d \<Rightarrow> string) \<Rightarrow> ps_json \<Rightarrow> 'd \<Rightarrow> ps_json" where
  "ps_json_array_double fmt j val =
     (emit (maybe_comma j) (snprintf_s 64 (fmt val)))\<lparr>jcomma := True\<rparr>"

definition ps_json_finish :: "ps_json \<Rightarrow> string option" where
  \<comment> \<open>\<open>None\<close> is the result -1; otherwise the NUL-terminated text, whose length is returned\<close>
  "ps_json_finish j = (if jerror j \<or> length (jbuf j) \<ge> jcap j then None else Some (jbuf j))"

section \<open>The contract of the buffer\<close>

locale text_sink =
  fixes put :: "'s \<Rightarrow> string \<Rightarrow> 's"
    and contents :: "'s \<Rightarrow> string option"
    and room :: "'s \<Rightarrow> nat"
  assumes contents_put: "contents (put s t) =
      (case contents s of None \<Rightarrow> None
       | Some b \<Rightarrow> if length b + length t < room s then Some (b @ t) else None)"
    and room_put: "room (put s t) = room s"
begin

lemma room_foldl: "room (foldl put s ts) = room s"
  by (induction ts arbitrary: s) (simp_all add: room_put)

lemma contents_put_put:
  "contents (put (put s t) u) = contents (put s (t @ u))"
  by (auto simp: contents_put room_put split: option.splits)

lemma contents_foldl_put: "contents (foldl put (put s t) ts) = contents (put s (t @ concat ts))"
proof (induction ts arbitrary: s t)
  case (Cons u ts)
  have "contents (foldl put (put s t) (u # ts)) = contents (put (put s t) (u @ concat ts))"
    using Cons.IH [of "put s t" u] by simp
  then show ?case by (simp add: contents_put_put)
qed simp

end

definition jtext :: "ps_json \<Rightarrow> string option" where
  "jtext j = (if jerror j then None else Some (jbuf j))"

interpretation jsink: text_sink emit jtext jcap
  by unfold_locales (auto simp: emit_def jtext_def)

section \<open>Text of a string and of a value\<close>

definition escape :: "string \<Rightarrow> string" where
  "escape s = concat (map escape_char s)"

definition quoted :: "string \<Rightarrow> string" where
  "quoted s = CHR 0x22 # escape s @ [CHR 0x22]"

lemma escape_simps [simp]:
  "escape [] = []" "escape (c # s) = escape_char c @ escape s" "escape (s @ t) = escape s @ escape t"
  by (simp_all add: escape_def)

lemma jtext_update [simp]:
  "jtext (j\<lparr>jcomma := b\<rparr>) = jtext j" "jtext (j\<lparr>jdepth := d\<rparr>) = jtext j"
  by (simp_all add: jtext_def)

lemma jcap_emit [simp]: "jcap (emit j s) = jcap j"
  by (rule jsink.room_put)

lemma jcomma_emit [simp]: "jcomma (emit j s) = jcomma j"
  by (simp add: emit_def)

lemma jtext_emit_quoted: "jtext (emit_quoted j s) = jtext (emit j (quoted s))"
proof -
  have "foldl (\<lambda>j c. emit j (escape_char c)) j0 s = foldl emit j0 (map escape_char s)" for j0
    by (simp add: foldl_map)
  then have "emit_quoted j s = foldl emit (emit j [CHR 0x22]) (map escape_char s @ [[CHR 0x22]])"
    by (simp add: emit_quoted_def)
  then show ?thesis
    by (simp only: jsink.contents_foldl_put) (simp add: quoted_def escape_def)
qed

lemma jcap_emit_quoted [simp]: "jcap (emit_quoted j s) = jcap j"
proof -
  have "jcap (foldl (\<lambda>j c. emit j (escape_char c)) j0 s) = jcap j0" for j0
    by (induction s arbitrary: j0) simp_all
  then show ?thesis by (simp add: emit_quoted_def)
qed

lemma jcomma_emit_quoted [simp]: "jcomma (emit_quoted j s) = jcomma j"
proof -
  have "jcomma (foldl (\<lambda>j c. emit j (escape_char c)) j0 s) = jcomma j0" for j0
    by (induction s arbitrary: j0) simp_all
  then show ?thesis by (simp add: emit_quoted_def)
qed

text \<open>
  Every operation of the writer appends one piece of text, preceded by a comma when one is due,
  and leaves the comma flag in a known state.
\<close>

definition jwf :: "ps_json \<Rightarrow> bool" where
  "jwf j \<longleftrightarrow> jerror j \<or> length (jbuf j) < jcap j"

definition appends :: "(ps_json \<Rightarrow> ps_json) \<Rightarrow> (bool \<Rightarrow> string) \<Rightarrow> (bool \<Rightarrow> bool) \<Rightarrow> bool" where
  "appends f piece comma \<longleftrightarrow>
     (\<forall>j. (jwf j \<longrightarrow> jtext (f j) = jtext (emit j (piece (jcomma j)))) \<and> jcap (f j) = jcap j \<and>
          jcomma (f j) = comma (jcomma j))"

definition sep :: "bool \<Rightarrow> string" where
  "sep b = (if b then '','' else [])"

lemma jtext_emit_Nil:
  "jtext (emit j []) = (case jtext j of None \<Rightarrow> None | Some b \<Rightarrow> if length b < jcap j then Some b else None)"
  by (simp add: jsink.contents_put split: option.splits)

lemma jtext_emit_cong:
  "jtext j = jtext k \<Longrightarrow> jcap j = jcap k \<Longrightarrow> jtext (emit j s) = jtext (emit k s)"
  by (cases "jtext k") (simp_all add: jsink.contents_put)

lemma jtext_maybe_comma:
  "t \<noteq> [] \<Longrightarrow> jtext (emit (maybe_comma j) t) = jtext (emit j (sep (jcomma j) @ t))"
  by (auto simp: maybe_comma_def sep_def jsink.contents_put split: option.splits)

lemma maybe_comma_fields [simp]: "jcap (maybe_comma j) = jcap j" "jcomma (maybe_comma j) = False"
  by (simp_all add: maybe_comma_def)

lemma appendsI:
  assumes "\<And>j. jwf j \<Longrightarrow> jtext (f j) = jtext (emit j (piece (jcomma j)))" "\<And>j. jcap (f j) = jcap j"
    "\<And>j. jcomma (f j) = comma (jcomma j)"
  shows "appends f piece comma"
  using assms by (simp add: appends_def)

lemma jtext_emit_quoted_emit: "jtext (emit (emit_quoted j s) t) = jtext (emit j (quoted s @ t))"
  using jtext_emit_cong [OF jtext_emit_quoted, of j s t] by (simp add: jsink.contents_put_put)

named_theorems appends_rules \<open>what the writer's operations and their compositions append\<close>

lemma jwf_jtext: "jwf j \<longleftrightarrow> (\<forall>b. jtext j = Some b \<longrightarrow> length b < jcap j)"
  by (auto simp: jwf_def jtext_def)

lemma appends_jwf: "appends f p c \<Longrightarrow> jwf j \<Longrightarrow> jwf (f j)"
  by (auto simp: appends_def jwf_jtext jsink.contents_put split: option.splits if_splits)

lemma appends_compose:
  assumes f: "appends f p c" and g: "appends g q d"
  shows "appends (\<lambda>j. g (f j)) (\<lambda>b. p b @ q (c b)) (\<lambda>b. d (c b))"
proof (rule appendsI)
  fix j
  assume j: "jwf j"
  have "jtext (emit (f j) t) = jtext (emit (emit j (p (jcomma j))) t)" for t
    using f j by (intro jtext_emit_cong) (simp_all add: appends_def)
  then show "jtext (g (f j)) = jtext (emit j (p (jcomma j) @ q (c (jcomma j))))"
    using f g j appends_jwf [OF f j] by (simp add: appends_def jsink.contents_put_put)
qed (use f g in \<open>simp_all add: appends_def\<close>)

lemma appends_id [appends_rules]: "appends (\<lambda>j. j) (\<lambda>_. []) (\<lambda>b. b)"
  by (rule appendsI) (auto simp: jtext_emit_Nil jwf_jtext split: option.splits)

lemma appends_if:
  assumes "P \<Longrightarrow> appends f p c" and "\<not> P \<Longrightarrow> appends g q d"
  shows "appends (\<lambda>j. if P then f j else g j) (\<lambda>b. if P then p b else q b) (\<lambda>b. if P then c b else d b)"
  using assms by (simp add: appends_def)

lemma appends_foldl:
  assumes "\<And>x. x \<in> set xs \<Longrightarrow> appends (\<lambda>j. f j x) (\<lambda>b. sep b @ p x) (\<lambda>_. True)"
  shows "appends (\<lambda>j. foldl f j xs)
           (\<lambda>b. concat (map (\<lambda>(x, i). sep (b \<or> 0 < i) @ p x) (zip xs [0..<length xs])))
           (\<lambda>b. b \<or> xs \<noteq> [])"
  using assms
proof (induction xs rule: rev_induct)
  case Nil
  then show ?case using appends_id by simp
next
  case (snoc x xs)
  have "appends (\<lambda>j. foldl f j xs)
           (\<lambda>b. concat (map (\<lambda>(x, i). sep (b \<or> 0 < i) @ p x) (zip xs [0..<length xs])))
           (\<lambda>b. b \<or> xs \<noteq> [])"
    using snoc by simp
  from appends_compose [OF this snoc.prems [of x]] show ?case
    by (simp add: length_greater_0_conv [symmetric] del: length_greater_0_conv)
qed

fun join :: "string list \<Rightarrow> string" where
  "join [] = []"
| "join [x] = x"
| "join (x # y # xs) = x @ CHR '','' # join (y # xs)"

lemma join_snoc: "join (xs @ [x]) = (if xs = [] then x else join xs @ CHR '','' # x)"
  by (induction xs rule: join.induct) auto

lemma concat_sep_join:
  "concat (map (\<lambda>(x, i). sep (0 < i) @ p x) (zip xs [0..<length xs])) = join (map p xs)"
  by (induction xs rule: rev_induct)
     (auto simp: join_snoc sep_def)

lemma quoted_nonempty [simp]: "quoted s \<noteq> []"
  by (simp add: quoted_def)

lemma appends_object_begin [appends_rules]:
  "appends ps_json_object_begin (\<lambda>b. sep b @ ''{'') (\<lambda>_. False)"
  by (rule appendsI) (simp_all add: ps_json_object_begin_def Let_def jtext_maybe_comma)

lemma appends_object_end [appends_rules]:
  "appends ps_json_object_end (\<lambda>_. ''}'') (\<lambda>_. True)"
  by (rule appendsI) (simp_all add: ps_json_object_end_def Let_def)

lemma appends_key_object_begin [appends_rules]:
  "appends (\<lambda>j. ps_json_key_object_begin j k) (\<lambda>b. sep b @ quoted k @ '':{'') (\<lambda>_. False)"
  by (rule appendsI)
     (simp_all add: ps_json_key_object_begin_def Let_def jtext_emit_quoted_emit jtext_maybe_comma)

lemma appends_array_begin [appends_rules]:
  "appends (\<lambda>j. ps_json_array_begin j k) (\<lambda>b. sep b @ quoted k @ '':['') (\<lambda>_. False)"
  by (rule appendsI)
     (simp_all add: ps_json_array_begin_def Let_def jtext_emit_quoted_emit jtext_maybe_comma)

lemma appends_array_end [appends_rules]:
  "appends ps_json_array_end (\<lambda>_. '']'') (\<lambda>_. True)"
  by (rule appendsI) (simp_all add: ps_json_array_end_def)

lemma appends_key_string [appends_rules]:
  "appends (\<lambda>j. ps_json_key_string j k v) (\<lambda>b. sep b @ quoted k @ '':'' @ quoted v) (\<lambda>_. True)"
proof (rule appendsI)
  fix j
  have "jtext (emit_quoted (emit (emit_quoted (maybe_comma j) k) '':'') v) =
        jtext (emit (emit (emit_quoted (maybe_comma j) k) '':'') (quoted v))"
    by (rule jtext_emit_quoted)
  also have "\<dots> = jtext (emit j (sep (jcomma j) @ quoted k @ '':'' @ quoted v))"
    by (simp add: jsink.contents_put_put jtext_emit_quoted_emit jtext_maybe_comma)
  finally show "jtext (ps_json_key_string j k v) = jtext (emit j (sep (jcomma j) @ quoted k @ '':'' @ quoted v))"
    by (simp add: ps_json_key_string_def)
qed (simp_all add: ps_json_key_string_def)

lemma appends_key_text:
  assumes "\<And>j. f j = (emit (emit_quoted (maybe_comma j) k) t)\<lparr>jcomma := True\<rparr>" 
  shows "appends f (\<lambda>b. sep b @ quoted k @ t) (\<lambda>_. True)"
  by (rule appendsI) (simp_all add: assms jtext_emit_quoted_emit jtext_maybe_comma)

lemma appends_key_int [appends_rules]:
  "appends (\<lambda>j. ps_json_key_int j k i) (\<lambda>b. sep b @ quoted k @ '':'' @ show_int i) (\<lambda>_. True)"
  using appends_key_text [of _ k "CHR '':'' # show_int i"] by (simp add: ps_json_key_int_def)

lemma appends_key_bool [appends_rules]:
  "appends (\<lambda>j. ps_json_key_bool j k v) (\<lambda>b. sep b @ quoted k @ (if v then '':true'' else '':false'')) (\<lambda>_. True)"
  by (rule appends_key_text) (simp add: ps_json_key_bool_def)

lemma appends_key_null [appends_rules]:
  "appends (\<lambda>j. ps_json_key_null j k) (\<lambda>b. sep b @ quoted k @ '':null'') (\<lambda>_. True)"
  by (rule appends_key_text) (simp add: ps_json_key_null_def)

lemma appends_array_string [appends_rules]:
  "appends (\<lambda>j. ps_json_array_string j v) (\<lambda>b. sep b @ quoted v) (\<lambda>_. True)"
  by (rule appendsI) (simp_all add: ps_json_array_string_def jtext_emit_quoted jtext_maybe_comma)

text \<open>What a complete document is: the text of the operations if it fits, and nothing otherwise.\<close>

lemma finish_appends:
  assumes "appends f piece comma"
  shows "ps_json_finish (f (ps_json_init cap)) =
    (if length (piece False) < cap then Some (piece False) else None)"
proof -
  let ?j = "f (ps_json_init cap)"
  have cap: "jcap ?j = cap"
    using assms by (auto simp: appends_def ps_json_init_def)
  have fin: "ps_json_finish ?j = (case jtext ?j of None \<Rightarrow> None | Some t \<Rightarrow> if length t < cap then Some t else None)"
    using cap by (simp add: ps_json_finish_def jtext_def)
  show ?thesis
  proof (cases "cap = 0")
    case True
    with fin show ?thesis by (auto split: option.splits)
  next
    case False
    then have "jwf (ps_json_init cap)" by (simp add: jwf_def ps_json_init_def)
    then have "jtext ?j = jtext (emit (ps_json_init cap) (piece False))"
      using assms by (auto simp: appends_def ps_json_init_def)
    moreover have "jtext (ps_json_init cap) = Some []" "jcap (ps_json_init cap) = cap"
      by (simp_all add: jtext_def ps_json_init_def)
    ultimately show ?thesis using fin by (simp add: jsink.contents_put)
  qed
qed

section \<open>JSON values\<close>

datatype json = JObj "(string \<times> json) list" | JArr "json list" | JStr string | JInt int | JBool bool

fun show_json :: "json \<Rightarrow> string" where
  "show_json (JObj kvs) = ''{'' @ join (map (\<lambda>(k, v). quoted k @ '':'' @ show_json v) kvs) @ ''}''"
| "show_json (JArr vs) = ''['' @ join (map show_json vs) @ '']''"
| "show_json (JStr s) = quoted s"
| "show_json (JInt i) = show_int i"
| "show_json (JBool b) = (if b then ''true'' else ''false'')"

text \<open>
  How the callers write a value: a client of the writer that walks the tree with one call per node.
  \<open>wr_elem\<close> writes the document or an element of an array, \<open>wr_field\<close> a named field. The writer has no
  call for an array, number or truth value as an array element, which \<open>writable\<close> excludes.
\<close>

fun wr_elem :: "json \<Rightarrow> ps_json \<Rightarrow> ps_json" and wr_field :: "string \<Rightarrow> json \<Rightarrow> ps_json \<Rightarrow> ps_json" where
  "wr_elem (JObj kvs) j =
     ps_json_object_end (foldl (\<lambda>j (k, v). wr_field k v j) (ps_json_object_begin j) kvs)"
| "wr_elem (JStr s) j = ps_json_array_string j s"
| "wr_elem _ j = j"
| "wr_field k (JObj kvs) j =
     ps_json_object_end (foldl (\<lambda>j (k, v). wr_field k v j) (ps_json_key_object_begin j k) kvs)"
| "wr_field k (JArr vs) j =
     ps_json_array_end (foldl (\<lambda>j v. wr_elem v j) (ps_json_array_begin j k) vs)"
| "wr_field k (JStr s) j = ps_json_key_string j k s"
| "wr_field k (JInt i) j = ps_json_key_int j k i"
| "wr_field k (JBool b) j = ps_json_key_bool j k b"

fun writable :: "json \<Rightarrow> bool" where
  "writable (JObj kvs) = (\<forall>(k, v) \<in> set kvs. writable v)"
| "writable (JArr vs) = (\<forall>v \<in> set vs. writable v \<and> (case v of JObj _ \<Rightarrow> True | JStr _ \<Rightarrow> True | _ \<Rightarrow> False))"
| "writable _ = True"

abbreviation elem_ok :: "json \<Rightarrow> bool" where
  "elem_ok v \<equiv> writable v \<and> (case v of JObj _ \<Rightarrow> True | JStr _ \<Rightarrow> True | _ \<Rightarrow> False)"

lemma appends_bracket:
  assumes op: "appends b (\<lambda>c. sep c @ o1) (\<lambda>_. False)" and cl: "appends e (\<lambda>_. c1) (\<lambda>_. True)"
    and each: "\<And>x. x \<in> set xs \<Longrightarrow> appends (\<lambda>j. f j x) (\<lambda>b. sep b @ p x) (\<lambda>_. True)"
  shows "appends (\<lambda>j. e (foldl f (b j) xs)) (\<lambda>c. sep c @ o1 @ join (map p xs) @ c1) (\<lambda>_. True)"
  using appends_compose [OF appends_compose [OF op appends_foldl [OF each]] cl]
  by (simp add: concat_sep_join)

lemma appends_wr:
  "elem_ok v \<Longrightarrow> appends (wr_elem v) (\<lambda>b. sep b @ show_json v) (\<lambda>_. True)"
  "writable v \<Longrightarrow> appends (wr_field k v) (\<lambda>b. sep b @ quoted k @ '':'' @ show_json v) (\<lambda>_. True)"
proof (induction v arbitrary: k)
  case (JObj kvs)
  have each: "appends (\<lambda>j. case kv of (k, v) \<Rightarrow> wr_field k v j)
      (\<lambda>b. sep b @ (case kv of (k, v) \<Rightarrow> quoted k @ '':'' @ show_json v)) (\<lambda>_. True)"
    if "kv \<in> set kvs" "writable (JObj kvs)" for kv
    using JObj(2) [of kv "snd kv" "fst kv"] that by (cases kv) (auto simp: snds.simps)
  {
    case 1
    then show ?case
      using appends_bracket [OF appends_object_begin appends_object_end each] by simp
  next
    case 2
    then show ?case
      using appends_bracket [OF appends_key_object_begin appends_object_end each, of kvs "\<lambda>x. x" k] by simp
  }
next
  case (JArr vs)
  {
    case 1
    then show ?case by simp
  next
    case 2
    then have "appends (\<lambda>j. wr_elem v j) (\<lambda>b. sep b @ show_json v) (\<lambda>_. True)" if "v \<in> set vs" for v
      using JArr(1) [of v] that by auto
    from appends_bracket [OF appends_array_begin appends_array_end this, of vs "\<lambda>x. x" k] show ?case by simp
  }
next
  case (JStr s)
  {
    case 1
    then show ?case using appends_array_string [of s] by simp
  next
    case 2
    then show ?case using appends_key_string [of k s] by simp
  }
next
  case (JInt i)
  {
    case 1
    then show ?case by simp
  next
    case 2
    then show ?case using appends_key_int [of k i] by simp
  }
next
  case (JBool b)
  {
    case 1
    then show ?case by simp
  next
    case 2
    then show ?case using appends_key_bool [of k b] by (cases b) simp_all
  }
qed

lemma finish_document:
  "writable (JObj kvs) \<Longrightarrow> ps_json_finish (wr_elem (JObj kvs) (ps_json_init cap)) =
    (if length (show_json (JObj kvs)) < cap then Some (show_json (JObj kvs)) else None)"
  using finish_appends [OF appends_wr(1) [of "JObj kvs"], of cap] by (simp add: sep_def)



end
