(* ===== verification/Json_Extract.thy ===== *)
theory Json_Extract
  imports Json_Writer
begin

text \<open>
  The field extractors of \<open>json_extract.c\<close>: they look for the text \<open>"key":\<close> and decode the string or
  the integer after it. The lemmas show why that works on what the writer produces: a string value
  never contains the text of a key, because every quote inside it is escaped, so the first
  occurrence of \<open>"key":\<close> is a key of the document; and decoding undoes the escapes.
\<close>

section \<open>The extractors\<close>

definition hexval :: "char \<Rightarrow> int" where
  "hexval c =
     (let n = int (of_char c)
      in if 48 \<le> n \<and> n \<le> 57 then n - 48
         else if 97 \<le> n \<and> n \<le> 102 then n - 97 + 10
         else if 65 \<le> n \<and> n \<le> 70 then n - 65 + 10
         else - 1)"

definition needle :: "string \<Rightarrow> string option" where
  \<comment> \<open>\<open>snprintf(needle, 128, "\"%s\":", key)\<close>; \<open>None\<close> when it does not fit\<close>
  "needle key =
     (let s = CHR 0x22 # key @ [CHR 0x22, CHR '':''] in if length s \<ge> 128 then None else Some s)"

definition skip_blank :: "string \<Rightarrow> string" where
  "skip_blank = dropWhile (\<lambda>c. c = CHR '' '' \<or> c = CHR 0x09)"

definition after_key :: "string \<Rightarrow> string \<Rightarrow> string option" where
  \<comment> \<open>the pointer behind \<open>"key":\<close> and blanks, where both extractors start\<close>
  "after_key json key =
     (case needle key of None \<Rightarrow> None
      | Some nd \<Rightarrow> (case strstr json nd of None \<Rightarrow> None
                   | Some p \<Rightarrow> Some (skip_blank (drop (length nd) p))))"

definition cast_long :: "int \<Rightarrow> int" where
  \<comment> \<open>arithmetic of a 64-bit \<open>long\<close>; the overflow of \<open>v * 10 + d\<close> taken as wrap-around\<close>
  "cast_long i = sint (word_of_int i :: 64 word)"

definition ps_json_extract_int :: "string \<Rightarrow> string \<Rightarrow> int option" where
  "ps_json_extract_int json key =
     (case after_key json key of None \<Rightarrow> None
      | Some p \<Rightarrow>
          (let neg = (cur p = CHR ''-''); q = (if neg then tl p else p)
           in if \<not> is_digit (cur q) then None
              else let v = cast_long (int (digits_val 0 q))
                   in Some (if neg then cast_long (- v) else v)))"

definition simple_escape :: "char \<Rightarrow> char option" where
  "simple_escape e =
     (if e = CHR 0x22 then Some (CHR 0x22)
      else if e = CHR 0x5C then Some (CHR 0x5C)
      else if e = CHR ''/'' then Some (CHR ''/'')
      else if e = CHR ''n'' then Some (CHR 0x0A)
      else if e = CHR ''r'' then Some (CHR 0x0D)
      else if e = CHR ''t'' then Some (CHR 0x09)
      else if e = CHR ''b'' then Some (CHR 0x08)
      else if e = CHR ''f'' then Some (CHR 0x0C)
      else None)"

fun unicode_escape :: "string \<Rightarrow> (char \<times> string) option" where
  \<comment> \<open>the four hex digits behind \<open>\u\<close>; the code point is cut to its low byte\<close>
  "unicode_escape (h1 # h2 # h3 # h4 # r) =
     (if hexval h1 < 0 \<or> hexval h2 < 0 \<or> hexval h3 < 0 \<or> hexval h4 < 0 then None
      else Some (char_of (nat ((hexval h1 * 4096 + hexval h2 * 256 + hexval h3 * 16 + hexval h4) mod 256)), r))"
| "unicode_escape _ = None"

lemma unicode_escape_shorter: "unicode_escape p = Some (d, r) \<Longrightarrow> length r < length p"
  by (cases p rule: unicode_escape.cases) (auto split: if_splits)

function decode_string :: "string \<Rightarrow> nat \<Rightarrow> string \<Rightarrow> string option" where
  \<comment> \<open>the loop of \<open>ps_json_extract_string\<close> behind the opening quote; \<open>out\<close> is what was written\<close>
  "decode_string [] cap out = None"
| "decode_string (c # cs) cap out =
     (if c = CHR 0x22 then Some out
      else if c = CHR 0x5C
      then case cs of
             [] \<Rightarrow> None
           | e # r \<Rightarrow>
               (if e = CHR ''u''
                then case unicode_escape r of
                       None \<Rightarrow> None
                     | Some (d, r') \<Rightarrow>
                         if length out + 1 \<ge> cap then None else decode_string r' cap (out @ [d])
                else case simple_escape e of
                       None \<Rightarrow> None
                     | Some d \<Rightarrow> if length out + 1 \<ge> cap then None else decode_string r cap (out @ [d]))
      else if length out + 1 \<ge> cap then None
      else decode_string cs cap (out @ [c]))"
  by pat_completeness auto
termination
  by (relation "measure (\<lambda>(p, _, _). length p)") (auto dest: unicode_escape_shorter)

definition ps_json_extract_string :: "string \<Rightarrow> string \<Rightarrow> nat \<Rightarrow> string option" where
  "ps_json_extract_string json key cap =
     (if cap = 0 then None
      else case after_key json key of
             None \<Rightarrow> None
           | Some p \<Rightarrow> if cur p \<noteq> CHR 0x22 then None else decode_string (tl p) cap [])"

definition cstr_of :: "string \<Rightarrow> string" where
  \<comment> \<open>a decoded value read back as a C string ends at its first NUL\<close>
  "cstr_of s = takeWhile (\<lambda>c. c \<noteq> NUL) s"

definition extract_cstr :: "string \<Rightarrow> string \<Rightarrow> nat \<Rightarrow> string option" where
  \<comment> \<open>the extracted value as the callers use it\<close>
  "extract_cstr json key cap = map_option cstr_of (ps_json_extract_string json key cap)"

definition extract_into :: "(string \<Rightarrow> string) \<Rightarrow> string \<Rightarrow> string \<Rightarrow> nat \<Rightarrow> string" where
  \<comment> \<open>a buffer holding the empty string after an extraction whose result is ignored: a failure inside the
      value leaves the decoded part in the buffer without a terminator, where \<open>stale key\<close> is what it
      reads as; a failure before the value leaves it empty\<close>
  "extract_into stale json key cap =
     (case ps_json_extract_string json key cap of
        Some v \<Rightarrow> cstr_of v
      | None \<Rightarrow> (case after_key json key of
                   None \<Rightarrow> []
                 | Some p \<Rightarrow> if cur p = CHR 0x22 then stale key else []))"

section \<open>Decoding undoes the escapes\<close>

lemma cstr_of_id [simp]: "is_cstr s \<Longrightarrow> cstr_of s = s"
  by (induction s) (auto simp: cstr_of_def)

lemma is_cstr_cstr_of [simp]: "is_cstr (cstr_of s)"
  by (auto simp: cstr_of_def is_cstr_def dest: set_takeWhileD)

lemma hexval_hex_digit: "n < 16 \<Longrightarrow> hexval (hex_digit n) = int n"
  by (auto simp: hexval_def hex_digit_def Let_def of_char_of)

lemma decode_escape_char:
  assumes "c \<noteq> NUL" and "length out + 1 < cap"
  shows "decode_string (escape_char c @ r) cap out = decode_string r cap (out @ [c])"
proof (cases "(of_char c :: nat) < 0x20")
  case True
  have "char_of (of_char c div 16 * 16 + of_char c mod 16 :: nat) = c" by simp
  moreover have "nat ((int (of_char c div 16) * 16 + int (of_char c mod 16)) mod 256) =
     of_char c div 16 * 16 + of_char c mod 16"
    using True by (simp add: nat_mod_distrib nat_add_distrib nat_mult_distrib)
  ultimately show ?thesis
    using assms True
    by (simp add: escape_char_def simple_escape_def hexval_hex_digit hexval_def [of "CHR ''0''"])
next
  case False
  with assms show ?thesis by (simp add: escape_char_def simple_escape_def)
qed

lemma decode_escape:
  "is_cstr s \<Longrightarrow> length out + length s < cap \<Longrightarrow>
   decode_string (escape s @ CHR 0x22 # r) cap out = Some (out @ s)"
  by (induction s arbitrary: out) (simp_all add: decode_escape_char)

lemma decode_escape_overlong:
  "is_cstr s \<Longrightarrow> length out < cap \<Longrightarrow> cap \<le> length out + length s \<Longrightarrow>
   decode_string (escape s @ CHR 0x22 # r) cap out = None"
proof (induction s arbitrary: out)
  case (Cons c s)
  show ?case
  proof (cases "length out + 1 < cap")
    case True
    with Cons show ?thesis by (simp add: decode_escape_char)
  next
    case False
    with Cons.prems show ?thesis
      by (auto simp: escape_char_def simple_escape_def split: option.splits)
  qed
qed simp

section \<open>The first key of a document\<close>

definition plain_char :: "char \<Rightarrow> bool" where
  "plain_char c \<longleftrightarrow> 32 \<le> (of_char c :: nat) \<and>
     c \<notin> {CHR 0x22, CHR 0x5C, CHR '','', CHR '':'', CHR ''}'', CHR '']''}"

definition plain_key :: "string \<Rightarrow> bool" where
  "plain_key k \<longleftrightarrow> list_all plain_char k \<and> length k + 3 < 128"

fun first_some :: "'a option list \<Rightarrow> 'a option" where
  "first_some [] = None"
| "first_some (None # xs) = first_some xs"
| "first_some (Some x # xs) = Some x"

fun first_field :: "string \<Rightarrow> json \<Rightarrow> json option" where
  \<comment> \<open>specification: the value of the first field called \<open>key\<close>, in the order of the text\<close>
  "first_field key (JObj kvs) =
     first_some (map (\<lambda>(k, v). if k = key then Some v else first_field key v) kvs)"
| "first_field key (JArr vs) = first_some (map (first_field key) vs)"
| "first_field key _ = None"

fun wf_json :: "json \<Rightarrow> bool" where
  "wf_json (JObj kvs) = (\<forall>(k, v) \<in> set kvs. plain_key k \<and> wf_json v)"
| "wf_json (JArr vs) = (\<forall>v \<in> set vs. wf_json v)"
| "wf_json (JStr s) = is_cstr s"
| "wf_json (JInt i) = (- (2 ^ 63) < i \<and> i < 2 ^ 63)"
| "wf_json (JBool b) = True"

definition key_text :: "string \<Rightarrow> string" where
  "key_text key = CHR 0x22 # key @ [CHR 0x22, CHR '':'']"

fun no_bare_quote :: "bool \<Rightarrow> string \<Rightarrow> bool" where
  \<comment> \<open>every quote follows a backslash; \<open>p\<close> says whether the text before ends in one\<close>
  "no_bare_quote p [] = True"
| "no_bare_quote p (c # cs) = ((c = CHR 0x22 \<longrightarrow> p) \<and> no_bare_quote (c = CHR 0x5C) cs)"

lemma hex_digit_not_quote: "n < 16 \<Longrightarrow> hex_digit n \<noteq> CHR 0x22 \<and> hex_digit n \<noteq> CHR 0x5C"
proof -
  assume "n < 16"
  then have "hexval (hex_digit n) = int n" by (rule hexval_hex_digit)
  then show ?thesis by (auto simp: hexval_def)
qed

lemma no_bare_quote_escape_char:
  assumes "\<And>p. no_bare_quote p r"
  shows "no_bare_quote p (escape_char c @ r)"
proof (cases "(of_char c :: nat) < 0x20")
  case True
  then have "of_char c div 16 < (16::nat)" by simp
  then have "hex_digit (of_char c div 16) \<noteq> CHR 0x22" "hex_digit (of_char c mod 16) \<noteq> CHR 0x22"
    using hex_digit_not_quote [of "of_char c div 16"] hex_digit_not_quote [of "of_char c mod 16"]
    by simp_all
  with assms show ?thesis by (simp add: escape_char_def)
next
  case False
  with assms show ?thesis by (simp add: escape_char_def)
qed

lemma no_bare_quote_escape: "no_bare_quote p (escape s)"
proof (induction s arbitrary: p)
  case (Cons c s)
  then show ?case by (simp add: no_bare_quote_escape_char)
qed simp

lemma plain_charD:
  "plain_char c \<Longrightarrow> c \<noteq> CHR 0x22 \<and> c \<noteq> CHR 0x5C \<and> c \<noteq> CHR '','' \<and> c \<noteq> CHR '':'' \<and> c \<noteq> CHR ''}'' \<and> c \<noteq> CHR '']''"
  unfolding plain_char_def by blast

lemma plain_escape_char: "plain_char c \<Longrightarrow> escape_char c = [c]"
proof -
  assume "plain_char c"
  then have c: "c \<noteq> CHR 0x22" "c \<noteq> CHR 0x5C" "\<not> (of_char c :: nat) < 0x20"
    unfolding plain_char_def by auto
  then have "c \<noteq> CHR 0x0A" "c \<noteq> CHR 0x09" "c \<noteq> CHR 0x0D" by (auto simp del: not_less)
  with c show ?thesis by (simp only: escape_char_def if_False)
qed

lemma plain_escape: "list_all plain_char k \<Longrightarrow> escape k = k"
  by (induction k) (simp_all add: plain_escape_char)

lemma plain_no_quote: "list_all plain_char k \<Longrightarrow> CHR 0x22 \<notin> set k"
  by (auto simp: list_all_iff dest: plain_charD)

lemma strstr_no_quote:
  "CHR 0x22 \<notin> set q \<Longrightarrow> strstr (q @ r) (key_text key) = strstr r (key_text key)"
  by (induction q) (auto simp: key_text_def strstr.simps)

lemma strstr_Cons_no_quote:
  "c \<noteq> CHR 0x22 \<Longrightarrow> strstr (c # r) (key_text key) = strstr r (key_text key)"
  by (simp add: key_text_def strstr.simps)

lemma key_not_in_body:
  assumes "list_all plain_char key" and "no_bare_quote False b" and "c \<noteq> CHR '':''"
  shows "\<not> prefix (key @ [CHR 0x22, CHR '':'']) (b @ CHR 0x22 # c # r)"
  using assms(1,2)
proof (induction key arbitrary: b)
  case Nil
  with assms(3) show ?case by (cases b) auto
next
  case (Cons k ks)
  then have "k \<noteq> CHR 0x22" "k \<noteq> CHR 0x5C" by (auto dest: plain_charD)
  with Cons show ?case by (cases b) auto
qed

lemma strstr_body:
  assumes "list_all plain_char key" and "c \<noteq> CHR '':''" and "no_bare_quote p b"
  shows "strstr (b @ CHR 0x22 # c # r) (key_text key) = strstr (CHR 0x22 # c # r) (key_text key)"
  using assms(3)
proof (induction b arbitrary: p)
  case (Cons x b)
  have "\<not> prefix (key_text key) (x # b @ CHR 0x22 # c # r)"
  proof (cases "x = CHR 0x22")
    case True
    with Cons.prems have "no_bare_quote False b" by simp
    with key_not_in_body [OF assms(1) this assms(2)] show ?thesis by (simp add: key_text_def)
  qed (simp add: key_text_def)
  moreover have "strstr (b @ CHR 0x22 # c # r) (key_text key) = strstr (CHR 0x22 # c # r) (key_text key)"
    using Cons.prems Cons.IH [of "x = CHR 0x5C"] by simp
  ultimately show ?case by (simp add: strstr_skip)
qed simp

lemma strstr_quote_delim:
  assumes "list_all plain_char key" and "c \<in> {CHR '','', CHR ''}'', CHR '']''}"
  shows "strstr (CHR 0x22 # c # r) (key_text key) = strstr (c # r) (key_text key)"
proof -
  have "\<not> prefix (key @ [CHR 0x22, CHR '':'']) (c # r)"
    using assms by (cases key) (auto dest: plain_charD)
  then have "\<not> prefix (key_text key) (CHR 0x22 # c # r)" by (simp add: key_text_def)
  then show ?thesis by (rule strstr_skip)
qed

lemma strstr_value:
  assumes "list_all plain_char key" and "c \<in> {CHR '','', CHR ''}'', CHR '']''}"
  shows "strstr (quoted v @ c # r) (key_text key) = strstr (c # r) (key_text key)"
proof -
  have c: "c \<noteq> CHR '':''" using assms(2) by auto
  have "\<not> prefix (key_text key) (CHR 0x22 # escape v @ CHR 0x22 # c # r)"
    using key_not_in_body [OF assms(1) no_bare_quote_escape c] by (simp add: key_text_def)
  then have "strstr (quoted v @ c # r) (key_text key) = strstr (escape v @ CHR 0x22 # c # r) (key_text key)"
    by (simp add: quoted_def strstr_skip)
  also have "\<dots> = strstr (CHR 0x22 # c # r) (key_text key)"
    using assms(1) c no_bare_quote_escape by (rule strstr_body)
  finally show ?thesis using strstr_quote_delim [OF assms] by simp
qed

lemma strstr_other_key:
  assumes "list_all plain_char key" "list_all plain_char k" "k \<noteq> key"
  shows "strstr (quoted k @ CHR '':'' # r) (key_text key) = strstr r (key_text key)"
proof -
  have nq: "CHR 0x22 \<notin> set key" "CHR 0x22 \<notin> set k" using assms plain_no_quote by blast+
  have "\<not> prefix (key_text key) (CHR 0x22 # k @ CHR 0x22 # CHR '':'' # r)"
    using nq assms(3) by (auto simp: key_text_def prefix_def split_first_eq)
  then have "strstr (quoted k @ CHR '':'' # r) (key_text key) = strstr (k @ CHR 0x22 # CHR '':'' # r) (key_text key)"
    using assms(2) by (simp add: quoted_def plain_escape strstr_skip)
  also have "\<dots> = strstr (CHR 0x22 # CHR '':'' # r) (key_text key)"
    using nq(2) by (rule strstr_no_quote)
  also have "\<dots> = strstr (CHR '':'' # r) (key_text key)"
  proof (rule strstr_skip)
    show "\<not> prefix (key_text key) (CHR 0x22 # CHR '':'' # r)"
      using assms(1) by (cases key) (auto simp: key_text_def dest: plain_charD)
  qed
  finally show ?thesis by (simp add: strstr_Cons_no_quote)
qed

lemma strstr_same_key:
  "list_all plain_char key \<Longrightarrow>
   strstr (quoted key @ CHR '':'' # r) (key_text key) = Some (key_text key @ r)"
  using strstr_prefix [of "key_text key" r] by (simp add: quoted_def plain_escape key_text_def del: strstr_prefix)

section \<open>Searching a document\<close>

definition delim :: "string \<Rightarrow> bool" where
  "delim r \<longleftrightarrow> r = [] \<or> hd r \<in> {CHR '','', CHR ''}'', CHR '']''}"

definition hits :: "string \<Rightarrow> string \<Rightarrow> string \<Rightarrow> json option \<Rightarrow> bool" where
  \<comment> \<open>searching \<open>txt\<close>, whose tail is \<open>r\<close>, finds the field with value \<open>v\<close>, or goes on into \<open>r\<close>\<close>
  "hits key txt r res \<longleftrightarrow>
     (case res of
        None \<Rightarrow> strstr txt (key_text key) = strstr r (key_text key)
      | Some v \<Rightarrow> \<exists>rest. delim rest \<and> strstr txt (key_text key) = Some (key_text key @ show_json v @ rest))"

lemma delim_simps [simp]:
  "delim (CHR '','' # r)" "delim (CHR ''}'' # r)" "delim (CHR '']'' # r)" "delim []"
  by (simp_all add: delim_def)

lemma hits_cong: "strstr t (key_text key) = strstr t' (key_text key) \<Longrightarrow> hits key t r v = hits key t' r v"
  by (cases v) (simp_all add: hits_def)

lemma hits_trans:
  "hits key t r None \<Longrightarrow> hits key r r' v \<Longrightarrow> hits key t r' v"
  by (cases v) (simp_all add: hits_def)

lemma hits_tail:
  "strstr r (key_text key) = strstr r' (key_text key) \<Longrightarrow> hits key t r v \<Longrightarrow> hits key t r' v"
  by (cases v) (simp_all add: hits_def)

lemma show_nat_no_quote: "CHR 0x22 \<notin> set (show_nat n)"
  using show_nat_digits [of n] by (auto simp: is_digit_def)

lemma show_int_no_quote: "CHR 0x22 \<notin> set (show_int i)"
  by (simp add: show_int_def show_nat_no_quote)

lemma hits_value:
  assumes "list_all plain_char key" and "delim r"
  shows "hits key (quoted v @ r) r None"
proof (cases r)
  case Nil
  have "strstr (escape v @ [CHR 0x22]) (key_text key) = None \<and>
        \<not> prefix (key_text key) (CHR 0x22 # escape v @ [CHR 0x22])"
  proof -
    have "strstr (quoted v @ '','') (key_text key) = strstr '','' (key_text key)"
      using strstr_value [OF assms(1), of "CHR '',''" v "[]"] by simp
    also have "\<dots> = None" by (simp add: key_text_def strstr.simps)
    finally have none: "strstr (quoted v @ '','') (key_text key) = None" .
    have "strstr (quoted v) (key_text key) = None"
      using strstr_append_None [OF none] by (simp add: key_text_def)
    then show ?thesis by (simp add: quoted_def strstr.simps split: if_splits)
  qed
  with Nil show ?thesis by (simp add: hits_def quoted_def key_text_def strstr.simps)
next
  case (Cons c r')
  with assms show ?thesis using strstr_value [OF assms(1), of c v r'] by (simp add: hits_def delim_def)
qed

lemma hits_text:
  "CHR 0x22 \<notin> set q \<Longrightarrow> hits key (q @ r) r None"
  by (simp add: hits_def strstr_no_quote)

abbreviation show_field :: "string \<times> json \<Rightarrow> string" where
  "show_field \<equiv> \<lambda>(k, v). quoted k @ '':'' @ show_json v"

lemma hits_field:
  assumes key: "list_all plain_char key" and k: "list_all plain_char k" and r: "delim r"
    and v: "hits key (show_json v @ r) r (first_field key v)"
  shows "hits key (show_field (k, v) @ r) r (if k = key then Some v else first_field key v)"
proof (cases "k = key")
  case True
  then show ?thesis
    using key r strstr_same_key [of key "show_json v @ r"] by (auto simp: hits_def)
next
  case False
  then show ?thesis
    using v strstr_other_key [OF key k False, of "show_json v @ r"]
    by (simp add: hits_cong [of "quoted k @ CHR '':'' # show_json v @ r" key "show_json v @ r"])
qed

lemma first_some_Cons: "first_some (x # xs) = (case x of None \<Rightarrow> first_some xs | Some y \<Rightarrow> Some y)"
  by (cases x) simp_all

lemma hits_join:
  assumes f: "\<And>x r. x \<in> set xs \<Longrightarrow> delim r \<Longrightarrow> hits key (f x @ r) r (g x)"
    and c: "c \<in> {CHR ''}'', CHR '']''}"
  shows "hits key (join (map f xs) @ c # r) (c # r) (first_some (map g xs))"
  using f
proof (induction xs)
  case Nil
  then show ?case by (simp add: hits_def)
next
  case (Cons x xs)
  have delim: "delim (c # r)" using c by (auto simp: delim_def)
  show ?case
  proof (cases xs)
    case Nil
    then show ?thesis
      using Cons.prems [of x "c # r"] delim by (cases "g x") simp_all
  next
    case (Cons y ys)
    let ?t = "join (map f xs) @ c # r"
    have x: "hits key (f x @ CHR '','' # ?t) (CHR '','' # ?t) (g x)"
      using Cons.prems [of x] by simp
    have xs: "hits key ?t (c # r) (first_some (map g xs))"
      using Cons.IH Cons.prems by simp
    have eq: "join (map f (x # xs)) @ c # r = f x @ CHR '','' # ?t"
      using Cons by simp
    show ?thesis
    proof (cases "g x")
      case None
      have "strstr (CHR '','' # ?t) (key_text key) = strstr ?t (key_text key)"
        by (rule strstr_Cons_no_quote) simp
      with x None have "hits key (f x @ CHR '','' # ?t) ?t None" by (auto intro: hits_tail)
      then show ?thesis using xs None eq by (auto intro: hits_trans)
    next
      case (Some v)
      with x eq show ?thesis by (simp add: hits_def)
    qed
  qed
qed

lemma hits_json:
  assumes "list_all plain_char key" and "wf_json t" and "delim r"
  shows "hits key (show_json t @ r) r (first_field key t)"
  using assms(2,3)
proof (induction t arbitrary: r rule: show_json.induct)
  case (1 kvs)
  have f: "hits key (show_field x @ r) r ((\<lambda>(k, v). if k = key then Some v else first_field key v) x)"
    if x: "x \<in> set kvs" and r: "delim r" for x r
  proof (cases x)
    case (Pair k v)
    with 1 x r have "plain_key k" "hits key (show_json v @ r) r (first_field key v)" by fastforce+
    then show ?thesis
      using hits_field [OF assms(1) _ r, of k v] Pair by (simp add: plain_key_def)
  qed
  have "hits key (join (map show_field kvs) @ CHR ''}'' # r) (CHR ''}'' # r) (first_field key (JObj kvs))"
    using hits_join [where f = show_field and g = "\<lambda>(k, v). if k = key then Some v else first_field key v",
        OF f, of kvs "CHR ''}''"] by simp
  then show ?case
    using hits_tail [OF strstr_Cons_no_quote, of "CHR ''}''" key _ r]
    by (simp add: hits_cong [OF strstr_Cons_no_quote])
next
  case (2 vs)
  have "hits key (join (map show_json vs) @ CHR '']'' # r) (CHR '']'' # r) (first_field key (JArr vs))"
    using hits_join [where f = show_json and g = "first_field key", of vs key "CHR '']''" r] 2 by simp
  then show ?case
    using hits_tail [OF strstr_Cons_no_quote, of "CHR '']''" key _ r]
    by (simp add: hits_cong [OF strstr_Cons_no_quote])
next
  case (3 v)
  then show ?case using hits_value [OF assms(1)] by simp
next
  case (4 i)
  then show ?case using hits_text [OF show_int_no_quote] by simp
next
  case (5 b)
  then show ?case using hits_text [of "show_json (JBool b)" key r] by auto
qed

lemma first_some_in: "first_some xs = Some y \<Longrightarrow> Some y \<in> set xs"
  by (induction xs rule: first_some.induct) auto

lemma first_field_wf: "wf_json t \<Longrightarrow> first_field key t = Some v \<Longrightarrow> wf_json v"
proof (induction t arbitrary: v rule: show_json.induct)
  case (1 kvs)
  from "1.prems"(2) obtain k w
    where kw: "(k, w) \<in> set kvs" "(if k = key then Some w else first_field key w) = Some v"
    by (auto dest!: first_some_in)
  with "1.prems"(1) have w: "wf_json w" by auto
  show ?case
  proof (cases "k = key")
    case True
    with kw(2) w show ?thesis by simp
  next
    case False
    with kw(2) have "first_field key w = Some v" by simp
    with "1.IH" [OF kw(1) refl] w show ?thesis by blast
  qed
next
  case (2 vs)
  from "2.prems"(2) obtain w where w: "w \<in> set vs" "first_field key w = Some v"
    by (auto dest!: first_some_in)
  with "2.prems"(1) have "wf_json w" by auto
  with "2.IH" [OF w(1)] w(2) show ?case by blast
qed simp_all

lemma needle_plain: "plain_key key \<Longrightarrow> needle key = Some (key_text key)"
  by (simp add: needle_def plain_key_def key_text_def)

lemma show_json_cur: "wf_json t \<Longrightarrow> skip_blank (show_json t @ r) = show_json t @ r"
proof (cases t)
  case (JInt i)
  have "is_digit (hd (show_nat n @ r))" for n
    using show_nat_cur [of n r] by (cases "show_nat n") auto
  then have "skip_blank (show_nat n @ r) = show_nat n @ r" for n
    using show_nat_cur [of n r]
    by (cases "show_nat n") (auto simp: skip_blank_def is_digit_def)
  with JInt show ?thesis by (simp add: show_int_def skip_blank_def)
qed (auto simp: skip_blank_def quoted_def)

lemma after_key_None:
  assumes "plain_key key" "wf_json t" "first_field key t = None"
  shows "after_key (show_json t) key = None"
proof -
  have "hits key (show_json t @ []) [] (first_field key t)"
    using assms by (intro hits_json) (simp_all add: plain_key_def)
  with assms show ?thesis
    by (simp add: hits_def after_key_def needle_plain key_text_def strstr.simps)
qed

lemma after_key_Some:
  assumes "plain_key key" "wf_json t" "first_field key t = Some v"
  shows "\<exists>rest. delim rest \<and> after_key (show_json t) key = Some (show_json v @ rest)"
proof -
  have "hits key (show_json t @ []) [] (first_field key t)"
    using assms by (intro hits_json) (simp_all add: plain_key_def)
  then obtain rest where "delim rest" "strstr (show_json t) (key_text key) = Some (key_text key @ show_json v @ rest)"
    using assms(3) by (auto simp: hits_def)
  with assms show ?thesis
    using show_json_cur [OF first_field_wf [OF assms(2,3)], of rest]
    by (auto simp: after_key_def needle_plain)
qed

lemma wf_json_obj: "wf_json (JObj kvs) \<longleftrightarrow> list_all (\<lambda>(k, v). plain_key k \<and> wf_json v) kvs"
  by (simp add: list_all_iff)

lemma wf_json_strs: "wf_json (JArr (map JStr ps)) \<longleftrightarrow> list_all is_cstr ps"
  by (simp add: list_all_iff)

lemma strstr_field:
  assumes "plain_key key" "wf_json t" "first_field key t = Some v"
  shows "\<exists>rest. delim rest \<and> strstr (show_json t) (key_text key) = Some (key_text key @ show_json v @ rest)"
proof -
  have "hits key (show_json t @ []) [] (first_field key t)"
    using assms by (intro hits_json) (simp_all add: plain_key_def)
  then show ?thesis using assms(3) by (auto simp: hits_def)
qed

lemma strstr_longer:
  "strstr s a = Some p \<Longrightarrow> prefix (a @ b) p \<Longrightarrow> strstr s (a @ b) = Some p"
proof (induction s)
  case (Cons x xs)
  show ?case
  proof (cases "prefix a (x # xs)")
    case True
    with Cons.prems have "p = x # xs" by (simp add: strstr.simps)
    with Cons.prems(2) show ?thesis by (simp add: strstr.simps)
  next
    case False
    then have "\<not> prefix (a @ b) (x # xs)" using append_prefixD by blast
    with False Cons show ?thesis by (simp add: strstr.simps)
  qed
qed (auto simp: strstr.simps split: if_splits)

lemma strstr_array:
  assumes "plain_key key" "wf_json t" "first_field key t = Some (JArr vs)"
  shows "\<exists>rest. strstr (show_json t) (key_text key @ ''['') = Some (key_text key @ ''['' @ join (map show_json vs) @ CHR '']'' # rest)"
proof -
  have "hits key (show_json t @ []) [] (first_field key t)"
    using assms by (intro hits_json) (simp_all add: plain_key_def)
  then obtain rest where "strstr (show_json t) (key_text key) = Some (key_text key @ show_json (JArr vs) @ rest)"
    using assms(3) by (auto simp: hits_def)
  then have "strstr (show_json t) (key_text key @ ''['') = Some (key_text key @ show_json (JArr vs) @ rest)"
    by (rule strstr_longer) simp
  then show ?thesis by auto
qed

lemma cast_long_small: "- (2 ^ 63) \<le> i \<Longrightarrow> i < 2 ^ 63 \<Longrightarrow> cast_long i = i"
  by (simp add: cast_long_def sint_sbintrunc' signed_take_bit_int_eq_self)

lemma extract_string_doc:
  assumes "plain_key key" "wf_json t" "0 < cap"
  shows "ps_json_extract_string (show_json t) key cap =
    (case first_field key t of
       Some (JStr s) \<Rightarrow> if length s < cap then Some s else None
     | _ \<Rightarrow> None)"
proof (cases "first_field key t")
  case None
  with assms after_key_None show ?thesis by (simp add: ps_json_extract_string_def)
next
  case (Some v)
  then obtain rest where a: "after_key (show_json t) key = Some (show_json v @ rest)"
    using after_key_Some assms by blast
  have wf: "wf_json v" using first_field_wf assms(2) Some by blast
  show ?thesis
  proof (cases v)
    case (JStr s)
    with a wf assms(3) Some show ?thesis
      using decode_escape [of s "[]" cap rest] decode_escape_overlong [of s "[]" cap rest]
      by (simp add: ps_json_extract_string_def quoted_def)
  next
    case (JInt i)
    have "cur (show_int i @ rest) \<noteq> CHR 0x22"
      using show_int_no_quote [of i] by (cases "show_int i") (auto simp: show_int_def split: if_splits)
    with a Some JInt show ?thesis by (simp add: ps_json_extract_string_def)
  qed (use a Some in \<open>auto simp: ps_json_extract_string_def\<close>)
qed

text \<open>C1. On a document of the writer, extracting a string field returns exactly the value of the
  first field of that name in document order, at any depth, if that value is a string that fits
  the buffer, and fails otherwise; no text inside a string value is ever taken for a key.\<close>

theorem extract_string_first_field:
  assumes "plain_key key" "wf_json t" "0 < cap"
  shows "ps_json_extract_string (show_json t) key cap =
    (case first_field key t of
       Some (JStr s) \<Rightarrow> if length s < cap then Some s else None
     | _ \<Rightarrow> None)"
  using assms by (rule extract_string_doc)

theorem extract_string_first_field_witness:
  "ps_json_extract_string (show_json (JObj [(''a'', JStr [CHR 0x22]), (''b'', JStr ''v'')])) ''b'' 4 = Some ''v''"
  using extract_string_first_field [of "''b''" "JObj [(''a'', JStr [CHR 0x22]), (''b'', JStr ''v'')]" 4]
  by (simp add: plain_key_def plain_char_def is_cstr_def)

lemma extract_int_doc:
  assumes "plain_key key" "wf_json t"
  shows "ps_json_extract_int (show_json t) key =
    (case first_field key t of Some (JInt i) \<Rightarrow> Some i | _ \<Rightarrow> None)"
proof (cases "first_field key t")
  case None
  with assms after_key_None show ?thesis by (simp add: ps_json_extract_int_def)
next
  case (Some v)
  then obtain rest where r: "delim rest" and a: "after_key (show_json t) key = Some (show_json v @ rest)"
    using after_key_Some assms by blast
  have wf: "wf_json v" using first_field_wf assms(2) Some by blast
  show ?thesis
  proof (cases v)
    case (JInt i)
    have "rest = [] \<or> \<not> is_digit (hd rest)" using r by (auto simp: delim_def is_digit_def)
    then have d: "digits_val 0 (show_nat n @ rest) = n" for n by (rule digits_val_show_nat_stop)
    have c: "is_digit (cur (show_nat n @ rest))" for n by (rule show_nat_cur)
    have m: "cur (show_nat n @ rest) \<noteq> CHR ''-''" for n using is_digit_char [OF c [of n]] by blast
    have range: "- (2 ^ 63) < i" "i < 2 ^ 63" using wf JInt by simp_all
    show ?thesis
    proof (cases "i < 0")
      case True
      with a Some JInt range c d show ?thesis
        by (simp add: ps_json_extract_int_def show_int_def cast_long_small)
    next
      case False
      with a Some JInt range c d m show ?thesis
        by (simp add: ps_json_extract_int_def show_int_def cast_long_small)
    qed
  qed (use a Some in \<open>auto simp: ps_json_extract_int_def quoted_def is_digit_def\<close>)
qed

text \<open>Extracting an integer field of a document of the writer returns the value of the first
  field of that name in document order if it is an integer, and fails otherwise.\<close>

theorem extract_int_first_field:
  assumes "plain_key key" "wf_json t"
  shows "ps_json_extract_int (show_json t) key =
    (case first_field key t of Some (JInt i) \<Rightarrow> Some i | _ \<Rightarrow> None)"
  using assms by (rule extract_int_doc)

theorem extract_int_first_field_witness:
  "ps_json_extract_int (show_json (JObj [(''a'', JStr ''b''), (''b'', JInt (- 7))])) ''b'' = Some (- 7)"
  using extract_int_first_field [of "''b''" "JObj [(''a'', JStr ''b''), (''b'', JInt (- 7))]"]
  by (simp add: plain_key_def plain_char_def is_cstr_def)

end
