(* ===== verification/Json_Array.thy ===== *)
theory Json_Array
  imports Json_Extract
begin

text \<open>
  Arrays of strings in a JSON text: the loop that \<open>baseline_set.c\<close> (\<open>ps_blset_from_json_key\<close>) and
  \<open>unit_envelope.c\<close> (\<open>arr_from_json\<close>) both contain, with the bound on the number of entries as a
  parameter; an entry has at most 255 characters in both. It reads back the arrays the writer
  prints, as long as no entry needs an escape.
\<close>

section \<open>The loop\<close>

definition ptr_before :: "string \<Rightarrow> string \<Rightarrow> bool" where
  \<comment> \<open>\<open>p < q\<close> for two pointers into one string\<close>
  "ptr_before p q \<longleftrightarrow> length q < length p"

function array_scan :: "nat \<Rightarrow> string \<Rightarrow> string list \<Rightarrow> string list" where
  \<comment> \<open>the loop of \<open>ps_blset_from_json_key\<close> and \<open>arr_from_json\<close> behind the opening bracket\<close>
  "array_scan maxn p acc =
     (if p = [] \<or> cur p = CHR '']'' \<or> length acc \<ge> maxn then acc
      else case strchr p (CHR 0x22) of
             None \<Rightarrow> acc
           | Some q \<Rightarrow>
               (if (case strchr p (CHR '']'') of None \<Rightarrow> False | Some close \<Rightarrow> ptr_before close q) then acc
                else case strchr (tl q) (CHR 0x22) of
                       None \<Rightarrow> acc
                     | Some e \<Rightarrow>
                         (let len = ptr_off e (tl q);
                              acc = (if len < 256 then acc @ [take len (tl q)] else acc)
                          in case strchr (tl e) (CHR '','') of
                               None \<Rightarrow> acc
                             | Some comma \<Rightarrow>
                                 (if (case strchr (tl e) (CHR '']'') of None \<Rightarrow> False
                                      | Some close \<Rightarrow> ptr_before close comma) then acc
                                  else array_scan maxn (tl comma) acc))))"
  by pat_completeness auto
termination
proof (relation "measure (\<lambda>(_, p, _). length p)")
  fix maxn :: nat and p :: string and acc q e len acc' comma
  assume p: "\<not> (p = [] \<or> cur p = CHR '']'' \<or> maxn \<le> length acc)" "strchr p (CHR 0x22) = Some q"
    "strchr (tl q) (CHR 0x22) = Some e" "strchr (tl e) (CHR '','') = Some comma"
  from p(1) have "p \<noteq> []" by simp
  moreover have "length q \<le> length p" "length e \<le> length (tl q)" "length comma \<le> length (tl e)" "comma \<noteq> []"
    using p(2-4) strchr_shorter by blast+
  ultimately show "((maxn, tl comma, acc'), maxn, p, acc) \<in> measure (\<lambda>(_, p, _). length p)"
    by (cases comma) auto
qed simp

declare array_scan.simps [simp del]

definition array_from_json :: "string \<Rightarrow> string \<Rightarrow> nat \<Rightarrow> string list" where
  "array_from_json json key maxn =
     (let pat = snprintf_s 64 (CHR 0x22 # key @ [CHR 0x22, CHR '':'', CHR ''[''])
      in case strstr json pat of
           None \<Rightarrow> []
         | Some p \<Rightarrow> array_scan maxn (drop (length pat) p) [])"

section \<open>Reading back a printed array\<close>

definition verbatim :: "string \<Rightarrow> bool" where
  \<comment> \<open>text the writer prints without an escape\<close>
  "verbatim s \<longleftrightarrow> list_all (\<lambda>c. 32 \<le> (of_char c :: nat) \<and> c \<noteq> CHR 0x22 \<and> c \<noteq> CHR 0x5C) s"

lemma verbatim_escape: "verbatim s \<Longrightarrow> escape s = s"
proof (induction s)
  case (Cons c s)
  then have c: "c \<noteq> CHR 0x22" "c \<noteq> CHR 0x5C" "\<not> (of_char c :: nat) < 0x20"
    unfolding verbatim_def by auto
  then have "c \<noteq> CHR 0x0A" "c \<noteq> CHR 0x09" "c \<noteq> CHR 0x0D" by (auto simp del: not_less)
  with c have "escape_char c = [c]" by (simp only: escape_char_def if_False)
  moreover from Cons have "escape s = s" by (simp add: verbatim_def)
  ultimately show ?case by simp
qed simp

lemma verbatim_no_quote: "verbatim s \<Longrightarrow> CHR 0x22 \<notin> set s"
  by (auto simp: verbatim_def list_all_iff)

lemma array_scan_end:
  assumes "verbatim p" "length p < 256" "length acc < maxn"
  shows "array_scan maxn (quoted p @ CHR '']'' # r) acc = acc @ [p]"
proof -
  have q: "quoted p = CHR 0x22 # p @ [CHR 0x22]" using assms(1) by (simp add: quoted_def verbatim_escape)
  have e: "strchr (p @ CHR 0x22 # CHR '']'' # r) (CHR 0x22) = Some (CHR 0x22 # CHR '']'' # r)"
    using verbatim_no_quote [OF assms(1)] by (rule strchr_first)
  have c: "\<not> ptr_before close (CHR 0x22 # p @ CHR 0x22 # CHR '']'' # r)"
    if "strchr (p @ CHR 0x22 # CHR '']'' # r) (CHR '']'') = Some close" for close
    using strchr_shorter [OF that] by (simp add: ptr_before_def)
  have f: "ptr_before (CHR '']'' # r) comma" if "strchr r (CHR '','') = Some comma" for comma
    using strchr_shorter [OF that] by (simp add: ptr_before_def)
  show ?thesis
    using assms(2,3) c f
    by (subst array_scan.simps) (auto simp: q e ptr_off_def Let_def split: option.splits)
qed

lemma array_scan_step:
  assumes "verbatim p" "length p < 256" "length acc < maxn"
  shows "array_scan maxn (quoted p @ CHR '','' # r) acc = array_scan maxn r (acc @ [p])"
proof -
  have q: "quoted p = CHR 0x22 # p @ [CHR 0x22]" using assms(1) by (simp add: quoted_def verbatim_escape)
  have e: "strchr (p @ CHR 0x22 # CHR '','' # r) (CHR 0x22) = Some (CHR 0x22 # CHR '','' # r)"
    using verbatim_no_quote [OF assms(1)] by (rule strchr_first)
  have c: "\<not> ptr_before close (CHR 0x22 # p @ CHR 0x22 # CHR '','' # r)"
    if "strchr (p @ CHR 0x22 # CHR '','' # r) (CHR '']'') = Some close" for close
    using strchr_shorter [OF that] by (simp add: ptr_before_def)
  have f: "\<not> ptr_before close (CHR '','' # r)" if "strchr r (CHR '']'') = Some close" for close
    using strchr_shorter [OF that] by (simp add: ptr_before_def)
  show ?thesis
    using assms(2,3) c f
    by (subst array_scan.simps) (auto simp: q e ptr_off_def Let_def split: option.splits)
qed

lemma array_scan_join:
  "list_all (\<lambda>p. verbatim p \<and> length p < 256) ps \<Longrightarrow> length acc + length ps \<le> maxn \<Longrightarrow>
   array_scan maxn (join (map quoted ps) @ CHR '']'' # r) acc = acc @ ps"
proof (induction ps arbitrary: acc rule: join.induct)
  case 1
  then show ?case by (simp add: array_scan.simps)
next
  case (2 p)
  then show ?case by (simp add: array_scan_end)
next
  case (3 p q ps)
  then show ?case by (simp add: array_scan_step)
qed

lemma array_from_json_doc:
  assumes key: "plain_key key" "length key < 60" and wf: "wf_json t"
    and arr: "first_field key t = Some (JArr (map JStr ps))"
    and ps: "list_all verbatim ps" "list_all (\<lambda>p. length p < 256) ps" "length ps \<le> maxn"
  shows "array_from_json (show_json t) key maxn = ps"
proof -
  from strstr_array [OF key(1) wf arr] obtain rest where
    p: "strstr (show_json t) (key_text key @ ''['') = Some (key_text key @ ''['' @ join (map quoted ps) @ CHR '']'' # rest)"
    by (auto simp: comp_def)
  have pat: "snprintf_s 64 (CHR 0x22 # key @ [CHR 0x22, CHR '':'', CHR ''['']) = key_text key @ ''[''"
    using key(2) by (simp add: key_text_def)
  have "list_all (\<lambda>p. verbatim p \<and> length p < 256) ps" using ps by (auto simp: list_all_iff)
  then have "array_scan maxn (join (map quoted ps) @ CHR '']'' # rest) [] = ps"
    using ps(3) by (simp add: array_scan_join)
  then show ?thesis by (simp add: array_from_json_def pat p)
qed

end
