(* ===== verification/Baseline.thy ===== *)
theory Baseline
  imports Paths Json_Array
begin

text \<open>
  Behaviour baselines: \<open>baseline_set.c\<close> keeps the set of paths (or destinations) an executable is
  known to use, prints it as JSON, reads it back and rolls crowded directories up;
  \<open>dest_match.c\<close> matches a remote address against a set of destination patterns;
  \<open>baseline_decide.c\<close> gives the verdict on one access.
\<close>

section \<open>The set\<close>

abbreviation PS_BL_MAX :: nat where "PS_BL_MAX \<equiv> 512"
abbreviation PS_BL_PATHLEN :: nat where "PS_BL_PATHLEN \<equiv> 256"

record ps_baseline_set =
  bl_exe :: string
  bl_path :: "string list"

definition ps_blset_init :: "string option \<Rightarrow> ps_baseline_set" where
  "ps_blset_init exe = \<lparr>bl_exe = snprintf_s 256 (case exe of Some e \<Rightarrow> e | None \<Rightarrow> []), bl_path = []\<rparr>"

definition ps_blset_add :: "ps_baseline_set \<Rightarrow> string \<Rightarrow> int \<times> ps_baseline_set" where
  "ps_blset_add s path =
     (if path = [] then (- 1, s)
      else if path \<in> set (bl_path s) then (0, s)
      else if length (bl_path s) \<ge> PS_BL_MAX then (- 1, s)
      else (1, s\<lparr>bl_path := bl_path s @ [snprintf_s PS_BL_PATHLEN path]\<rparr>))"

abbreviation blset_put :: "ps_baseline_set \<Rightarrow> string \<Rightarrow> ps_baseline_set" where
  "blset_put s path \<equiv> snd (ps_blset_add s path)"

definition ps_blset_covered :: "ps_baseline_set \<Rightarrow> string \<Rightarrow> bool" where
  "ps_blset_covered s path = list_ex (bl_under path) (bl_path s)"

definition ps_blset_to_json_key :: "ps_baseline_set \<Rightarrow> string \<Rightarrow> nat \<Rightarrow> string option" where
  "ps_blset_to_json_key s key cap =
     (let j = ps_json_object_begin (ps_json_init cap);
          j = ps_json_key_string j ''exe'' (bl_exe s);
          j = ps_json_array_begin j key;
          j = foldl ps_json_array_string j (bl_path s);
          j = ps_json_object_end (ps_json_array_end j)
      in ps_json_finish j)"

definition ps_blset_to_json :: "ps_baseline_set \<Rightarrow> nat \<Rightarrow> string option" where
  "ps_blset_to_json s cap = ps_blset_to_json_key s ''paths'' cap"

definition ps_blset_from_json_key :: "(string \<Rightarrow> string) \<Rightarrow> string option \<Rightarrow> string \<Rightarrow> ps_baseline_set option" where
  \<comment> \<open>\<open>stale\<close>: what the \<open>exe\<close> buffer reads as when the extraction stops inside the value\<close>
  "ps_blset_from_json_key stale json key =
     (case json of
        None \<Rightarrow> None
      | Some js \<Rightarrow> Some \<lparr>bl_exe = extract_into stale js ''exe'' 256, bl_path = array_from_json js key PS_BL_MAX\<rparr>)"

definition ps_blset_from_json :: "(string \<Rightarrow> string) \<Rightarrow> string option \<Rightarrow> ps_baseline_set option" where
  "ps_blset_from_json stale json = ps_blset_from_json_key stale json ''paths''"

section \<open>Rolling up directories\<close>

fun dir_count_inc :: "string \<Rightarrow> (string \<times> nat) list \<Rightarrow> (string \<times> nat) list" where
  \<comment> \<open>the tables \<open>dirs\<close> and \<open>dc\<close>, searched from the front and extended at the end\<close>
  "dir_count_inc d [] = [(snprintf_s PS_BL_PATHLEN d, 1)]"
| "dir_count_inc d ((e, n) # ds) = (if e = d then (e, Suc n) # ds else (e, n) # dir_count_inc d ds)"

definition dir_counts :: "string list \<Rightarrow> (string \<times> nat) list" where
  "dir_counts paths = foldl (\<lambda>ds p. dir_count_inc (parent_dir p PS_BL_PATHLEN) ds) [] paths"

definition dir_count :: "(string \<times> nat) list \<Rightarrow> string \<Rightarrow> nat" where
  \<comment> \<open>\<open>dc[k]\<close> of the first entry equal to \<open>d\<close>, of entry 0 when there is none\<close>
  "dir_count ds d = (case map_of ds d of Some n \<Rightarrow> n | None \<Rightarrow> snd (hd ds))"

definition ps_blset_rollup :: "ps_baseline_set \<Rightarrow> int \<Rightarrow> ps_baseline_set" where
  "ps_blset_rollup s threshold =
     (let threshold = (if threshold < 1 then 1 else threshold);
          ds = dir_counts (bl_path s);
          out = ps_blset_init (Some (bl_exe s));
          out = foldl (\<lambda>out (d, n). if int n \<ge> threshold then blset_put out d else out) out ds
      in foldl (\<lambda>out p. if int (dir_count ds (parent_dir p PS_BL_PATHLEN)) < threshold
                        then blset_put out p else out) out (bl_path s))"

section \<open>The set as a bounded set\<close>

abbreviation stored_path :: "string \<Rightarrow> bool" where
  "stored_path p \<equiv> p \<noteq> [] \<and> length p < PS_BL_PATHLEN"

interpretation blset: bounded_set blset_put bl_path PS_BL_MAX stored_path
  by unfold_locales (simp add: ps_blset_add_def)

definition blset_inv :: "ps_baseline_set \<Rightarrow> bool" where
  "blset_inv s \<longleftrightarrow> length (bl_path s) \<le> PS_BL_MAX \<and> length (bl_exe s) < 256 \<and> is_cstr (bl_exe s) \<and>
     list_all (\<lambda>p. stored_path p \<and> is_cstr p) (bl_path s)"

lemma blset_inv_init: "case exe of Some e \<Rightarrow> is_cstr e | None \<Rightarrow> True \<Longrightarrow> blset_inv (ps_blset_init exe)"
  using snprintf_s_length [of 256]
  by (auto simp: blset_inv_def ps_blset_init_def split: option.splits)

lemma blset_inv_put: "blset_inv s \<Longrightarrow> is_cstr path \<Longrightarrow> blset_inv (blset_put s path)"
  using snprintf_s_length [of PS_BL_PATHLEN path]
  by (auto simp: blset_inv_def ps_blset_add_def snprintf_s_def)

lemma covered_iff: "ps_blset_covered s path \<longleftrightarrow> (\<exists>q \<in> set (bl_path s). under path q)"
  by (simp add: ps_blset_covered_def list_ex_iff bl_under_eq_under)

lemma bl_exe_put [simp]: "bl_exe (blset_put s p) = bl_exe s"
  by (simp add: ps_blset_add_def)

lemma bl_exe_foldl [simp]: "bl_exe (foldl blset_put s ps) = bl_exe s"
  by (induction ps arbitrary: s) simp_all

section \<open>Counting directories\<close>

abbreviation pdir :: "string \<Rightarrow> string" where
  "pdir p \<equiv> parent_dir p PS_BL_PATHLEN"

lemma dir_count_inc_dirs:
  "length d < PS_BL_PATHLEN \<Longrightarrow> fst ` set (dir_count_inc d ds) = insert d (fst ` set ds)"
  by (induction d ds rule: dir_count_inc.induct) auto

lemma dir_count_inc_map:
  "length d < PS_BL_PATHLEN \<Longrightarrow>
     map_of (dir_count_inc d ds) = (map_of ds)(d \<mapsto> (case map_of ds d of Some n \<Rightarrow> Suc n | None \<Rightarrow> 1))"
  by (induction d ds rule: dir_count_inc.induct) (auto simp: fun_upd_twist split: option.splits)

lemma dir_count_inc_distinct:
  "length d < PS_BL_PATHLEN \<Longrightarrow> distinct (map fst ds) \<Longrightarrow> distinct (map fst (dir_count_inc d ds))"
proof (induction d ds rule: dir_count_inc.induct)
  case (2 d e n ds)
  have "e \<notin> fst ` set (dir_count_inc d ds)" if "e \<noteq> d"
    using that 2 by (subst dir_count_inc_dirs) simp_all
  with 2 show ?case by (cases "e = d") simp_all
qed simp

lemmas dir_count_inc_spec = dir_count_inc_map dir_count_inc_dirs dir_count_inc_distinct

definition crowd :: "string list \<Rightarrow> string \<Rightarrow> nat" where
  "crowd paths d = length (filter (\<lambda>p. pdir p = d) paths)"

lemma crowd_zero: "d \<notin> pdir ` set ps \<Longrightarrow> crowd ps d = 0"
  by (induction ps) (auto simp add: crowd_def)

lemma crowd_snoc: "crowd (ps @ [p]) d = (if pdir p = d then Suc (crowd ps d) else crowd ps d)"
  by (simp add: crowd_def)

lemma dir_counts_snoc: "dir_counts (ps @ [p]) = dir_count_inc (pdir p) (dir_counts ps)"
  by (simp add: dir_counts_def)

lemma dir_counts_spec:
  "map_of (dir_counts ps) d = (if d \<in> pdir ` set ps then Some (crowd ps d) else None)"
  "fst ` set (dir_counts ps) = pdir ` set ps"
  "distinct (map fst (dir_counts ps))"
proof (induction ps arbitrary: d rule: rev_induct)
  case Nil
  {
    case 1 then show ?case by (simp add: dir_counts_def)
  next
    case 2 then show ?case by (simp add: dir_counts_def)
  next
    case 3 then show ?case by (simp add: dir_counts_def)
  }
next
  case (snoc p ps)
  have len: "length (pdir p) < PS_BL_PATHLEN" by (rule parent_dir_length) simp
  {
    case 1
    then show ?case
      using snoc(1) crowd_zero [of "pdir p" ps]
      by (simp add: dir_counts_snoc dir_count_inc_spec(1) [OF len] crowd_snoc)
  next
    case 2
    then show ?case using snoc(2) by (simp add: dir_counts_snoc dir_count_inc_spec(2) [OF len])
  next
    case 3
    then show ?case using snoc(3) by (simp add: dir_counts_snoc dir_count_inc_spec(3) [OF len])
  }
qed

lemma dir_counts_mem: "(d, n) \<in> set (dir_counts ps) \<longleftrightarrow> d \<in> pdir ` set ps \<and> n = crowd ps d"
  using dir_counts_spec(1) [of ps d] map_of_eq_Some_iff [OF dir_counts_spec(3), of ps d n]
  by (auto split: if_splits)

lemma dir_count_counts: "p \<in> set ps \<Longrightarrow> dir_count (dir_counts ps) (pdir p) = crowd ps (pdir p)"
  by (simp add: dir_count_def dir_counts_spec(1))

section \<open>What a roll-up covers\<close>

lemma foldl_if_filter: "foldl (\<lambda>a x. if Q x then f a x else a) a xs = foldl f a (filter Q xs)"
  by (induction xs arbitrary: a) simp_all

lemma foldl_pair_filter:
  "foldl (\<lambda>a (x, n). if Q n then f a x else a) a xs = foldl f a (map fst (filter (\<lambda>(x, n). Q n) xs))"
  by (induction xs arbitrary: a) auto

definition crowded :: "string list \<Rightarrow> int \<Rightarrow> string \<Rightarrow> bool" where
  \<comment> \<open>at least \<open>t\<close> entries, and at least one, have the parent directory \<open>d\<close>\<close>
  "crowded ps t d \<longleftrightarrow> max 1 t \<le> int (crowd ps d)"

definition big_dirs :: "string list \<Rightarrow> int \<Rightarrow> string list" where
  "big_dirs ps t = map fst (filter (\<lambda>(d, n). max 1 t \<le> int n) (dir_counts ps))"

definition small_paths :: "string list \<Rightarrow> int \<Rightarrow> string list" where
  "small_paths ps t = filter (\<lambda>p. \<not> crowded ps t (pdir p)) ps"

lemma rollup_foldl:
  "ps_blset_rollup s t =
     foldl blset_put (ps_blset_init (Some (bl_exe s))) (big_dirs (bl_path s) t @ small_paths (bl_path s) t)"
proof -
  have m: "(if t < 1 then 1 else t) = max 1 t" by simp
  have "filter (\<lambda>p. int (dir_count (dir_counts (bl_path s)) (pdir p)) < max 1 t) (bl_path s) =
      small_paths (bl_path s) t"
    unfolding small_paths_def crowded_def not_le by (rule filter_cong) (simp_all only: dir_count_counts)
  then show ?thesis
    unfolding ps_blset_rollup_def Let_def m foldl_if_filter foldl_pair_filter foldl_append big_dirs_def
    by simp
qed

lemma set_big_dirs: "set (big_dirs ps t) = pdir ` {p \<in> set ps. crowded ps t (pdir p)}"
proof -
  have "set (big_dirs ps t) = {d. \<exists>n. (d, n) \<in> set (dir_counts ps) \<and> max 1 t \<le> int n}"
    unfolding big_dirs_def by force
  then show ?thesis by (auto simp only: dir_counts_mem crowded_def)
qed

lemma set_small_paths: "set (small_paths ps t) = {p \<in> set ps. \<not> crowded ps t (pdir p)}"
  by (auto simp: small_paths_def)

lemma length_big_dirs: "length (big_dirs ps t) + length (small_paths ps t) \<le> length ps"
proof -
  have "distinct (big_dirs ps t)"
    using dir_counts_spec(3) [of ps] by (auto simp: big_dirs_def distinct_map intro: inj_on_subset)
  then have "length (big_dirs ps t) = card (set (big_dirs ps t))" by (simp add: distinct_card)
  also have "\<dots> \<le> card {p \<in> set ps. crowded ps t (pdir p)}"
    unfolding set_big_dirs by (rule card_image_le) simp
  also have "\<dots> = card (set (filter (\<lambda>p. crowded ps t (pdir p)) ps))" by simp
  also have "\<dots> \<le> length (filter (\<lambda>p. crowded ps t (pdir p)) ps)" by (rule card_length)
  finally show ?thesis
    using sum_length_filter_compl [of "\<lambda>p. crowded ps t (pdir p)" ps] by (simp add: small_paths_def)
qed

lemma stored_pdir: "p \<noteq> [] \<Longrightarrow> stored_path (pdir p)"
  by (simp add: parent_dir_nonempty parent_dir_length)

lemma rollup_stored:
  "blset_inv s \<Longrightarrow> list_all stored_path (big_dirs (bl_path s) t @ small_paths (bl_path s) t)"
  by (auto simp: list_all_iff set_big_dirs set_small_paths blset_inv_def stored_pdir)

lemma bl_path_init [simp]: "bl_path (ps_blset_init e) = []"
  by (simp add: ps_blset_init_def)

lemma rollup_paths:
  assumes "blset_inv s"
  shows "set (bl_path (ps_blset_rollup s t)) =
    set (big_dirs (bl_path s) t) \<union> set (small_paths (bl_path s) t)"
proof -
  have "length (bl_path (ps_blset_init (Some (bl_exe s)))) +
      length (big_dirs (bl_path s) t @ small_paths (bl_path s) t) \<le> PS_BL_MAX"
    using length_big_dirs [of "bl_path s" t] assms by (simp add: blset_inv_def)
  from blset.set_foldl [OF rollup_stored [OF assms] this] show ?thesis by (simp add: rollup_foldl)
qed

lemma rollup_length: "blset_inv s \<Longrightarrow> length (bl_path (ps_blset_rollup s t)) \<le> length (bl_path s)"
  using blset.length_foldl_le [OF rollup_stored, of s "ps_blset_init (Some (bl_exe s))" t]
    length_big_dirs [of "bl_path s" t]
  by (simp add: rollup_foldl)

lemma rollup_exe: "blset_inv s \<Longrightarrow> bl_exe (ps_blset_rollup s t) = bl_exe s"
  by (simp add: rollup_foldl ps_blset_init_def blset_inv_def)

lemma rollup_inv: "blset_inv s \<Longrightarrow> blset_inv (ps_blset_rollup s t)"
  using rollup_length [of s t] rollup_exe [of s t] rollup_paths [of s t]
  by (auto simp: blset_inv_def list_all_iff set_big_dirs set_small_paths stored_pdir parent_dir_cstr)

lemma rollup_covers:
  assumes "blset_inv s"
  shows "ps_blset_covered (ps_blset_rollup s t) path \<longleftrightarrow>
    (\<exists>q \<in> set (bl_path s). under path (if crowded (bl_path s) t (pdir q) then pdir q else q))"
  unfolding covered_iff rollup_paths [OF assms] set_big_dirs set_small_paths by auto

text \<open>C26. After a roll-up with threshold \<open>t\<close> a path is covered exactly when it lies below the parent
  directory of an old entry, for a directory with at least \<open>t\<close> (and one) old entries, or below an old
  entry of another directory; in particular nothing is lost to the bound of the array.\<close>

theorem rollup_covered_iff:
  assumes "blset_inv s"
  shows "ps_blset_covered (ps_blset_rollup s t) path \<longleftrightarrow>
    (\<exists>q \<in> set (bl_path s). under path (if crowded (bl_path s) t (pdir q) then pdir q else q))"
  using assms by (rule rollup_covers)

theorem rollup_covered_iff_witness:
  "ps_blset_covered (ps_blset_rollup \<lparr>bl_exe = ''/b'', bl_path = [''/a/x'', ''/a/y'']\<rparr> 2) ''/a/z''"
  using rollup_covered_iff [of "\<lparr>bl_exe = ''/b'', bl_path = [''/a/x'', ''/a/y'']\<rparr>" 2 "''/a/z''"]
  by (simp add: blset_inv_def is_cstr_def crowded_def crowd_def parent_dir_def ptr_off_def Let_def
      under_def strncmp_eq_def char_at_def)

text \<open>A roll-up of absolute paths keeps every path covered, keeps the executable and the invariant of
  the set, and never holds more entries than before.\<close>

theorem rollup_sound:
  assumes inv: "blset_inv s" and abs: "list_all (\<lambda>q. cur q = CHR ''/'') (bl_path s)"
    and path: "is_cstr path" "ps_blset_covered s path"
  shows "ps_blset_covered (ps_blset_rollup s t) path \<and> bl_exe (ps_blset_rollup s t) = bl_exe s \<and>
    blset_inv (ps_blset_rollup s t) \<and> length (bl_path (ps_blset_rollup s t)) \<le> length (bl_path s)"
proof -
  obtain q where q: "q \<in> set (bl_path s)" "under path q" using path(2) by (auto simp: covered_iff)
  with inv abs have "is_cstr q" "length q < PS_BL_PATHLEN" "cur q = CHR ''/''"
    by (auto simp: blset_inv_def list_all_iff)
  then have "under q (pdir q)" by (intro parent_dir_covers)
  with q path \<open>is_cstr q\<close> have "under path (pdir q)" by (blast intro: under_trans)
  with q have "ps_blset_covered (ps_blset_rollup s t) path"
    unfolding rollup_covers [OF inv] by auto
  with inv rollup_exe rollup_inv rollup_length show ?thesis by blast
qed

theorem rollup_sound_witness:
  "ps_blset_covered (ps_blset_rollup \<lparr>bl_exe = ''/b'', bl_path = [''/a/x'', ''/a/y'']\<rparr> 2) ''/a/x''"
  using rollup_sound [of "\<lparr>bl_exe = ''/b'', bl_path = [''/a/x'', ''/a/y'']\<rparr>" "''/a/x''" 2]
  by (simp add: blset_inv_def is_cstr_def covered_iff under_def strncmp_eq_def char_at_def)

section \<open>Printing and reading back\<close>

definition blset_doc :: "ps_baseline_set \<Rightarrow> string \<Rightarrow> json" where
  "blset_doc s key = JObj [(''exe'', JStr (bl_exe s)), (key, JArr (map JStr (bl_path s)))]"

lemma blset_to_json_doc:
  "ps_blset_to_json_key s key cap =
     (if length (show_json (blset_doc s key)) < cap then Some (show_json (blset_doc s key)) else None)"
proof -
  have "foldl ps_json_array_string j ps = foldl (\<lambda>j v. wr_elem v j) j (map JStr ps)" for j ps
    by (induction ps arbitrary: j) simp_all
  then have "ps_blset_to_json_key s key cap = ps_json_finish (wr_elem (blset_doc s key) (ps_json_init cap))"
    by (simp add: ps_blset_to_json_key_def blset_doc_def Let_def)
  moreover obtain kvs where "blset_doc s key = JObj kvs" "writable (JObj kvs)" by (simp add: blset_doc_def)
  ultimately show ?thesis by (simp only: finish_document)
qed

lemma blset_reads_back:
  assumes inv: "blset_inv s" and paths: "list_all verbatim (bl_path s)"
    and key: "plain_key key" "key \<noteq> ''exe''" "length key < 60"
    and js: "ps_blset_to_json_key s key cap = Some js"
  shows "ps_blset_from_json_key stale (Some js) key = Some s"
proof -
  let ?t = "blset_doc s key"
  have js: "js = show_json ?t" using js by (simp add: blset_to_json_doc split: if_splits)
  have wf: "wf_json ?t" and exe_key: "plain_key ''exe''"
    using inv key by (auto simp: blset_doc_def blset_inv_def list_all_iff plain_key_def plain_char_def)
  have "ps_json_extract_string js ''exe'' 256 = Some (bl_exe s)"
    using extract_string_doc [OF exe_key wf, of 256] inv unfolding js
    by (simp add: blset_doc_def blset_inv_def)
  then have exe: "extract_into stale js ''exe'' 256 = bl_exe s"
    using inv by (simp add: extract_into_def blset_inv_def)
  have "first_field key ?t = Some (JArr (map JStr (bl_path s)))"
    using key by (simp add: blset_doc_def)
  then have "array_from_json js key PS_BL_MAX = bl_path s"
    unfolding js using inv paths key wf
    by (intro array_from_json_doc) (auto simp: blset_inv_def list_all_iff)
  with exe show ?thesis by (simp add: ps_blset_from_json_key_def)
qed



text \<open>An entry with a quote does not survive: it is cut at the backslash the writer puts before it.\<close>

lemma blset_quote_cut:
  "ps_blset_to_json \<lparr>bl_exe = ''b'', bl_path = [''/a'' @ [CHR 0x22] @ ''b'']\<rparr> 100 = Some js \<Longrightarrow>
   ps_blset_from_json stale (Some js) = Some \<lparr>bl_exe = ''b'', bl_path = [''/a'' @ [CHR 0x5C]]\<rparr>"
  by (auto simp: ps_blset_to_json_def blset_to_json_doc blset_doc_def quoted_def escape_char_def
      ps_blset_from_json_def ps_blset_from_json_key_def extract_into_def ps_json_extract_string_def
      after_key_def needle_def skip_blank_def strstr.simps array_from_json_def array_scan.simps ptr_before_def ptr_off_def cstr_of_def)

end
