(* ===== verification/Dest_Match.thy ===== *)
theory Dest_Match
  imports Baseline
begin

text \<open>
  Destination patterns: \<open>dest_match.c\<close> matches a remote address \<open>ip:port\<close> against an entry of a
  baseline of destinations and generalises an address to an entry; \<open>baseline_decide.c\<close> gives the
  verdict on a path or an address.

  The documented forms of an entry are the datatype \<open>dest_pat\<close>; the matcher is compared with the
  meaning of a pattern, \<open>pat_matches\<close>.
\<close>

unbundle bit_operations_syntax

section \<open>Addresses\<close>

definition scan_u :: "string \<Rightarrow> (nat \<times> string) option" where
  \<comment> \<open>the conversion \<open>%u\<close> of \<open>sscanf\<close>: blanks, a sign, digits; \<open>strtoul\<close> saturates at 64 bits, the result is
      stored in 32\<close>
  "scan_u s =
     (let p = dropWhile is_space s;
          neg = (cur p = CHR ''-'');
          q = (if cur p = CHR ''-'' \<or> cur p = CHR ''+'' then tl p else p)
      in if \<not> is_digit (cur q) then None
         else let v = digits_val 0 q;
                  w = (if v \<ge> 2 ^ 64 then 2 ^ 64 - 1 else if neg then (2 ^ 64 - v) mod 2 ^ 64 else v)
              in Some (w mod 2 ^ 32, dropWhile is_digit q))"

definition scan_dot :: "string \<Rightarrow> string option" where
  "scan_dot s = (if cur s = CHR ''.'' then Some (tl s) else None)"

definition v4_to_u32 :: "string \<Rightarrow> 32 word option" where
  "v4_to_u32 ip =
     (case scan_u ip of None \<Rightarrow> None | Some (a, s) \<Rightarrow>
      case scan_dot s of None \<Rightarrow> None | Some s \<Rightarrow>
      case scan_u s of None \<Rightarrow> None | Some (b, s) \<Rightarrow>
      case scan_dot s of None \<Rightarrow> None | Some s \<Rightarrow>
      case scan_u s of None \<Rightarrow> None | Some (c, s) \<Rightarrow>
      case scan_dot s of None \<Rightarrow> None | Some s \<Rightarrow>
      case scan_u s of None \<Rightarrow> None | Some (d, s) \<Rightarrow>
        if a > 255 \<or> b > 255 \<or> c > 255 \<or> d > 255 then None
        else Some (push_bit 24 (word_of_nat a) OR push_bit 16 (word_of_nat b) OR
                   push_bit 8 (word_of_nat c) OR word_of_nat d))"

definition split_raddr :: "string \<Rightarrow> nat \<Rightarrow> nat \<Rightarrow> string \<times> string" where
  "split_raddr raddr ipc pc =
     (case strrchr raddr (CHR '':'') of
        Some colon \<Rightarrow>
          (let n = ptr_off colon raddr; n = (if n \<ge> ipc then ipc - 1 else n)
           in (take n raddr, snprintf_s pc (tl colon)))
      | None \<Rightarrow> (snprintf_s ipc raddr, []))"

definition v4_mask :: "int \<Rightarrow> 32 word" where
  "v4_mask bits = (if bits = 32 then 0xFFFFFFFF else NOT (push_bit (nat (32 - bits)) 1 - 1))"

section \<open>Matching\<close>

definition dest_split_port :: "string \<Rightarrow> string \<times> string option" where
  \<comment> \<open>the entry cut at its last colon, unless that colon is before the slash; the port behind it\<close>
  "dest_split_port e =
     (case strrchr e (CHR '':'') of
        None \<Rightarrow> (e, None)
      | Some ecolon \<Rightarrow>
          (if (case strchr e (CHR ''/'') of None \<Rightarrow> True | Some slash \<Rightarrow> ptr_before slash ecolon)
           then (take (ptr_off ecolon e) e, Some (tl ecolon)) else (e, None)))"

definition ps_dest_match :: "string \<Rightarrow> string \<Rightarrow> bool" where
  "ps_dest_match entry raddr =
     (let (rip, rport) = split_raddr raddr 64 16;
          (e, eport) = dest_split_port (snprintf_s 128 entry)
      in if (case eport of Some ep \<Rightarrow> ep \<noteq> rport | None \<Rightarrow> False) then False
         else if e = [] then True
         else case strchr e (CHR ''/'') of
                Some slash \<Rightarrow>
                  (let bits = atoi (tl slash)
                   in case v4_to_u32 (take (ptr_off slash e) e) of None \<Rightarrow> False | Some net \<Rightarrow>
                      case v4_to_u32 rip of None \<Rightarrow> False | Some rip32 \<Rightarrow>
                        if bits \<le> 0 then True
                        else let mask = v4_mask (if bits > 32 then 32 else bits)
                             in net AND mask = rip32 AND mask)
              | None \<Rightarrow> e = rip)"

definition ps_destset_covered :: "ps_baseline_set \<Rightarrow> string \<Rightarrow> bool" where
  "ps_destset_covered s raddr = list_ex (\<lambda>e. ps_dest_match e raddr) (bl_path s)"

definition ps_dest_generalize :: "string \<Rightarrow> string \<Rightarrow> nat \<Rightarrow> string option" where
  "ps_dest_generalize raddr form cap =
     (let (ip, port) = split_raddr raddr 64 16
      in if form = ''exact'' then Some (snprintf_s cap raddr)
         else if form = ''host'' then Some (snprintf_s cap ip)
         else if form = ''port'' then Some (snprintf_s cap (CHR '':'' # port))
         else if strncmp_eq form ''cidr/'' 5
         then let bits = atoi (drop 5 form);
                  bits = (if bits < 0 then 0 else bits);
                  bits = (if bits > 32 then 32 else bits)
              in case v4_to_u32 ip of
                   None \<Rightarrow> None
                 | Some u \<Rightarrow>
                     (let net = u AND (if bits = 0 then 0 else v4_mask bits)
                      in Some (snprintf_s cap
                           (show_nat (unat (drop_bit 24 net AND 255)) @ ''.'' @
                            show_nat (unat (drop_bit 16 net AND 255)) @ ''.'' @
                            show_nat (unat (drop_bit 8 net AND 255)) @ ''.'' @
                            show_nat (unat (net AND 255)) @ ''/'' @ show_int bits)))
         else None)"

section \<open>The verdict\<close>

datatype ps_bl_verdict = BL_COVERED | BL_NOVEL | BL_ANOMALY

definition ps_baseline_decide :: "ps_baseline_set \<Rightarrow> ps_baseline_set \<Rightarrow> string \<Rightarrow> ps_bl_verdict" where
  "ps_baseline_decide baseline denials path =
     (if ps_blset_covered baseline path then BL_COVERED
      else if ps_blset_covered denials path then BL_ANOMALY
      else BL_NOVEL)"

definition ps_baseline_decide_dest :: "ps_baseline_set \<Rightarrow> ps_baseline_set \<Rightarrow> string \<Rightarrow> ps_bl_verdict" where
  "ps_baseline_decide_dest baseline denials raddr =
     (if ps_destset_covered baseline raddr then BL_COVERED
      else if ps_destset_covered denials raddr then BL_ANOMALY
      else BL_NOVEL)"

section \<open>Printed addresses\<close>

definition show_v4 :: "32 word \<Rightarrow> string" where
  "show_v4 w =
     show_nat (unat (drop_bit 24 w AND 255)) @ ''.'' @ show_nat (unat (drop_bit 16 w AND 255)) @ ''.'' @
     show_nat (unat (drop_bit 8 w AND 255)) @ ''.'' @ show_nat (unat (w AND 255))"

lemma length_show_nat: "0 < k \<Longrightarrow> n < 10 ^ k \<Longrightarrow> length (show_nat n) \<le> k"
proof (induction k arbitrary: n)
  case (Suc k)
  show ?case
  proof (cases "n < 10")
    case True
    then show ?thesis by (subst show_nat.simps) simp
  next
    case False
    with Suc.prems have "k \<noteq> 0" "n div 10 < 10 ^ k" by (auto intro: gr0I simp: less_mult_imp_div_less mult.commute)
    with Suc.IH have "length (show_nat (n div 10)) \<le> k" by simp
    with False show ?thesis by (subst show_nat.simps) simp
  qed
qed simp

lemma dropWhile_digits:
  "list_all is_digit ds \<Longrightarrow> r = [] \<or> \<not> is_digit (hd r) \<Longrightarrow> dropWhile is_digit (ds @ r) = r"
  by (induction ds) (auto, cases r, auto)

lemma dropWhile_hd: "\<not> P (hd s) \<Longrightarrow> s \<noteq> [] \<Longrightarrow> dropWhile P s = s"
  by (cases s) simp_all

lemma scan_u_show_nat:
  assumes "n < 2 ^ 32" "r = [] \<or> \<not> is_digit (hd r)"
  shows "scan_u (show_nat n @ r) = Some (n, r)"
proof -
  have d: "is_digit (hd (show_nat n @ r))" "cur (show_nat n @ r) = hd (show_nat n @ r)"
    using show_nat_cur [of n r] by (cases "show_nat n"; simp)+
  then have h: "hd (show_nat n @ r) \<noteq> CHR ''-''" "hd (show_nat n @ r) \<noteq> CHR ''+''" "\<not> is_space (hd (show_nat n @ r))"
    using is_digit_char by blast+
  have w: "dropWhile is_space (show_nat n @ r) = show_nat n @ r"
    using h(3) by (intro dropWhile_hd) simp_all
  have "dropWhile is_digit (show_nat n @ r) = r"
    using show_nat_digits [of n] assms(2) by (intro dropWhile_digits) (simp_all add: list_all_iff)
  moreover have "digits_val 0 (show_nat n @ r) = n" using assms(2) by (rule digits_val_show_nat_stop)
  ultimately show ?thesis
    using assms(1) d h by (simp add: scan_u_def Let_def w)
qed

lemma byte_and: "unat (w AND 255 :: 32 word) < 256"
proof -
  have "w AND 255 = take_bit 8 w" by (simp add: take_bit_eq_mask mask_eq_exp_minus_1)
  then show ?thesis by (simp add: unsigned_take_bit_eq take_bit_nat_less_exp [of 8, simplified])
qed

lemma bytes_join:
  fixes w :: "32 word"
  shows "push_bit 24 (word_of_nat (unat (drop_bit 24 w AND 255))) OR
     push_bit 16 (word_of_nat (unat (drop_bit 16 w AND 255))) OR
     push_bit 8 (word_of_nat (unat (drop_bit 8 w AND 255))) OR word_of_nat (unat (w AND 255)) = w"
proof -
  have m: "v AND 255 = take_bit 8 v" for v :: "32 word"
    by (simp add: take_bit_eq_mask mask_eq_exp_minus_1)
  show ?thesis
  proof (rule bit_word_eqI)
    fix n
    assume "n < LENGTH(32)"
    then have "n < 32" by simp
    then consider "24 \<le> n" | "16 \<le> n" "n < 24" | "8 \<le> n" "n < 16" | "n < 8" by linarith
    then show "bit (push_bit 24 (word_of_nat (unat (drop_bit 24 w AND 255))) OR
     push_bit 16 (word_of_nat (unat (drop_bit 16 w AND 255))) OR
     push_bit 8 (word_of_nat (unat (drop_bit 8 w AND 255))) OR word_of_nat (unat (w AND 255)) :: 32 word) n = bit w n"
      using \<open>n < 32\<close> by cases (auto simp add: m bit_simps)
  qed
qed

lemma v4_to_u32_show:
  assumes "r = [] \<or> \<not> is_digit (hd r)"
  shows "v4_to_u32 (show_v4 w @ r) = Some w"
proof -
  have lt: "unat (v AND 255) < 2 ^ 32" "unat (v AND 255) \<le> 255" for v :: "32 word"
    using byte_and [of v] by simp_all
  have dot: "\<not> is_digit (CHR ''.'')" by (simp add: is_digit_def)
  have s: "scan_u (show_nat (unat (v AND 255)) @ CHR ''.'' # t) = Some (unat (v AND 255), CHR ''.'' # t)"
    for v :: "32 word" and t
    using lt(1) dot by (intro scan_u_show_nat) simp_all
  show ?thesis
    using lt(2) scan_u_show_nat [OF lt(1) assms] bytes_join [of w]
    by (simp add: v4_to_u32_def show_v4_def s scan_dot_def not_less)
qed

lemma length_show_v4: "length (show_v4 w) \<le> 15" "show_v4 w \<noteq> []"
proof -
  have "length (show_nat (unat (v AND 255))) \<le> 3" for v :: "32 word"
    using byte_and [of v] by (intro length_show_nat) simp_all
  from this [of "drop_bit 24 w"] this [of "drop_bit 16 w"] this [of "drop_bit 8 w"] this [of w]
  show "length (show_v4 w) \<le> 15" by (simp add: show_v4_def)
qed (simp add: show_v4_def)

lemma show_v4_chars: "CHR '':'' \<notin> set (show_v4 w)" "CHR ''/'' \<notin> set (show_v4 w)"
  by (simp_all add: show_v4_def show_nat_only_digits is_digit_def)

section \<open>The documented entry forms\<close>

datatype dest_pat =
    PExact "32 word" nat
  | PHost "32 word"
  | PPort nat
  | PCidr "32 word" nat
  | PCidrPort "32 word" nat nat

definition show_addr :: "32 word \<Rightarrow> nat \<Rightarrow> string" where
  "show_addr ip port = show_v4 ip @ '':'' @ show_nat port"

fun show_pat :: "dest_pat \<Rightarrow> string" where
  "show_pat (PExact ip port) = show_addr ip port"
| "show_pat (PHost ip) = show_v4 ip"
| "show_pat (PPort port) = '':'' @ show_nat port"
| "show_pat (PCidr net n) = show_v4 net @ ''/'' @ show_nat n"
| "show_pat (PCidrPort net n port) = show_v4 net @ ''/'' @ show_nat n @ '':'' @ show_nat port"

definition same_net :: "nat \<Rightarrow> 32 word \<Rightarrow> 32 word \<Rightarrow> bool" where
  \<comment> \<open>the first \<open>n\<close> of the 32 address bits agree\<close>
  "same_net n a b \<longleftrightarrow> (\<forall>i \<in> {32 - n..<32}. bit a i = bit b i)"

fun pat_matches :: "dest_pat \<Rightarrow> 32 word \<Rightarrow> nat \<Rightarrow> bool" where
  "pat_matches (PExact ip' port') ip port = (ip' = ip \<and> port' = port)"
| "pat_matches (PHost ip') ip port = (ip' = ip)"
| "pat_matches (PPort port') ip port = (port' = port)"
| "pat_matches (PCidr net n) ip port = same_net n net ip"
| "pat_matches (PCidrPort net n port') ip port = (same_net n net ip \<and> port' = port)"

fun pat_ok :: "dest_pat \<Rightarrow> bool" where
  "pat_ok (PExact ip port) = (port < 65536)"
| "pat_ok (PHost ip) = True"
| "pat_ok (PPort port) = (port < 65536)"
| "pat_ok (PCidr net n) = (n \<le> 32)"
| "pat_ok (PCidrPort net n port) = (n \<le> 32 \<and> port < 65536)"

lemma bit_v4_mask: "0 < n \<Longrightarrow> n \<le> 32 \<Longrightarrow> bit (v4_mask (int n)) i \<longleftrightarrow> i < 32 \<and> 32 - n \<le> i"
proof -
  assume n: "0 < n" "n \<le> 32"
  show ?thesis
  proof (cases "n = 32")
    case True
    have "v4_mask 32 = mask 32" by (simp add: v4_mask_def mask_eq_exp_minus_1)
    with True show ?thesis by (simp add: bit_mask_iff)
  next
    case False
    have "nat (32 - int n) = 32 - n" using n by linarith
    moreover have "push_bit m 1 - 1 = (mask m :: 32 word)" for m
      by (simp add: mask_eq_exp_minus_1 push_bit_eq_mult)
    ultimately show ?thesis using False by (auto simp: v4_mask_def bit_simps)
  qed
qed

lemma and_mask_eq_iff:
  fixes a b m :: "32 word"
  assumes m: "\<And>i. bit m i \<longleftrightarrow> i < 32 \<and> k \<le> i"
  shows "a AND m = b AND m \<longleftrightarrow> (\<forall>i \<in> {k..<32}. bit a i = bit b i)"
proof
  assume eq: "a AND m = b AND m"
  show "\<forall>i \<in> {k..<32}. bit a i = bit b i"
  proof
    fix i
    assume i: "i \<in> {k..<32}"
    have "bit (a AND m) i = bit (b AND m) i" by (simp only: eq)
    with i m [of i] show "bit a i = bit b i" by (simp only: bit_and_iff) simp
  qed
next
  assume eq: "\<forall>i \<in> {k..<32}. bit a i = bit b i"
  show "a AND m = b AND m"
  proof (rule bit_word_eqI)
    fix i
    show "bit (a AND m) i = bit (b AND m) i" using eq m [of i] by (auto simp only: bit_and_iff atLeastLessThan_iff)
  qed
qed

lemma mask_same_net:
  assumes "0 < n" "n \<le> 32"
  shows "a AND v4_mask (int n) = b AND v4_mask (int n) \<longleftrightarrow> same_net n a b"
  unfolding same_net_def by (rule and_mask_eq_iff) (rule bit_v4_mask [OF assms])

lemma atoi_show_nat: "n < 2 ^ 31 \<Longrightarrow> atoi (show_nat n) = int n"
proof -
  assume n: "n < 2 ^ 31"
  have d: "is_digit (cur (show_nat n))" using show_nat_cur [of n "[]"] by simp
  then have h: "\<not> is_space (hd (show_nat n))" "cur (show_nat n) \<noteq> CHR ''-''" "cur (show_nat n) \<noteq> CHR ''+''"
    using is_digit_char [OF d] by (cases "show_nat n"; simp)+
  have "dropWhile is_space (show_nat n) = show_nat n" using h(1) by (intro dropWhile_hd) simp_all
  then have "strtol10 (show_nat n) = int n"
    using h n by (simp add: strtol10_def Let_def digits_val_show_nat)
  with n show ?thesis by (simp add: atoi_def cast_int_small)
qed

lemma atoi_show_bits: "n \<le> 32 \<Longrightarrow> atoi (show_nat n) = int n"
  by (rule atoi_show_nat) simp

lemma length_show_port: "port < 65536 \<Longrightarrow> length (show_nat port) \<le> 5"
  by (rule length_show_nat) simp_all

lemma length_show_bits: "n \<le> 32 \<Longrightarrow> length (show_nat n) \<le> 2"
  by (rule length_show_nat) simp_all

lemmas show_nat_chars = show_nat_only_digits [of "CHR '':''"] show_nat_only_digits [of "CHR ''/''"]

lemma no_digit [simp]: "\<not> is_digit (CHR '':'')" "\<not> is_digit (CHR ''/'')"
  by (simp_all add: is_digit_def)

lemma split_show_addr:
  "port < 65536 \<Longrightarrow> split_raddr (show_addr ip port) 64 16 = (show_v4 ip, show_nat port)"
  using length_show_v4(1) [of ip] length_show_port [of port]
    strrchr_last [of "CHR '':''" "show_nat port" "show_v4 ip"]
  by (simp add: split_raddr_def show_addr_def show_nat_chars ptr_off_def Let_def)

lemma strrchr_absent: "c \<notin> set s \<Longrightarrow> strrchr s c = None"
  by simp

lemma strchr_absent: "c \<notin> set s \<Longrightarrow> strchr s c = None"
  by simp

lemma dest_split_none: "CHR '':'' \<notin> set e \<Longrightarrow> dest_split_port e = (e, None)"
  by (simp add: dest_split_port_def strrchr_absent del: strrchr_None_iff)

lemma dest_split_some:
  assumes "CHR '':'' \<notin> set p" "CHR ''/'' \<notin> set p"
  shows "dest_split_port (e @ CHR '':'' # p) = (e, Some p)"
proof -
  have c: "strrchr (e @ CHR '':'' # p) (CHR '':'') = Some (CHR '':'' # p)" using assms(1) by (rule strrchr_last)
  have s: "case strchr (e @ CHR '':'' # p) (CHR ''/'') of None \<Rightarrow> True | Some slash \<Rightarrow> ptr_before slash (CHR '':'' # p)"
  proof (cases "CHR ''/'' \<in> set e")
    case True
    then obtain a b where e: "e = a @ CHR ''/'' # b" "CHR ''/'' \<notin> set a" by (meson split_list_first)
    then show ?thesis by (simp add: ptr_before_def)
  next
    case False
    then have "strchr (e @ CHR '':'' # p) (CHR ''/'') = None" using assms(2) by simp
    then show ?thesis by (simp del: strchr_None_iff)
  qed
  show ?thesis unfolding dest_split_port_def c using s by (simp add: ptr_off_def)
qed

lemma show_v4_eq [simp]: "show_v4 a = show_v4 b \<longleftrightarrow> a = b"
  using v4_to_u32_show [of "[]"] by (metis append_Nil2 option.inject)

lemma show_nat_eq [simp]: "show_nat m = show_nat n \<longleftrightarrow> m = n"
  using digits_val_show_nat by metis

lemma match_host:
  "port < 65536 \<Longrightarrow> dest_split_port (snprintf_s 128 entry) = (show_v4 ip', ep) \<Longrightarrow>
   ps_dest_match entry (show_addr ip port) \<longleftrightarrow> (case ep of None \<Rightarrow> True | Some e \<Rightarrow> e = show_nat port) \<and> ip' = ip"
  using length_show_v4(2) [of ip'] strchr_absent [OF show_v4_chars(2) [of ip']]
  by (auto simp: ps_dest_match_def split_show_addr Let_def simp del: strchr_None_iff split: option.splits)

lemma match_cidr:
  assumes "port < 65536" "n \<le> 32"
    and "dest_split_port (snprintf_s 128 entry) = (show_v4 net @ CHR ''/'' # show_nat n, ep)"
  shows "ps_dest_match entry (show_addr ip port) \<longleftrightarrow>
    (case ep of None \<Rightarrow> True | Some e \<Rightarrow> e = show_nat port) \<and> same_net n net ip"
proof -
  have sl: "strchr (show_v4 net @ CHR ''/'' # show_nat n) (CHR ''/'') = Some (CHR ''/'' # show_nat n)"
    using show_v4_chars(2) by (rule strchr_first)
  have v: "v4_to_u32 (show_v4 a) = Some a" for a using v4_to_u32_show [of "[]" a] by simp
  have core: "(if int n \<le> 0 then True
      else let mask = v4_mask (if int n > 32 then 32 else int n) in net AND mask = ip AND mask) = same_net n net ip"
  proof (cases "n = 0")
    case True
    then show ?thesis by (simp add: same_net_def)
  next
    case False
    with assms(2) mask_same_net [of n net ip] show ?thesis by (simp add: Let_def)
  qed
  show ?thesis
    unfolding ps_dest_match_def split_show_addr [OF assms(1)] assms(3)
    using core by (simp add: sl v ptr_off_def atoi_show_bits [OF assms(2)] Let_def split: option.splits)
qed

lemma match_pat:
  assumes "pat_ok pat" "port < 65536"
  shows "ps_dest_match (show_pat pat) (show_addr ip port) \<longleftrightarrow> pat_matches pat ip port"
proof -
  have port: "CHR '':'' \<notin> set (show_nat p)" "CHR ''/'' \<notin> set (show_nat p)" for p
    by (simp_all add: show_nat_chars)
  show ?thesis
  proof (cases pat)
    case (PExact ip' port')
    have "length (show_addr ip' port') < 128"
      using assms(1) PExact length_show_v4(1) [of ip'] length_show_port [of port'] by (simp add: show_addr_def)
    then have "dest_split_port (snprintf_s 128 (show_addr ip' port')) = (show_v4 ip', Some (show_nat port'))"
      using dest_split_some [OF port [of port'], of "show_v4 ip'"] by (simp add: show_addr_def)
    from match_host [OF assms(2) this] PExact show ?thesis by auto
  next
    case (PHost ip')
    have "dest_split_port (snprintf_s 128 (show_v4 ip')) = (show_v4 ip', None)"
      using length_show_v4(1) [of ip'] by (simp add: dest_split_none show_v4_chars)
    from match_host [OF assms(2) this] PHost show ?thesis by simp
  next
    case (PPort port')
    have "length (CHR '':'' # show_nat port') < 128" using assms(1) PPort length_show_port [of port'] by simp
    then have "dest_split_port (snprintf_s 128 (CHR '':'' # show_nat port')) = ([], Some (show_nat port'))"
      using dest_split_some [OF port [of port'], of "[]"] by simp
    with PPort assms(2) show ?thesis by (simp add: ps_dest_match_def split_show_addr)
  next
    case (PCidr net n)
    have "length (show_v4 net @ CHR ''/'' # show_nat n) < 128"
      using assms(1) PCidr length_show_v4(1) [of net] length_show_bits [of n] by simp
    then have "dest_split_port (snprintf_s 128 (show_v4 net @ CHR ''/'' # show_nat n)) = (show_v4 net @ CHR ''/'' # show_nat n, None)"
      by (simp add: dest_split_none show_v4_chars port)
    from match_cidr [OF assms(2) _ this] assms(1) PCidr show ?thesis by simp
  next
    case (PCidrPort net n port')
    have "length ((show_v4 net @ CHR ''/'' # show_nat n) @ CHR '':'' # show_nat port') < 128"
      using assms(1) PCidrPort length_show_v4(1) [of net] length_show_bits [of n] length_show_port [of port'] by simp
    then have "dest_split_port (snprintf_s 128 ((show_v4 net @ CHR ''/'' # show_nat n) @ CHR '':'' # show_nat port')) =
        (show_v4 net @ CHR ''/'' # show_nat n, Some (show_nat port'))"
      using dest_split_some [OF port [of port'], of "show_v4 net @ CHR ''/'' # show_nat n"] by simp
    from match_cidr [OF assms(2) _ this] assms(1) PCidrPort show ?thesis by auto
  qed
qed

text \<open>C3. Every documented form of a destination entry (exact, host, port, network, network and port) matches
  exactly the addresses it describes; a network matches when the address agrees with it in its
  first \<open>n\<close> bits, for every prefix length from 0 to 32.\<close>

theorem dest_match_pattern:
  assumes "pat_ok pat" "port < 65536"
  shows "ps_dest_match (show_pat pat) (show_addr ip port) \<longleftrightarrow> pat_matches pat ip port"
  using assms by (rule match_pat)

theorem dest_match_pattern_witness:
  "ps_dest_match (show_pat (PCidr 0x0A000000 8)) (show_addr 0x0A010203 443) \<and>
   \<not> ps_dest_match (show_pat (PExact 0x0A010203 80)) (show_addr 0x0A010203 443)"
proof -
  have "same_net 8 0x0A000000 0x0A010203"
    by (simp add: mask_same_net [symmetric] v4_mask_def)
  then show ?thesis
    using dest_match_pattern [of "PCidr 0x0A000000 8" 443 "0x0A010203"]
      dest_match_pattern [of "PExact 0x0A010203 80" 443 "0x0A010203"] by simp
qed

section \<open>Generalising an address\<close>

lemma same_net_masked: "n \<le> 32 \<Longrightarrow> same_net n (ip AND (if n = 0 then 0 else v4_mask (int n))) ip"
  by (auto simp: same_net_def bit_and_iff bit_v4_mask)

lemma generalize_pat:
  assumes "port < 65536" "64 \<le> cap" "ps_dest_generalize (show_addr ip port) form cap = Some e"
  shows "\<exists>pat. e = show_pat pat \<and> pat_ok pat \<and> pat_matches pat ip port"
proof -
  have len: "length (show_addr ip port) < cap" "length (show_v4 ip) < cap" "length (show_nat port) < cap - 1"
    using length_show_v4(1) [of ip] length_show_port [OF assms(1)] assms(2) by (simp_all add: show_addr_def)
  have v: "v4_to_u32 (show_v4 ip) = Some ip" using v4_to_u32_show [of "[]" ip] by simp
  consider "form = ''exact''" | "form = ''host''" | "form = ''port''"
    | "form \<noteq> ''exact''" "form \<noteq> ''host''" "form \<noteq> ''port''" by blast
  then show ?thesis
  proof cases
    case 1
    with assms len have "e = show_pat (PExact ip port)"
      by (simp add: ps_dest_generalize_def split_show_addr)
    with assms(1) show ?thesis by (intro exI [of _ "PExact ip port"]) simp
  next
    case 2
    with assms len have "e = show_pat (PHost ip)"
      by (simp add: ps_dest_generalize_def split_show_addr)
    then show ?thesis by (intro exI [of _ "PHost ip"]) simp
  next
    case 3
    with assms len have "e = show_pat (PPort port)"
      by (simp add: ps_dest_generalize_def split_show_addr snprintf_s_fits)
    with assms(1) show ?thesis by (intro exI [of _ "PPort port"]) simp
  next
    case 4
    define b where "b = max 0 (min 32 (atoi (drop 5 form)))"
    define n where "n = nat b"
    let ?net = "ip AND (if n = 0 then 0 else v4_mask (int n))"
    have b: "b = int n" "n \<le> 32" by (simp_all add: b_def n_def)
    have bits: "(if (if atoi (drop 5 form) < 0 then 0 else atoi (drop 5 form)) > 32 then 32
        else if atoi (drop 5 form) < 0 then 0 else atoi (drop 5 form)) = int n"
      unfolding b(1) [symmetric] b_def by simp
    have z: "(int n = 0) = (n = 0)" by simp
    have si: "show_int (int n) = show_nat n" by (simp add: show_int_def)
    have "e = snprintf_s cap (show_v4 ?net @ CHR ''/'' # show_nat n)"
      using assms(3) 4
      unfolding ps_dest_generalize_def split_show_addr [OF assms(1)] Let_def bits prod.case v option.case z si
      by (simp add: show_v4_def split: if_splits)
    moreover have "length (show_v4 ?net @ CHR ''/'' # show_nat n) < cap"
      using length_show_v4(1) [of ?net] length_show_bits [OF b(2)] assms(2) by simp
    ultimately have "e = show_pat (PCidr ?net n)" by simp
    with b(2) same_net_masked [OF b(2)] show ?thesis by (intro exI [of _ "PCidr ?net n"]) simp
  qed
qed



text \<open>The host form of an IPv6 address is an entry that does not match the address: the matcher takes the
  text behind its last colon for a port.\<close>

lemma generalize_v6_host_unmatched:
  "ps_dest_generalize ''[fe80::1]:443'' ''host'' 64 = Some ''[fe80::1]'' \<and>
   \<not> ps_dest_match ''[fe80::1]'' ''[fe80::1]:443''"
  by (simp add: ps_dest_generalize_def ps_dest_match_def split_raddr_def dest_split_port_def ptr_off_def
      snprintf_s_def)

end
