(* ===== verification/Envelope.thy ===== *)
theory Envelope
  imports Baseline Policy
begin

text \<open>
  Learning a sandbox: \<open>unit_envelope.c\<close> collects what a unit was seen to read, write and execute and
  keeps it as JSON; \<open>sandbox_synth.c\<close> turns such an envelope into the text of a systemd sandbox, and
  the command \<open>sandbox-suggest\<close> (\<open>cli/verbs/sandbox_suggest.c\<close>) prints it from the stored file.
\<close>

section \<open>The envelope\<close>

abbreviation PS_ENV_MAX_PATHS :: nat where "PS_ENV_MAX_PATHS \<equiv> 256"
abbreviation PS_ENV_PATHLEN :: nat where "PS_ENV_PATHLEN \<equiv> 256"

record ps_unit_envelope =
  env_unit :: string
  env_rd :: "string list"
  env_wr :: "string list"
  env_ex :: "string list"
  touched_home :: int
  used_tmp :: int
  env_records :: int
  env_truncated :: int

definition ps_envelope_init :: "string option \<Rightarrow> ps_unit_envelope" where
  "ps_envelope_init unit =
     \<lparr>env_unit = snprintf_s 128 (case unit of Some u \<Rightarrow> u | None \<Rightarrow> []), env_rd = [], env_wr = [], env_ex = [],
      touched_home = 0, used_tmp = 0, env_records = 0, env_truncated = 0\<rparr>"

definition env_set_add :: "string list \<Rightarrow> string \<Rightarrow> int \<Rightarrow> string list \<times> int" where
  \<comment> \<open>\<open>set_add\<close>: the array and the flag \<open>*trunc\<close> after the call\<close>
  "env_set_add arr path trunc =
     (if path \<in> set arr then (arr, trunc)
      else if length arr \<ge> PS_ENV_MAX_PATHS then (arr, 1)
      else (arr @ [snprintf_s PS_ENV_PATHLEN path], trunc))"

definition ps_envelope_add :: "ps_unit_envelope \<Rightarrow> string option \<Rightarrow> string option \<Rightarrow> ps_unit_envelope" where
  "ps_envelope_add e event path =
     (case (event, path) of
        (Some ev, Some p) \<Rightarrow>
          (if p = [] then e
           else let e = e\<lparr>env_records := cast_int (env_records e + 1)\<rparr>;
                    e = (if ev = ''write''
                         then let (a, t) = env_set_add (env_wr e) p (env_truncated e)
                              in e\<lparr>env_wr := a, env_truncated := t\<rparr>
                         else if ev = ''exec''
                         then let (a, t) = env_set_add (env_ex e) p (env_truncated e)
                              in e\<lparr>env_ex := a, env_truncated := t\<rparr>
                         else let (a, t) = env_set_add (env_rd e) p (env_truncated e)
                              in e\<lparr>env_rd := a, env_truncated := t\<rparr>);
                    e = (if env_under p ''/home'' \<or> env_under p ''/root'' then e\<lparr>touched_home := 1\<rparr> else e)
                in if env_under p ''/tmp'' \<or> env_under p ''/var/tmp'' \<or> env_under p ''/dev/shm''
                   then e\<lparr>used_tmp := 1\<rparr> else e)
      | _ \<Rightarrow> e)"

definition arr_to_json :: "ps_json \<Rightarrow> string \<Rightarrow> string list \<Rightarrow> ps_json" where
  "arr_to_json j key a = ps_json_array_end (foldl ps_json_array_string (ps_json_array_begin j key) a)"

definition ps_envelope_to_json :: "ps_unit_envelope \<Rightarrow> nat \<Rightarrow> string option" where
  "ps_envelope_to_json e cap =
     (let j = ps_json_object_begin (ps_json_init cap);
          j = ps_json_key_string j ''unit'' (env_unit e);
          j = ps_json_key_int j ''records'' (env_records e);
          j = ps_json_key_int j ''truncated'' (env_truncated e);
          j = ps_json_key_int j ''touched_home'' (touched_home e);
          j = ps_json_key_int j ''used_tmp'' (used_tmp e);
          j = arr_to_json j ''reads'' (env_rd e);
          j = arr_to_json j ''writes'' (env_wr e);
          j = arr_to_json j ''execs'' (env_ex e);
          j = ps_json_object_end j
      in ps_json_finish j)"

definition intof :: "string \<Rightarrow> string \<Rightarrow> int" where
  \<comment> \<open>the macro \<open>INTOF\<close> on a zeroed field\<close>
  "intof json k =
     (let pat = CHR 0x22 # k @ [CHR 0x22, CHR '':'']
      in case strstr json pat of None \<Rightarrow> 0 | Some p \<Rightarrow> cast_int (strtol10 (drop (length pat) p)))"

definition ps_envelope_from_json :: "string option \<Rightarrow> ps_unit_envelope option" where
  "ps_envelope_from_json json =
     (case json of
        None \<Rightarrow> None
      | Some js \<Rightarrow>
          (case extract_cstr js ''unit'' 128 of
             None \<Rightarrow> None
           | Some u \<Rightarrow>
               Some \<lparr>env_unit = u,
                     env_rd = array_from_json js ''reads'' PS_ENV_MAX_PATHS,
                     env_wr = array_from_json js ''writes'' PS_ENV_MAX_PATHS,
                     env_ex = array_from_json js ''execs'' PS_ENV_MAX_PATHS,
                     touched_home = intof js ''touched_home'', used_tmp = intof js ''used_tmp'',
                     env_records = intof js ''records'', env_truncated = intof js ''truncated''\<rparr>))"

section \<open>Synthesis\<close>

text \<open>
  The synthesiser appends with \<open>o += snprintf(out + o, cap - o, ...)\<close>. The state is the text in the
  buffer and the offset \<open>o\<close>, which counts the whole length of every piece. Once \<open>o\<close> is beyond \<open>cap\<close>
  the unsigned \<open>cap - o\<close> wraps around and the next piece is written behind the buffer: the result
  \<open>None\<close>.
\<close>

type_synonym synth_out = "(string \<times> nat) option"

definition synth_put :: "nat \<Rightarrow> synth_out \<Rightarrow> string \<Rightarrow> synth_out" where
  "synth_put cap st piece =
     (case st of
        None \<Rightarrow> None
      | Some (buf, off) \<Rightarrow>
          (if off > cap then None
           else Some (buf @ take (cap - off - 1) piece, off + length piece)))"

definition synth_dir_counts :: "string list \<Rightarrow> (string \<times> nat) list" where
  "synth_dir_counts paths = foldl (\<lambda>ds p. dir_count_inc (synth_parent_dir p PS_ENV_PATHLEN) ds) [] paths"

definition emit_rw :: "ps_unit_envelope \<Rightarrow> int \<Rightarrow> nat \<Rightarrow> synth_out \<Rightarrow> synth_out" where
  "emit_rw e thr cap st =
     (let ds = synth_dir_counts (env_wr e);
          st = foldl (\<lambda>st (d, n). if int n \<ge> thr
                 then synth_put cap st (''ReadWritePaths='' @ d @ ''        # generalized: '' @ show_nat n @ '' files'' @ [CHR 0x0A])
                 else st) st ds
      in foldl (\<lambda>st p. if int (dir_count ds (synth_parent_dir p PS_ENV_PATHLEN)) < thr
                 then synth_put cap st (''ReadWritePaths='' @ p @ ''        # exact'' @ [CHR 0x0A])
                 else st) st (env_wr e))"

definition em_dash :: string where
  \<comment> \<open>the dash in the messages, in UTF-8\<close>
  "em_dash = [CHR 0xE2, CHR 0x80, CHR 0x94]"

definition exec_from_writable :: "ps_unit_envelope \<Rightarrow> bool" where
  "exec_from_writable e = list_ex (\<lambda>x. list_ex (synth_under x) (env_wr e)) (env_ex e)"

definition ps_sandbox_synth :: "ps_unit_envelope \<Rightarrow> int \<Rightarrow> nat \<Rightarrow> synth_out" where
  \<comment> \<open>the offset is the returned value\<close>
  "ps_sandbox_synth e rollup_threshold cap =
     (let thr = (if rollup_threshold < 1 then 1 else rollup_threshold);
          st = Some ([], 0);
          st = synth_put cap st (''[Service]'' @ [CHR 0x0A]);
          st = synth_put cap st (''ProtectSystem=strict'' @ [CHR 0x0A]);
          st = (if touched_home e = 0 then synth_put cap st (''ProtectHome=true'' @ [CHR 0x0A]) else st);
          st = (if used_tmp e \<noteq> 0 then synth_put cap st (''PrivateTmp=yes'' @ [CHR 0x0A]) else st);
          st = (if \<not> exec_from_writable e
                then synth_put cap st (''MemoryDenyWriteExecute=yes        # no exec from writable observed; verify (W^X != execve block)'' @ [CHR 0x0A])
                else st);
          st = emit_rw e thr cap st
      in synth_put cap st
           (''# learned over '' @ show_int (env_records e) @ '' records'' @
            (if env_truncated e \<noteq> 0 then '' (write set TRUNCATED '' @ em_dash @ '' coverage capped)'' else []) @
            ''. Review before applying; ReadWritePaths are minimal '' @ em_dash @ '' widen if flows were missed.'' @ [CHR 0x0A]))"

section \<open>The command sandbox-suggest\<close>

record suggest_opts =
  so_dir :: string
  so_threshold :: int
  so_reset :: bool
  so_unit :: "string option"

fun suggest_args :: "string list \<Rightarrow> suggest_opts \<Rightarrow> suggest_opts" where
  "suggest_args [] o1 = o1"
| "suggest_args [a] o1 =
     (if a = ''--reset'' then o1\<lparr>so_reset := True\<rparr>
      else if cur a \<noteq> CHR ''-'' then o1\<lparr>so_unit := Some a\<rparr> else o1)"
| "suggest_args (a # b # as) o1 =
     (if a = ''--state-dir'' then suggest_args as (o1\<lparr>so_dir := b\<rparr>)
      else if a = ''--threshold'' then suggest_args as (o1\<lparr>so_threshold := atoi b\<rparr>)
      else if a = ''--reset'' then suggest_args (b # as) (o1\<lparr>so_reset := True\<rparr>)
      else if cur a \<noteq> CHR ''-'' then suggest_args (b # as) (o1\<lparr>so_unit := Some a\<rparr>)
      else suggest_args (b # as) o1)"

datatype suggest_result =
    SuggestUsage
  | SuggestReset string
  | SuggestNoEnvelope string
  | SuggestMalformed string
  | SuggestFailed
  | SuggestOverrun
  | SuggestPrinted string

fun suggest_exit :: "suggest_result \<Rightarrow> nat option" where
  "suggest_exit SuggestUsage = Some 2"
| "suggest_exit (SuggestReset _) = Some 0"
| "suggest_exit (SuggestNoEnvelope _) = Some 1"
| "suggest_exit (SuggestMalformed _) = Some 1"
| "suggest_exit SuggestFailed = Some 1"
| "suggest_exit SuggestOverrun = None"
| "suggest_exit (SuggestPrinted _) = Some 0"

definition ps_verb_sandbox_suggest_run :: "(string \<Rightarrow> string option) \<Rightarrow> string list \<Rightarrow> suggest_result" where
  \<comment> \<open>\<open>files\<close> gives the text of a readable file; \<open>argv\<close> without the program name. A text read from a file
      ends at its first NUL for the string functions.\<close>
  "ps_verb_sandbox_suggest_run files argv =
     (let o1 = suggest_args argv \<lparr>so_dir = ''/var/lib/kernelsonde/sandbox-learn'', so_threshold = 3,
                 so_reset = False, so_unit = None\<rparr>
      in case so_unit o1 of
           None \<Rightarrow> SuggestUsage
         | Some unit \<Rightarrow>
             (let path = snprintf_s 512 (so_dir o1 @ ''/'' @ unit @ ''.json'')
              in if so_reset o1 then SuggestReset path
                 else case files path of
                        None \<Rightarrow> SuggestNoEnvelope path
                      | Some content \<Rightarrow>
                          (case ps_envelope_from_json (Some (cstr_of (take 65535 content))) of
                             None \<Rightarrow> SuggestMalformed path
                           | Some e \<Rightarrow>
                               (case ps_sandbox_synth e (so_threshold o1) 65536 of
                                  None \<Rightarrow> SuggestOverrun
                                | Some (out, n) \<Rightarrow> if n = 0 then SuggestFailed else SuggestPrinted out))))"

section \<open>The sets of an envelope\<close>

interpretation env_set: bounded_set "\<lambda>a p. fst (env_set_add a p t)" "\<lambda>a. a" PS_ENV_MAX_PATHS "\<lambda>p. length p < PS_ENV_PATHLEN"
  for t
  by unfold_locales (simp add: env_set_add_def)

lemma env_set_add_room:
  "snd (env_set_add a p t) = 0 \<Longrightarrow> length p < PS_ENV_PATHLEN \<Longrightarrow>
     t = 0 \<and> set (fst (env_set_add a p t)) = insert p (set a)"
  by (auto simp: env_set_add_def split: if_splits)

lemma env_set_add_grows: "set a \<subseteq> set (fst (env_set_add a p t))"
  by (auto simp: env_set_add_def)

abbreviation env_event :: "ps_unit_envelope \<Rightarrow> string \<times> string \<Rightarrow> ps_unit_envelope" where
  "env_event e ev \<equiv> ps_envelope_add e (Some (fst ev)) (Some (snd ev))"

definition env_inv :: "ps_unit_envelope \<Rightarrow> bool" where
  "env_inv e \<longleftrightarrow> length (env_unit e) < 128 \<and> is_cstr (env_unit e) \<and>
     (\<forall>a \<in> {env_rd e, env_wr e, env_ex e}. length a \<le> PS_ENV_MAX_PATHS \<and>
        list_all (\<lambda>p. p \<noteq> [] \<and> length p < PS_ENV_PATHLEN \<and> is_cstr p) a) \<and>
     touched_home e \<in> {0, 1} \<and> used_tmp e \<in> {0, 1} \<and> env_truncated e \<in> {0, 1} \<and>
     - (2 ^ 31) \<le> env_records e \<and> env_records e < 2 ^ 31"

lemma cast_int_range: "- (2 ^ 31) \<le> cast_int i" "cast_int i < 2 ^ 31"
  using sint_range_size [of "word_of_int i :: 32 word"] by (simp_all add: cast_int_def size_word_def)

lemma env_set_add_ok:
  assumes "length a \<le> PS_ENV_MAX_PATHS" "list_all (\<lambda>p. p \<noteq> [] \<and> length p < PS_ENV_PATHLEN \<and> is_cstr p) a"
    "is_cstr p" "p \<noteq> []" "t \<in> {0, 1}"
  shows "length (fst (env_set_add a p t)) \<le> PS_ENV_MAX_PATHS"
    "list_all (\<lambda>p. p \<noteq> [] \<and> length p < PS_ENV_PATHLEN \<and> is_cstr p) (fst (env_set_add a p t))"
    "snd (env_set_add a p t) \<in> {0, 1}"
  using assms snprintf_s_length [of PS_ENV_PATHLEN p] by (auto simp: env_set_add_def snprintf_s_def)

lemma env_event_sets:
  "env_wr (env_event e ev) =
     (if snd ev \<noteq> [] \<and> fst ev = ''write'' then fst (env_set_add (env_wr e) (snd ev) (env_truncated e)) else env_wr e)"
  "env_ex (env_event e ev) =
     (if snd ev \<noteq> [] \<and> fst ev = ''exec'' then fst (env_set_add (env_ex e) (snd ev) (env_truncated e)) else env_ex e)"
  "env_rd (env_event e ev) =
     (if snd ev \<noteq> [] \<and> fst ev \<noteq> ''write'' \<and> fst ev \<noteq> ''exec''
      then fst (env_set_add (env_rd e) (snd ev) (env_truncated e)) else env_rd e)"
  by (simp_all add: ps_envelope_add_def Let_def case_prod_beta)

lemma env_event_flags:
  "env_truncated (env_event e ev) =
     (if snd ev = [] then env_truncated e
      else snd (env_set_add (if fst ev = ''write'' then env_wr e else if fst ev = ''exec'' then env_ex e else env_rd e)
                  (snd ev) (env_truncated e)))"
  "touched_home (env_event e ev) =
     (if snd ev \<noteq> [] \<and> (env_under (snd ev) ''/home'' \<or> env_under (snd ev) ''/root'') then 1 else touched_home e)"
  "used_tmp (env_event e ev) =
     (if snd ev \<noteq> [] \<and> (env_under (snd ev) ''/tmp'' \<or> env_under (snd ev) ''/var/tmp'' \<or> env_under (snd ev) ''/dev/shm'')
      then 1 else used_tmp e)"
  "env_records (env_event e ev) = (if snd ev = [] then env_records e else cast_int (env_records e + 1))"
  "env_unit (env_event e ev) = env_unit e"
  by (simp_all add: ps_envelope_add_def Let_def case_prod_beta)

lemma env_inv_event: "env_inv e \<Longrightarrow> is_cstr (snd ev) \<Longrightarrow> env_inv (env_event e ev)"
proof -
  assume inv: "env_inv e" and ev: "is_cstr (snd ev)"
  show ?thesis
  proof (cases "snd ev = []")
    case True
    with inv show ?thesis by (simp add: ps_envelope_add_def)
  next
    case False
    have c: "- (2 ^ 31) \<le> cast_int (env_records e + 1)" "cast_int (env_records e + 1) < 2 ^ 31"
      by (rule cast_int_range)+
    have ok: "length (fst (env_set_add a (snd ev) t)) \<le> PS_ENV_MAX_PATHS"
      "list_all (\<lambda>p. p \<noteq> [] \<and> length p < PS_ENV_PATHLEN \<and> is_cstr p) (fst (env_set_add a (snd ev) t))"
      "snd (env_set_add a (snd ev) t) \<in> {0, 1}"
      if "a \<in> {env_rd e, env_wr e, env_ex e}" "t = env_truncated e" for a t
      using env_set_add_ok [of a "snd ev" t] inv ev False that by (auto simp: env_inv_def)
    have t: "env_truncated (env_event e ev) \<in> {0, 1}" using ok(3) False by (simp add: env_event_flags(1))
    show ?thesis
      using inv False c ok t unfolding env_inv_def env_event_sets env_event_flags(2-5) by auto
  qed
qed

lemma env_inv_init: "case u of Some v \<Rightarrow> is_cstr v | None \<Rightarrow> True \<Longrightarrow> env_inv (ps_envelope_init u)"
  using snprintf_s_length [of 128] by (auto simp: env_inv_def ps_envelope_init_def split: option.splits)

lemma env_inv_events:
  "env_inv e \<Longrightarrow> list_all (\<lambda>ev. is_cstr (snd ev)) evs \<Longrightarrow> env_inv (foldl env_event e evs)"
  by (induction evs arbitrary: e) (simp_all add: env_inv_event)

text \<open>Whatever events are added, an envelope keeps its bounds: at most 256 paths of at most 255
  characters per kind, flags that are 0 or 1, and a record counter in the range of an \<open>int\<close>.\<close>

theorem envelope_invariant:
  assumes "is_cstr u" "list_all (\<lambda>ev. is_cstr (snd ev)) evs"
  shows "env_inv (foldl env_event (ps_envelope_init (Some u)) evs)"
  using assms by (intro env_inv_events env_inv_init) simp_all

theorem envelope_invariant_witness:
  "env_inv (foldl env_event (ps_envelope_init (Some ''a.service'')) [(''write'', ''/var/x''), (''exec'', ''/bin/a'')])"
  using envelope_invariant [of "''a.service''" "[(''write'', ''/var/x''), (''exec'', ''/bin/a'')]"]
  by (simp add: is_cstr_def)

section \<open>Printing and reading back\<close>

definition env_doc :: "ps_unit_envelope \<Rightarrow> json" where
  "env_doc e = JObj
     [(''unit'', JStr (env_unit e)), (''records'', JInt (env_records e)), (''truncated'', JInt (env_truncated e)),
      (''touched_home'', JInt (touched_home e)), (''used_tmp'', JInt (used_tmp e)),
      (''reads'', JArr (map JStr (env_rd e))), (''writes'', JArr (map JStr (env_wr e))),
      (''execs'', JArr (map JStr (env_ex e)))]"

lemma arr_to_json_field: "arr_to_json j key a = wr_field key (JArr (map JStr a)) j"
proof -
  have "foldl ps_json_array_string j ps = foldl (\<lambda>j v. wr_elem v j) j (map JStr ps)" for j ps
    by (induction ps arbitrary: j) simp_all
  then show ?thesis by (simp add: arr_to_json_def)
qed

lemma envelope_to_json_doc:
  "ps_envelope_to_json e cap =
     (if length (show_json (env_doc e)) < cap then Some (show_json (env_doc e)) else None)"
proof -
  have "ps_envelope_to_json e cap = ps_json_finish (wr_elem (env_doc e) (ps_json_init cap))"
    by (simp add: ps_envelope_to_json_def env_doc_def Let_def arr_to_json_field)
  moreover obtain kvs where "env_doc e = JObj kvs" "writable (JObj kvs)" by (simp add: env_doc_def)
  ultimately show ?thesis by (simp only: finish_document)
qed

lemma strtol10_show_int:
  assumes "delim r" "- (2 ^ 63) < i" "i < 2 ^ 63"
  shows "strtol10 (show_int i @ r) = i"
proof -
  have nd: "r = [] \<or> \<not> is_digit (hd r)" using assms(1) by (auto simp: delim_def is_digit_def)
  have d: "is_digit (cur (show_nat n @ r))" for n by (rule show_nat_cur)
  have h: "\<not> is_space (hd (show_nat n @ r))" "cur (show_nat n @ r) \<noteq> CHR ''-''" "cur (show_nat n @ r) \<noteq> CHR ''+''" for n
    using is_digit_char [OF d [of n]] by (cases "show_nat n"; simp)+
  have w: "dropWhile is_space (show_nat n @ r) = show_nat n @ r" for n
    using h(1) [of n] by (cases "show_nat n @ r") simp_all
  have m: "\<not> is_space (CHR ''-'')" by (simp add: is_space_def)
  show ?thesis
  proof (cases "i < 0")
    case True
    then show ?thesis
      using assms(2) by (simp add: show_int_def strtol10_def Let_def m digits_val_show_nat_stop [OF nd])
  next
    case False
    then show ?thesis
      using assms(3) h(2,3) by (simp add: show_int_def strtol10_def Let_def w digits_val_show_nat_stop [OF nd])
  qed
qed

lemma intof_doc:
  assumes "plain_key k" "wf_json t" "first_field k t = Some (JInt i)" "- (2 ^ 31) \<le> i" "i < 2 ^ 31"
  shows "intof (show_json t) k = i"
proof -
  obtain rest where r: "delim rest" "strstr (show_json t) (key_text k) = Some (key_text k @ show_int i @ rest)"
    using strstr_field [OF assms(1-3)] by auto
  have "strtol10 (show_int i @ rest) = i" using r(1) assms(4,5) by (intro strtol10_show_int) simp_all
  then show ?thesis
    using r(2) cast_int_small [OF assms(4,5)] by (simp add: intof_def key_text_def Let_def)
qed

lemma env_keys:
  "plain_key ''unit''" "plain_key ''records''" "plain_key ''truncated''" "plain_key ''touched_home''"
  "plain_key ''used_tmp''" "plain_key ''reads''" "plain_key ''writes''" "plain_key ''execs''"
  by code_simp+

lemma env_inv_paths:
  assumes "env_inv e" "a \<in> {env_rd e, env_wr e, env_ex e}"
  shows "list_all is_cstr a" "list_all (\<lambda>p. length p < 256) a" "length a \<le> 256"
  using assms by (auto simp: env_inv_def list_all_iff)

lemma env_inv_ints:
  assumes "env_inv e" "x \<in> {env_records e, env_truncated e, touched_home e, used_tmp e}"
  shows "- (2 ^ 31) \<le> x" "x < 2 ^ 31"
  using assms by (auto simp: env_inv_def)

lemma env_doc_wf:
  assumes "env_inv e"
  shows "wf_json (env_doc e)"
proof -
  have i: "- (2 ^ 63) < x \<and> x < 2 ^ 63" if "x \<in> {env_records e, env_truncated e, touched_home e, used_tmp e}" for x
    using env_inv_ints [OF assms that] by simp
  have "is_cstr (env_unit e)" using assms by (simp add: env_inv_def)
  moreover have "list_all is_cstr (env_rd e)" "list_all is_cstr (env_wr e)" "list_all is_cstr (env_ex e)"
    using env_inv_paths(1) [OF assms] by simp_all
  moreover have "- (2 ^ 63) < env_records e \<and> env_records e < 2 ^ 63" "- (2 ^ 63) < env_truncated e \<and> env_truncated e < 2 ^ 63"
    "- (2 ^ 63) < touched_home e \<and> touched_home e < 2 ^ 63" "- (2 ^ 63) < used_tmp e \<and> used_tmp e < 2 ^ 63"
    by (rule i, simp)+
  ultimately show ?thesis
    unfolding env_doc_def wf_json_obj
    by (simp only: list.pred_inject prod.case wf_json.simps(3,4) wf_json_strs env_keys simp_thms)
qed

lemma env_doc_fields:
  "first_field ''unit'' (env_doc e) = Some (JStr (env_unit e))"
  "first_field ''records'' (env_doc e) = Some (JInt (env_records e))"
  "first_field ''truncated'' (env_doc e) = Some (JInt (env_truncated e))"
  "first_field ''touched_home'' (env_doc e) = Some (JInt (touched_home e))"
  "first_field ''used_tmp'' (env_doc e) = Some (JInt (used_tmp e))"
  by (simp_all add: env_doc_def)

lemma first_some_none: "list_all (\<lambda>x. x = None) xs \<Longrightarrow> first_some (xs @ ys) = first_some ys"
  by (induction xs) auto

lemma first_field_strs [simp]: "first_field key (JArr (map JStr ps)) = None"
  by (induction ps) simp_all

lemma env_doc_arrays:
  "first_field ''reads'' (env_doc e) = Some (JArr (map JStr (env_rd e)))"
  "first_field ''writes'' (env_doc e) = Some (JArr (map JStr (env_wr e)))"
  "first_field ''execs'' (env_doc e) = Some (JArr (map JStr (env_ex e)))"
  by (simp_all add: env_doc_def del: first_field.simps(2))



section \<open>The synthesised text\<close>

definition generalized_line :: "string \<times> nat \<Rightarrow> string" where
  "generalized_line dn = ''ReadWritePaths='' @ fst dn @ ''        # generalized: '' @ show_nat (snd dn) @ '' files''"

definition exact_line :: "string \<Rightarrow> string" where
  "exact_line p = ''ReadWritePaths='' @ p @ ''        # exact''"

definition rw_lines :: "ps_unit_envelope \<Rightarrow> int \<Rightarrow> string list" where
  "rw_lines e thr =
     map generalized_line (filter (\<lambda>(d, n). max 1 thr \<le> int n) (dir_counts (env_wr e))) @
     map exact_line (small_paths (env_wr e) thr)"

definition head_lines :: "ps_unit_envelope \<Rightarrow> string list" where
  "head_lines e =
     [''[Service]'', ''ProtectSystem=strict''] @
     (if touched_home e = 0 then [''ProtectHome=true''] else []) @
     (if used_tmp e \<noteq> 0 then [''PrivateTmp=yes''] else []) @
     (if \<not> exec_from_writable e
      then [''MemoryDenyWriteExecute=yes        # no exec from writable observed; verify (W^X != execve block)''] else [])"

definition last_line :: "ps_unit_envelope \<Rightarrow> string" where
  "last_line e = ''# learned over '' @ show_int (env_records e) @ '' records'' @
     (if env_truncated e \<noteq> 0 then '' (write set TRUNCATED '' @ em_dash @ '' coverage capped)'' else []) @
     ''. Review before applying; ReadWritePaths are minimal '' @ em_dash @ '' widen if flows were missed.''"

abbreviation unlines :: "string list \<Rightarrow> string" where
  "unlines ls \<equiv> concat (map (\<lambda>l. l @ [CHR 0x0A]) ls)"

definition synth_put_line :: "nat \<Rightarrow> synth_out \<Rightarrow> string \<Rightarrow> synth_out" where
  "synth_put_line cap st l = synth_put cap st (l @ [CHR 0x0A])"

lemma synth_dir_counts_eq: "synth_dir_counts = dir_counts"
  by (intro ext) (simp add: synth_dir_counts_def dir_counts_def synth_parent_dir_eq)

lemma emit_rw_lines:
  "emit_rw e (max 1 thr) cap st = foldl (synth_put_line cap) st (rw_lines e thr)"
proof -
  have small: "filter (\<lambda>p. int (dir_count (dir_counts (env_wr e)) (pdir p)) < max 1 thr) (env_wr e) = small_paths (env_wr e) thr"
    unfolding small_paths_def crowded_def not_le by (rule filter_cong) (simp_all only: dir_count_counts)
  have f: "foldl (\<lambda>st (d, n). if Q n then synth_put cap st (''ReadWritePaths='' @ d @ ''        # generalized: '' @ show_nat n @ '' files'' @ [CHR 0x0A]) else st) st ds
      = foldl (synth_put_line cap) st (map generalized_line (filter (\<lambda>(d, n). Q n) ds))"
    for st Q and ds :: "(string \<times> nat) list"
    by (induction ds arbitrary: st) (auto simp: synth_put_line_def generalized_line_def)
  have g: "foldl (\<lambda>st p. if Q p then synth_put cap st (''ReadWritePaths='' @ p @ ''        # exact'' @ [CHR 0x0A]) else st) st ps
      = foldl (synth_put_line cap) st (map exact_line (filter Q ps))" for st ps Q
    by (induction ps arbitrary: st) (simp_all add: synth_put_line_def exact_line_def)
  show ?thesis
    unfolding emit_rw_def Let_def synth_dir_counts_eq synth_parent_dir_eq f g small rw_lines_def foldl_append ..
qed

lemma synth_fold:
  "ps_sandbox_synth e thr cap =
     synth_put_line cap (foldl (synth_put_line cap) (Some ([], 0)) (head_lines e @ rw_lines e thr)) (last_line e)"
proof -
  have m: "(if thr < 1 then 1 else thr) = max 1 thr" by simp
  have h: "foldl (synth_put_line cap) (Some ([], 0)) (head_lines e) =
     (let st = synth_put cap (Some ([], 0)) (''[Service]'' @ [CHR 0x0A]);
          st = synth_put cap st (''ProtectSystem=strict'' @ [CHR 0x0A]);
          st = (if touched_home e = 0 then synth_put cap st (''ProtectHome=true'' @ [CHR 0x0A]) else st);
          st = (if used_tmp e \<noteq> 0 then synth_put cap st (''PrivateTmp=yes'' @ [CHR 0x0A]) else st)
      in if \<not> exec_from_writable e
         then synth_put cap st (''MemoryDenyWriteExecute=yes        # no exec from writable observed; verify (W^X != execve block)'' @ [CHR 0x0A])
         else st)"
    by (simp only: head_lines_def foldl_append foldl.simps synth_put_line_def Let_def if_distrib [of "foldl _ _"] if_distribR)
  have l: "last_line e @ [CHR 0x0A] = ''# learned over '' @ show_int (env_records e) @ '' records'' @
            (if env_truncated e \<noteq> 0 then '' (write set TRUNCATED '' @ em_dash @ '' coverage capped)'' else []) @
            ''. Review before applying; ReadWritePaths are minimal '' @ em_dash @ '' widen if flows were missed.'' @ [CHR 0x0A]"
    by (simp only: last_line_def append_assoc)
  show ?thesis
    unfolding foldl_append h synth_put_line_def [of cap _ "last_line e"] l
    unfolding ps_sandbox_synth_def m Let_def emit_rw_lines ..
qed

lemma synth_put_fold:
  "foldl (synth_put_line cap) (Some ([], 0)) (ls @ [l]) =
     (if length (unlines ls) > cap then None
      else Some (take (cap - 1) (unlines (ls @ [l])), length (unlines (ls @ [l]))))"
proof (induction ls arbitrary: l rule: rev_induct)
  case Nil
  then show ?case by (simp add: synth_put_line_def synth_put_def)
next
  case (snoc k ls)
  have mono: "length (unlines ls) \<le> length (unlines (ls @ [k]))" by simp
  show ?case
  proof (cases "length (unlines (ls @ [k])) > cap")
    case True
    have "foldl (synth_put_line cap) (Some ([], 0)) ((ls @ [k]) @ [l]) =
      synth_put cap (foldl (synth_put_line cap) (Some ([], 0)) (ls @ [k])) (l @ [CHR 0x0A])"
      by (simp add: synth_put_line_def)
    with True show ?thesis unfolding snoc by (simp add: synth_put_def)
  next
    case False
    with mono have "foldl (synth_put_line cap) (Some ([], 0)) (ls @ [k]) =
        Some (take (cap - 1) (unlines (ls @ [k])), length (unlines (ls @ [k])))"
      unfolding snoc by simp
    moreover have "take (cap - 1) (a @ b) = take (cap - 1) a @ take (cap - length a - 1) b" for a b :: string
      by (simp add: diff_right_commute)
    moreover have "foldl (synth_put_line cap) (Some ([], 0)) ((ls @ [k]) @ [l]) =
        synth_put cap (foldl (synth_put_line cap) (Some ([], 0)) (ls @ [k])) (l @ [CHR 0x0A])"
      by (simp add: synth_put_line_def)
    moreover have "unlines ((ls @ [k]) @ [l]) = unlines (ls @ [k]) @ (l @ [CHR 0x0A])" by simp
    moreover have "(cap < length (unlines (ls @ [k]))) = False" using False by simp
    ultimately show ?thesis by (simp only: synth_put_def option.case prod.case if_False length_append)
  qed
qed

text \<open>The synthesiser returns the whole length of its text and leaves the text, cut to the buffer, in the
  buffer, exactly when everything before the last line is no longer than the buffer; otherwise a
  later line is written behind the end of the buffer.\<close>

theorem synth_bounds:
  "ps_sandbox_synth e thr cap =
     (if length (unlines (head_lines e @ rw_lines e thr)) > cap then None
      else let t = unlines (head_lines e @ rw_lines e thr @ [last_line e]) in Some (take (cap - 1) t, length t))"
  unfolding synth_fold using synth_put_fold [of cap "head_lines e @ rw_lines e thr" "last_line e"]
  by (simp add: Let_def)

text \<open>An envelope within all its bounds can make the text of the command \<open>sandbox-suggest\<close> overrun its
  buffer of 65536 bytes: 230 long paths are enough.\<close>

lemma crowd_le: "crowd ps d \<le> length ps"
  by (simp add: crowd_def)

lemma small_paths_all: "int (length ps) < t \<Longrightarrow> small_paths ps t = ps"
proof -
  assume t: "int (length ps) < t"
  have "\<not> crowded ps t (pdir p)" for p
    using crowd_le [of ps "pdir p"] t by (simp add: crowded_def)
  then show ?thesis by (simp add: small_paths_def)
qed

lemma length_unlines_replicate: "length (unlines (replicate n l)) = n * Suc (length l)"
  by (induction n) simp_all

lemma synth_overrun:
  assumes "env_wr e = replicate 230 (replicate 255 (CHR ''a''))" "1000 \<le> thr"
  shows "ps_sandbox_synth e thr 65536 = None"
proof -
  have "rw_lines e thr = map generalized_line (filter (\<lambda>(d, n). max 1 thr \<le> int n) (dir_counts (env_wr e))) @
      replicate 230 (exact_line (replicate 255 (CHR ''a'')))"
    using assms by (simp add: rw_lines_def small_paths_all map_replicate_const [symmetric] del: map_replicate_const)
  then have "length (unlines (rw_lines e thr)) \<ge> length (unlines (replicate 230 (exact_line (replicate 255 (CHR ''a'')))))"
    by simp
  then have "length (unlines (rw_lines e thr)) > 65536"
    unfolding length_unlines_replicate by (simp add: exact_line_def)
  then show ?thesis
    unfolding synth_fold using synth_put_fold [of 65536 "head_lines e @ rw_lines e thr" "last_line e"] by simp
qed

section \<open>The learned sandbox admits what was learned\<close>

text \<open>How the lines of a unit file are read: the value of a directive ends at the first blank, as in the
  lines of the synthesiser.\<close>

fun split_lines :: "string \<Rightarrow> string list" where
  "split_lines [] = [[]]"
| "split_lines (c # cs) =
     (if c = CHR 0x0A then [] # split_lines cs else (c # hd (split_lines cs)) # tl (split_lines cs))"

definition unit_rw :: "string \<Rightarrow> string list" where
  "unit_rw text = map (\<lambda>l. takeWhile (\<lambda>c. c \<noteq> CHR '' '') (drop 15 l))
     (filter (\<lambda>l. take 15 l = ''ReadWritePaths='') (split_lines text))"

definition text_policy :: "string \<Rightarrow> ps_unit_policy" where
  "text_policy text =
     \<lparr>known = True,
      protect_system = (if ''ProtectSystem=strict'' \<in> set (split_lines text) then PROTSYS_STRICT else PROTSYS_NO),
      protect_home = (if ''ProtectHome=true'' \<in> set (split_lines text) then PROTHOME_INACCESSIBLE else PROTHOME_NO),
      private_tmp = ''PrivateTmp=yes'' \<in> set (split_lines text), mdwe = False,
      rw = unit_rw text, ro = [], inacc = []\<rparr>"

lemma split_lines_line: "CHR 0x0A \<notin> set l \<Longrightarrow> split_lines (l @ CHR 0x0A # r) = l # split_lines r"
  by (induction l) auto

lemma split_unlines: "list_all (\<lambda>l. CHR 0x0A \<notin> set l) ls \<Longrightarrow> split_lines (unlines ls) = ls @ [[]]"
  by (induction ls) (simp_all add: split_lines_line)

definition one_word :: "string \<Rightarrow> bool" where
  "one_word p \<longleftrightarrow> CHR 0x0A \<notin> set p \<and> CHR '' '' \<notin> set p"

lemma takeWhile_word: "one_word p \<Longrightarrow> takeWhile (\<lambda>c. c \<noteq> CHR '' '') (p @ CHR '' '' # r) = p"
  by (induction p) (auto simp: one_word_def)

lemma show_int_no_newline: "CHR 0x0A \<notin> set (show_int i)" "CHR 0x0A \<notin> set (show_nat n)"
  by (simp_all add: show_int_def show_nat_only_digits is_digit_def)

lemma head_lines_ok: "list_all (\<lambda>l. CHR 0x0A \<notin> set l \<and> take 15 l \<noteq> ''ReadWritePaths='') (head_lines e)"
  by (simp add: head_lines_def)

lemma last_line_ok: "CHR 0x0A \<notin> set (last_line e)" "take 15 (last_line e) \<noteq> ''ReadWritePaths=''"
  "last_line e \<noteq> ''ProtectHome=true''"
  using show_int_no_newline(1) by (simp_all add: last_line_def em_dash_def)

lemma rw_line_ok:
  "one_word p \<Longrightarrow> CHR 0x0A \<notin> set (generalized_line (p, n))"
  "one_word p \<Longrightarrow> CHR 0x0A \<notin> set (exact_line p)"
  "take 15 (generalized_line (p, n)) = ''ReadWritePaths=''" "take 15 (exact_line p) = ''ReadWritePaths=''"
  "one_word p \<Longrightarrow> takeWhile (\<lambda>c. c \<noteq> CHR '' '') (drop 15 (generalized_line (p, n))) = p"
  "one_word p \<Longrightarrow> takeWhile (\<lambda>c. c \<noteq> CHR '' '') (drop 15 (exact_line p)) = p"
  using show_int_no_newline(2) by (simp_all add: generalized_line_def exact_line_def takeWhile_word)
    (simp_all add: one_word_def)

lemma one_word_pdir: "one_word p \<Longrightarrow> one_word (pdir p)"
  using parent_dir_chars [of p PS_BL_PATHLEN] by (auto simp: one_word_def)

definition synth_rw :: "ps_unit_envelope \<Rightarrow> int \<Rightarrow> string list" where
  "synth_rw e thr = big_dirs (env_wr e) thr @ small_paths (env_wr e) thr"

lemma rw_lines_read:
  assumes "list_all one_word (env_wr e)"
  shows "list_all (\<lambda>l. CHR 0x0A \<notin> set l \<and> take 15 l = ''ReadWritePaths='') (rw_lines e thr)"
    and "map (\<lambda>l. takeWhile (\<lambda>c. c \<noteq> CHR '' '') (drop 15 l)) (rw_lines e thr) = synth_rw e thr"
proof -
  let ?big = "filter (\<lambda>(d, n). max 1 thr \<le> int n) (dir_counts (env_wr e))"
  have big: "one_word (fst dn)" if "dn \<in> set ?big" for dn
  proof -
    have "fst dn \<in> pdir ` set (env_wr e)" using that dir_counts_spec(2) [of "env_wr e"] by auto
    with assms show ?thesis by (auto simp: list_all_iff one_word_pdir)
  qed
  have small: "one_word p" if "p \<in> set (small_paths (env_wr e) thr)" for p
    using that assms by (auto simp: set_small_paths list_all_iff)
  let ?ok = "\<lambda>l. CHR 0x0A \<notin> set l \<and> take 15 l = ''ReadWritePaths=''"
  have "?ok (generalized_line dn)" if "dn \<in> set ?big" for dn
    using rw_line_ok(1) [OF big [OF that], of "snd dn"] rw_line_ok(3) [of "fst dn" "snd dn"] by (simp only: prod.collapse) simp
  moreover have "?ok (exact_line p)" if "p \<in> set (small_paths (env_wr e) thr)" for p
    using rw_line_ok(2) [OF small [OF that]] rw_line_ok(4) [of p] by blast
  ultimately show "list_all ?ok (rw_lines e thr)"
    unfolding rw_lines_def list_all_iff set_append set_map by blast
  have "map (\<lambda>dn. takeWhile (\<lambda>c. c \<noteq> CHR '' '') (drop 15 (generalized_line dn))) ?big = map fst ?big"
  proof (rule map_cong [OF refl])
    fix dn
    assume "dn \<in> set ?big"
    from rw_line_ok(5) [OF big [OF this], of "snd dn"]
    show "takeWhile (\<lambda>c. c \<noteq> CHR '' '') (drop 15 (generalized_line dn)) = fst dn" by (simp only: prod.collapse)
  qed
  moreover have "map (\<lambda>p. takeWhile (\<lambda>c. c \<noteq> CHR '' '') (drop 15 (exact_line p))) (small_paths (env_wr e) thr) = small_paths (env_wr e) thr"
    using small rw_line_ok(6) by (intro map_idI) simp
  ultimately show "map (\<lambda>l. takeWhile (\<lambda>c. c \<noteq> CHR '' '') (drop 15 l)) (rw_lines e thr) = synth_rw e thr"
    by (simp only: rw_lines_def synth_rw_def big_dirs_def map_append map_map comp_def)
qed

lemma synth_lines:
  assumes "list_all one_word (env_wr e)" "ps_sandbox_synth e thr cap = Some (out, n)" "n < cap"
  shows "split_lines out = head_lines e @ rw_lines e thr @ [last_line e, []]"
proof -
  let ?ls = "head_lines e @ rw_lines e thr @ [last_line e]"
  have out: "out = unlines ?ls"
    using assms(2,3) synth_put_fold [of cap "head_lines e @ rw_lines e thr" "last_line e"]
    unfolding synth_fold by (auto split: if_splits)
  have "list_all (\<lambda>l. CHR 0x0A \<notin> set l) ?ls"
    using head_lines_ok rw_lines_read(1) [OF assms(1)] last_line_ok(1) by (auto simp: list_all_iff)
  from split_unlines [OF this] show ?thesis unfolding out by simp
qed

lemma synth_unit_rw:
  assumes "list_all one_word (env_wr e)" "ps_sandbox_synth e thr cap = Some (out, n)" "n < cap"
  shows "unit_rw out = synth_rw e thr"
proof -
  have "filter (\<lambda>l. take 15 l = ''ReadWritePaths='') (head_lines e) = []"
    using head_lines_ok [of e] by (auto simp: list_all_iff filter_empty_conv)
  moreover have "filter (\<lambda>l. take 15 l = ''ReadWritePaths='') (rw_lines e thr) = rw_lines e thr"
    using rw_lines_read(1) [OF assms(1)] by (auto simp: list_all_iff intro: filter_True)
  moreover have "filter (\<lambda>l. take 15 l = ''ReadWritePaths='') [last_line e, []] = []"
    using last_line_ok(2) [of e] by simp
  ultimately show ?thesis
    unfolding unit_rw_def synth_lines [OF assms] filter_append by (simp only: append_Nil append_Nil2 rw_lines_read(2) [OF assms(1)])
qed

lemma synth_protect_home:
  assumes "list_all one_word (env_wr e)" "ps_sandbox_synth e thr cap = Some (out, n)" "n < cap"
    and "touched_home e \<noteq> 0"
  shows "''ProtectHome=true'' \<notin> set (split_lines out)"
proof -
  have "''ProtectHome=true'' \<notin> set (head_lines e)" using assms(4) by (simp add: head_lines_def)
  moreover have "''ProtectHome=true'' \<notin> set (rw_lines e thr)"
    using rw_lines_read(1) [OF assms(1), of thr] by (auto simp: list_all_iff)
  ultimately show ?thesis
    unfolding synth_lines [OF assms(1-3)] using last_line_ok(3) [of e] by auto
qed

lemma synth_rw_covers:
  assumes "w \<in> set (env_wr e)" "is_cstr w" "cur w = CHR ''/''" "length w < PS_BL_PATHLEN"
  shows "under_any w (synth_rw e thr)"
proof -
  have "under w (pdir w)" using assms by (intro parent_dir_covers)
  moreover have "under w w" using assms by (intro under_self) auto
  ultimately show ?thesis
    using assms(1) by (auto simp: under_any_def list_ex_iff synth_rw_def set_big_dirs set_small_paths)
qed

lemma env_event_empty: "snd ev = [] \<Longrightarrow> env_event e ev = e"
  by (simp add: ps_envelope_add_def)

lemma env_event_room:
  assumes t: "env_truncated (env_event e ev) = 0" and len: "length (snd ev) < PS_ENV_PATHLEN"
  shows "env_truncated e = 0 \<and> set (env_wr (env_event e ev)) = set (env_wr e) \<union> {w. w \<noteq> [] \<and> (''write'', w) = ev}"
proof (cases "snd ev = []")
  case True
  then have "{w. w \<noteq> [] \<and> (''write'', w) = ev} = {}" by auto
  with t show ?thesis unfolding env_event_empty [OF True] by (simp only: Un_empty_right simp_thms)
next
  case False
  from t False obtain a where "snd (env_set_add a (snd ev) (env_truncated e)) = 0"
    unfolding env_event_flags(1) by metis
  then have te: "env_truncated e = 0" using env_set_add_room [OF _ len] by blast
  show ?thesis
  proof (cases "fst ev = ''write''")
    case True
    with False t have "snd (env_set_add (env_wr e) (snd ev) (env_truncated e)) = 0" unfolding env_event_flags(1) by simp
    then have "set (fst (env_set_add (env_wr e) (snd ev) (env_truncated e))) = insert (snd ev) (set (env_wr e))"
      using env_set_add_room [OF _ len] by blast
    moreover have "{w. w \<noteq> [] \<and> (''write'', w) = ev} = {snd ev}"
      using True False by (cases ev) auto
    moreover have "(snd ev \<noteq> [] \<and> fst ev = ''write'') = True" using True False by simp
    ultimately show ?thesis using te unfolding env_event_sets(1) by (simp only: if_True simp_thms Un_insert_right Un_empty_right)
  next
    case False
    then have "{w. w \<noteq> [] \<and> (''write'', w) = ev} = {}" by (cases ev) simp
    with te False show ?thesis unfolding env_event_sets(1) by (simp only: Un_empty_right simp_thms if_False)
  qed
qed

lemma env_fold_writes:
  "env_truncated (foldl env_event e evs) = 0 \<Longrightarrow> list_all (\<lambda>ev. length (snd ev) < PS_ENV_PATHLEN) evs \<Longrightarrow>
   env_truncated e = 0 \<and>
   set (env_wr (foldl env_event e evs)) = set (env_wr e) \<union> {w. w \<noteq> [] \<and> (''write'', w) \<in> set evs}"
proof (induction evs arbitrary: e)
  case (Cons ev evs)
  have len: "length (snd ev) < PS_ENV_PATHLEN" "list_all (\<lambda>ev. length (snd ev) < PS_ENV_PATHLEN) evs"
    using Cons.prems(2) by simp_all
  have "env_truncated (foldl env_event (env_event e ev) evs) = 0" using Cons.prems(1) by simp
  from Cons.IH [OF this len(2)] have
    a: "env_truncated (env_event e ev) = 0" and
    b: "set (env_wr (foldl env_event (env_event e ev) evs)) =
      set (env_wr (env_event e ev)) \<union> {w. w \<noteq> [] \<and> (''write'', w) \<in> set evs}" by blast+
  from env_event_room [OF a len(1)] b show ?case unfolding foldl_Cons set_simps by blast
qed simp

lemma env_fold_home:
  "touched_home (foldl env_event e evs) = 0 \<Longrightarrow>
   touched_home e = 0 \<and> list_all (\<lambda>ev. snd ev = [] \<or> \<not> env_under (snd ev) ''/home'' \<and> \<not> env_under (snd ev) ''/root'') evs"
proof (induction evs arbitrary: e)
  case (Cons ev evs)
  from Cons.prems have "touched_home (foldl env_event (env_event e ev) evs) = 0" by simp
  from Cons.IH [OF this] have "touched_home (env_event e ev) = 0"
    "list_all (\<lambda>ev. snd ev = [] \<or> \<not> env_under (snd ev) ''/home'' \<and> \<not> env_under (snd ev) ''/root'') evs" by blast+
  moreover from this(1) have "\<not> (snd ev \<noteq> [] \<and> (env_under (snd ev) ''/home'' \<or> env_under (snd ev) ''/root''))"
    "touched_home e = 0"
    unfolding env_event_flags(2) by (simp_all split: if_splits)
  ultimately show ?case unfolding list.pred_inject by blast
qed simp

definition learned :: "string \<Rightarrow> (string \<times> string) list \<Rightarrow> ps_unit_envelope" where
  \<comment> \<open>the envelope of a unit after the given events\<close>
  "learned u evs = foldl env_event (ps_envelope_init (Some u)) evs"

definition learnable :: "string \<times> string \<Rightarrow> bool" where
  \<comment> \<open>an event with an absolute path of one word that the arrays hold unchanged\<close>
  "learnable ev \<longleftrightarrow> is_cstr (snd ev) \<and> one_word (snd ev) \<and> length (snd ev) < PS_ENV_PATHLEN \<and> cur (snd ev) = CHR ''/''"

lemma learned_writes:
  assumes "list_all learnable evs" "env_truncated (learned u evs) = 0"
  shows "set (env_wr (learned u evs)) = {w. (''write'', w) \<in> set evs}"
proof -
  have "list_all (\<lambda>ev. length (snd ev) < PS_ENV_PATHLEN) evs"
    using assms(1) by (auto simp: list_all_iff learnable_def)
  from env_fold_writes [OF _ this] assms(2)
  have "set (env_wr (learned u evs)) = {w. w \<noteq> [] \<and> (''write'', w) \<in> set evs}"
    by (simp add: learned_def ps_envelope_init_def)
  moreover have "w \<noteq> []" if "(''write'', w) \<in> set evs" for w
    using that assms(1) by (auto simp: list_all_iff learnable_def)
  ultimately show ?thesis by blast
qed

lemma not_home_path:
  assumes "is_cstr w" "\<not> env_under w ''/home''" "\<not> env_under w ''/root''" "\<not> env_under w ''/run/user''"
  shows "\<not> home_path w"
  using assms by (simp add: home_path_def under_below env_under_below)



text \<open>The exception for /run/user is needed: \<open>ps_envelope_add\<close> does not count it as a home directory, while
  \<open>ProtectHome=true\<close> and \<open>ps_policy_eval\<close> do.\<close>

lemma run_user_not_home:
  "touched_home (learned u [(''write'', ''/run/user/1/x'')]) = 0 \<and> home_path ''/run/user/1/x''"
  by (simp add: learned_def ps_envelope_init_def ps_envelope_add_def env_set_add_def env_under_def strncmp_eq_def
      home_path_def under_def char_at_def)

end
