(* ===== verification/Packet_Parse.thy ===== *)
theory Packet_Parse
  imports Prelude "HOL-Library.Monad_Syntax"
begin

text \<open>
  Parsing of captured frames for the flow tracker (\<open>flow_tracker.c\<close>, first half): Ethernet with an
  optional 802.1Q tag, IPv4, IPv6 with extension headers, TCP and UDP ports, and the canonical key
  of a flow.

  A frame is the list of its bytes. Every read of the C code goes through \<open>rd\<close>; a read behind the
  end of the frame is the result \<open>None\<close> of the outer option, so that its absence is a theorem. The
  inner option is the result of the parser: \<open>None\<close> is -1.
\<close>

unbundle bit_operations_syntax

section \<open>Bytes\<close>

type_synonym byte = "8 word"
type_synonym bytes = "8 word list"

definition rd :: "bytes \<Rightarrow> nat \<Rightarrow> byte option" where
  "rd p i = (if i < length p then Some (p ! i) else None)"

definition rd_bytes :: "bytes \<Rightarrow> nat \<Rightarrow> nat \<Rightarrow> bytes option" where
  \<comment> \<open>the source of a \<open>memcpy\<close>\<close>
  "rd_bytes p i n = (if i + n \<le> length p then Some (take n (drop i p)) else None)"

definition read_u16_be :: "bytes \<Rightarrow> nat \<Rightarrow> 16 word option" where
  "read_u16_be p i = do {
     a \<leftarrow> rd p i;
     b \<leftarrow> rd p (i + 1);
     Some (push_bit 8 (ucast a) OR ucast b)
   }"

fun memcmp :: "bytes \<Rightarrow> bytes \<Rightarrow> int" where
  \<comment> \<open>on bytes of one length, as in the code; a shorter list comes first\<close>
  "memcmp [] [] = 0"
| "memcmp [] (b # bs) = - 1"
| "memcmp (a # as) [] = 1"
| "memcmp (a # as) (b # bs) = (if a < b then - 1 else if b < a then 1 else memcmp as bs)"

section \<open>Parsed packets\<close>

abbreviation AF_INET :: byte where "AF_INET \<equiv> 2"
abbreviation AF_INET6 :: byte where "AF_INET6 \<equiv> 10"
abbreviation PS_IPPROTO_ICMP :: byte where "PS_IPPROTO_ICMP \<equiv> 1"
abbreviation PS_IPPROTO_TCP :: byte where "PS_IPPROTO_TCP \<equiv> 6"
abbreviation PS_IPPROTO_UDP :: byte where "PS_IPPROTO_UDP \<equiv> 17"
abbreviation PS_IPPROTO_ICMPV6 :: byte where "PS_IPPROTO_ICMPV6 \<equiv> 58"

record parsed_packet =
  pp_af :: byte
  pp_proto :: byte
  pp_src_addr :: bytes
  pp_dst_addr :: bytes
  pp_src_port :: "16 word"
  pp_dst_port :: "16 word"
  pp_vlan_id :: "16 word"
  pp_tos :: byte
  pp_flow_label :: "32 word"
  pp_payload_len :: "32 word"
  pp_tcp_flags :: byte
  pp_valid :: bool

definition zero_packet :: parsed_packet where
  "zero_packet = \<lparr>pp_af = 0, pp_proto = 0, pp_src_addr = replicate 16 0, pp_dst_addr = replicate 16 0,
     pp_src_port = 0, pp_dst_port = 0, pp_vlan_id = 0, pp_tos = 0, pp_flow_label = 0, pp_payload_len = 0,
     pp_tcp_flags = 0, pp_valid = False\<rparr>"

definition put16 :: "bytes \<Rightarrow> bytes \<Rightarrow> bytes" where
  \<comment> \<open>\<open>memcpy\<close> of some bytes to the start of a field of 16\<close>
  "put16 old bs = bs @ drop (length bs) old"

definition is_ipv6_ext_header :: "byte \<Rightarrow> bool" where
  "is_ipv6_ext_header nh \<longleftrightarrow> nh = 0 \<or> nh = 43 \<or> nh = 44 \<or> nh = 60 \<or> nh = 51"

definition parse_transport :: "bytes \<Rightarrow> byte \<Rightarrow> parsed_packet \<Rightarrow> parsed_packet option" where
  \<comment> \<open>\<open>pkt\<close> is the rest of the frame, \<open>remaining\<close> its length\<close>
  "parse_transport pkt proto pp =
     (let pp = pp\<lparr>pp_proto := proto\<rparr>; remaining = length pkt
      in if proto = PS_IPPROTO_TCP \<and> remaining \<ge> 14 then do {
           s \<leftarrow> read_u16_be pkt 0;
           d \<leftarrow> read_u16_be pkt 2;
           f \<leftarrow> rd pkt 13;
           Some (pp\<lparr>pp_src_port := s, pp_dst_port := d, pp_tcp_flags := f\<rparr>)
         }
         else if proto = PS_IPPROTO_UDP \<and> remaining \<ge> 4 then do {
           s \<leftarrow> read_u16_be pkt 0;
           d \<leftarrow> read_u16_be pkt 2;
           Some (pp\<lparr>pp_src_port := s, pp_dst_port := d\<rparr>)
         }
         else Some pp)"

definition parse_ipv4 :: "bytes \<Rightarrow> parsed_packet \<Rightarrow> parsed_packet option option" where
  "parse_ipv4 pkt pp =
     (let len = length pkt
      in if len < 20 then Some None
         else do {
           ver_ihl \<leftarrow> rd pkt 0;
           if drop_bit 4 ver_ihl \<noteq> 4 then Some None
           else let ihl = unat (ver_ihl AND 0x0F) * 4
           in if ihl < 20 \<or> ihl > len then Some None
           else do {
             total_len \<leftarrow> read_u16_be pkt 2;
             if total_len < word_of_nat ihl then Some None
             else let total_len = (if unat total_len > len then word_of_nat len else total_len)
             in do {
               tos \<leftarrow> rd pkt 1;
               src \<leftarrow> rd_bytes pkt 12 4;
               dst \<leftarrow> rd_bytes pkt 16 4;
               proto \<leftarrow> rd pkt 9;
               let pp = pp\<lparr>pp_af := AF_INET, pp_tos := tos, pp_payload_len := ucast total_len,
                    pp_src_addr := put16 (pp_src_addr pp) src, pp_dst_addr := put16 (pp_dst_addr pp) dst\<rparr>
               in do {
                 pp \<leftarrow> (if len > ihl then parse_transport (drop ihl pkt) proto pp
                         else Some (pp\<lparr>pp_proto := proto\<rparr>));
                 Some (Some (pp\<lparr>pp_valid := True\<rparr>))
               }
             }
           }
         })"

primrec walk_ext :: "nat \<Rightarrow> bytes \<Rightarrow> byte \<Rightarrow> nat \<Rightarrow> (byte \<times> nat) option" where
  \<comment> \<open>the loop over the extension headers: the counter \<open>safety\<close>, the next header and the offset\<close>
  "walk_ext 0 pkt nh off = Some (nh, off)"
| "walk_ext (Suc safety) pkt nh off =
     (if is_ipv6_ext_header nh \<and> off + 2 \<le> length pkt
      then do {
        ext_nh \<leftarrow> rd pkt off;
        ext_len \<leftarrow> rd pkt (off + 1);
        let ext_size = (if nh = 44 then 8 else if nh = 51 then (unat ext_len + 2) * 4 else (unat ext_len + 1) * 8)
        in walk_ext safety pkt ext_nh (off + ext_size)
      }
      else Some (nh, off))"

definition parse_ipv6 :: "bytes \<Rightarrow> parsed_packet \<Rightarrow> parsed_packet option option" where
  "parse_ipv6 pkt pp =
     (let len = length pkt
      in if len < 40 then Some None
         else do {
           b0 \<leftarrow> rd pkt 0;
           if drop_bit 4 b0 \<noteq> 6 then Some None
           else do {
             b1 \<leftarrow> rd pkt 1;
             b2 \<leftarrow> rd pkt 2;
             b3 \<leftarrow> rd pkt 3;
             payload_len \<leftarrow> read_u16_be pkt 4;
             src \<leftarrow> rd_bytes pkt 8 16;
             dst \<leftarrow> rd_bytes pkt 24 16;
             nh0 \<leftarrow> rd pkt 6;
             let plen = 40 + ucast payload_len;
                 pp = pp\<lparr>pp_tos := push_bit 4 (b0 AND 0x0F) OR drop_bit 4 b1,
                      pp_flow_label := push_bit 16 (ucast (b1 AND 0x0F)) OR push_bit 8 (ucast b2) OR ucast b3,
                      pp_af := AF_INET6,
                      pp_payload_len := (if plen > word_of_nat len then word_of_nat len else plen),
                      pp_src_addr := put16 (pp_src_addr pp) src, pp_dst_addr := put16 (pp_dst_addr pp) dst\<rparr>
             in do {
               (nh, off) \<leftarrow> walk_ext 10 pkt nh0 40;
               if nh = 50 \<or> nh = 59 then Some (Some (pp\<lparr>pp_proto := nh, pp_valid := True\<rparr>))
               else do {
                 pp \<leftarrow> (if off < len then parse_transport (drop off pkt) nh pp else Some (pp\<lparr>pp_proto := nh\<rparr>));
                 Some (Some (pp\<lparr>pp_valid := True\<rparr>))
               }
             }
           }
         })"

definition parse_ethernet :: "bytes \<Rightarrow> parsed_packet option option" where
  "parse_ethernet pkt =
     (if length pkt < 14 then Some None
      else do {
        ethertype \<leftarrow> read_u16_be pkt 12;
        let payload = drop 14 pkt; pp = zero_packet
        in if ethertype = 0x8100
           then if length payload < 4 then Some None
                else do {
                  tag \<leftarrow> read_u16_be payload 0;
                  ethertype \<leftarrow> read_u16_be payload 2;
                  let pp = pp\<lparr>pp_vlan_id := tag AND 0x0FFF\<rparr>; payload = drop 4 payload
                  in if ethertype = 0x0800 then parse_ipv4 payload pp
                     else if ethertype = 0x86DD then parse_ipv6 payload pp else Some None
                }
           else if ethertype = 0x0800 then parse_ipv4 payload pp
           else if ethertype = 0x86DD then parse_ipv6 payload pp
           else Some None
      })"

section \<open>The canonical key\<close>

record ps_flow_key =
  k_af :: byte
  k_proto :: byte
  k_src_addr :: bytes
  k_dst_addr :: bytes
  k_src_port :: "16 word"
  k_dst_port :: "16 word"
  k_vlan_id :: "16 word"
  k_tos :: byte

definition make_flow_key :: "parsed_packet \<Rightarrow> int \<Rightarrow> nat \<times> ps_flow_key" where
  \<comment> \<open>the direction, 0 or 1, and the key\<close>
  "make_flow_key pp track_level =
     (let key = \<lparr>k_af = pp_af pp, k_proto = (if track_level \<ge> 1 then pp_proto pp else 0),
            k_src_addr = replicate 16 0, k_dst_addr = replicate 16 0, k_src_port = 0, k_dst_port = 0,
            k_vlan_id = (if track_level \<ge> 4 then pp_vlan_id pp else 0),
            k_tos = (if track_level \<ge> 3 then pp_tos pp else 0)\<rparr>;
          addr_len = (if pp_af pp = AF_INET then 4 else 16);
          src = take addr_len (pp_src_addr pp);
          dst = take addr_len (pp_dst_addr pp);
          c = memcmp src dst
      in if c < 0 \<or> c = 0 \<and> pp_src_port pp \<le> pp_dst_port pp
         then (0, key\<lparr>k_src_addr := put16 (k_src_addr key) src, k_dst_addr := put16 (k_dst_addr key) dst,
                   k_src_port := (if track_level \<ge> 2 then pp_src_port pp else 0),
                   k_dst_port := (if track_level \<ge> 2 then pp_dst_port pp else 0)\<rparr>)
         else (1, key\<lparr>k_src_addr := put16 (k_src_addr key) dst, k_dst_addr := put16 (k_dst_addr key) src,
                   k_src_port := (if track_level \<ge> 2 then pp_dst_port pp else 0),
                   k_dst_port := (if track_level \<ge> 2 then pp_src_port pp else 0)\<rparr>))"

section \<open>Comparing bytes\<close>

lemma memcmp_zero: "memcmp a b = 0 \<longleftrightarrow> a = b"
  by (induction a b rule: memcmp.induct) auto

lemma memcmp_flip: "memcmp a b < 0 \<longleftrightarrow> memcmp b a > 0"
  by (induction a b rule: memcmp.induct) auto

lemma memcmp_trans: "memcmp a b < 0 \<Longrightarrow> memcmp b c < 0 \<Longrightarrow> memcmp a c < 0"
proof (induction a b arbitrary: c rule: memcmp.induct)
  case (2 b bs)
  then show ?case by (cases c) auto
next
  case (4 a as b bs)
  then obtain d ds where c: "c = d # ds" by (cases c) auto
  with 4 show ?case by (auto split: if_splits)
qed simp_all

lemma memcmp_cases:
  obtains (lt) "memcmp a b < 0" "memcmp b a > 0" "a \<noteq> b"
    | (gt) "memcmp a b > 0" "memcmp b a < 0" "a \<noteq> b"
    | (eq) "a = b" "memcmp a b = 0" "memcmp b a = 0"
proof -
  have z: "memcmp c c = 0" for c by (simp add: memcmp_zero)
  consider "memcmp a b < 0" | "memcmp a b > 0" | "memcmp a b = 0" by linarith
  then show thesis
  proof cases
    case 1
    moreover have "memcmp b a > 0" using 1 memcmp_flip [of a b] by simp
    moreover have "a \<noteq> b" using 1 z [of a] by auto
    ultimately show ?thesis by (rule lt)
  next
    case 2
    moreover have "memcmp b a < 0" using 2 memcmp_flip [of b a] by simp
    moreover have "a \<noteq> b" using 2 z [of a] by auto
    ultimately show ?thesis by (rule gt)
  next
    case 3
    then have "a = b" using memcmp_zero by simp
    then show ?thesis using z by (intro eq) simp_all
  qed
qed

section \<open>No read behind the end of the frame\<close>

lemma rd_Some [simp]: "i < length p \<Longrightarrow> rd p i = Some (p ! i)"
  by (simp add: rd_def)

lemma rd_bytes_Some [simp]: "i + n \<le> length p \<Longrightarrow> rd_bytes p i n = Some (take n (drop i p))"
  by (simp add: rd_bytes_def)

definition u16_at :: "bytes \<Rightarrow> nat \<Rightarrow> 16 word" where
  "u16_at p i = push_bit 8 (ucast (p ! i)) OR ucast (p ! (i + 1))"

lemma read_u16_be_Some [simp]: "i + 1 < length p \<Longrightarrow> read_u16_be p i = Some (u16_at p i)"
  by (simp add: read_u16_be_def u16_at_def)

lemma parse_transport_reads [simp]: "parse_transport pkt proto pp \<noteq> None"
  by (simp add: parse_transport_def Let_def del: not_None_eq)

lemma walk_ext_reads [simp]: "walk_ext n pkt nh off \<noteq> None"
  by (induction n arbitrary: nh off) (simp_all add: Let_def del: not_None_eq)

lemma parse_ipv4_reads [simp]: "parse_ipv4 pkt pp \<noteq> None"
proof (cases "length pkt < 20")
  case False
  then have "pkt \<noteq> []" by auto
  with False show ?thesis by (simp add: parse_ipv4_def Let_def Option.bind_eq_None_conv del: not_None_eq)
qed (simp add: parse_ipv4_def)

lemma parse_ipv6_reads [simp]: "parse_ipv6 pkt pp \<noteq> None"
proof (cases "length pkt < 40")
  case False
  then have "pkt \<noteq> []" by auto
  with False show ?thesis by (simp add: parse_ipv6_def Let_def Option.bind_eq_None_conv case_prod_beta del: not_None_eq)
qed (simp add: parse_ipv6_def)

lemma parse_ethernet_reads [simp]: "parse_ethernet pkt \<noteq> None"
  by (cases "length pkt < 14") (simp_all add: parse_ethernet_def Let_def del: not_None_eq)

lemma transport_fields:
  "parse_transport pkt proto pp = Some q \<Longrightarrow>
     pp_src_addr q = pp_src_addr pp \<and> pp_dst_addr q = pp_dst_addr pp \<and> pp_af q = pp_af pp \<and> pp_proto q = proto"
  by (auto simp: parse_transport_def Let_def bind_eq_Some_conv split: if_splits)

lemma put16_length: "length bs \<le> 16 \<Longrightarrow> length old = 16 \<Longrightarrow> length (put16 old bs) = 16"
  by (simp add: put16_def)

definition pp_wf :: "parsed_packet \<Rightarrow> bool" where
  \<comment> \<open>addresses of 16 bytes, of which an IPv4 address uses the first four\<close>
  "pp_wf pp \<longleftrightarrow> length (pp_src_addr pp) = 16 \<and> length (pp_dst_addr pp) = 16 \<and>
     (pp_af pp = AF_INET \<and> drop 4 (pp_src_addr pp) = replicate 12 0 \<and> drop 4 (pp_dst_addr pp) = replicate 12 0 \<or>
      pp_af pp = AF_INET6)"

lemma parse_ipv4_ok:
  assumes "parse_ipv4 pkt pp = Some (Some q)" "pp_src_addr pp = replicate 16 0" "pp_dst_addr pp = replicate 16 0"
  shows "pp_valid q \<and> pp_wf q"
proof -
  have "pp_valid q \<and> 20 \<le> length pkt \<and> pp_af q = AF_INET \<and> pp_src_addr q = put16 (replicate 16 0) (take 4 (drop 12 pkt)) \<and>
      pp_dst_addr q = put16 (replicate 16 0) (take 4 (drop 16 pkt))"
    using assms
    by (auto simp: parse_ipv4_def Let_def bind_eq_Some_conv dest!: transport_fields split: if_splits)
  then show ?thesis by (auto simp: pp_wf_def put16_def)
qed

definition ipv6_fields :: "bytes \<Rightarrow> parsed_packet \<Rightarrow> parsed_packet" where
  "ipv6_fields pkt pp =
     (let plen = 40 + ucast (u16_at pkt 4)
      in pp\<lparr>pp_tos := push_bit 4 (pkt ! 0 AND 0x0F) OR drop_bit 4 (pkt ! 1),
           pp_flow_label := push_bit 16 (ucast (pkt ! 1 AND 0x0F)) OR push_bit 8 (ucast (pkt ! 2)) OR ucast (pkt ! 3),
           pp_af := AF_INET6,
           pp_payload_len := (if plen > word_of_nat (length pkt) then word_of_nat (length pkt) else plen),
           pp_src_addr := put16 (pp_src_addr pp) (take 16 (drop 8 pkt)),
           pp_dst_addr := put16 (pp_dst_addr pp) (take 16 (drop 24 pkt))\<rparr>)"

lemma parse_ipv6_eq:
  assumes "40 \<le> length pkt" "drop_bit 4 (pkt ! 0) = 6"
  shows "parse_ipv6 pkt pp =
    (let pp1 = ipv6_fields pkt pp in do {
       (nh, off) \<leftarrow> walk_ext 10 pkt (pkt ! 6) 40;
       if nh = 50 \<or> nh = 59 then Some (Some (pp1\<lparr>pp_proto := nh, pp_valid := True\<rparr>))
       else do {
         pp \<leftarrow> (if off < length pkt then parse_transport (drop off pkt) nh pp1 else Some (pp1\<lparr>pp_proto := nh\<rparr>));
         Some (Some (pp\<lparr>pp_valid := True\<rparr>))
       }
     })"
proof -
  have l: "(length pkt < 40) = False" "(drop_bit 4 (pkt ! 0) \<noteq> 6) = False" using assms by simp_all
  have r: "rd pkt i = Some (pkt ! i)" if "i < 40" for i using that assms(1) by simp
  have m: "read_u16_be pkt 4 = Some (u16_at pkt 4)" "rd_bytes pkt 8 16 = Some (take 16 (drop 8 pkt))"
    "rd_bytes pkt 24 16 = Some (take 16 (drop 24 pkt))" using assms(1) by simp_all
  have i: "(0::nat) < 40" "(1::nat) < 40" "(2::nat) < 40" "(3::nat) < 40" "(6::nat) < 40" by simp_all
  show ?thesis
    unfolding parse_ipv6_def ipv6_fields_def Let_def
    by (simp only: l if_False r [OF i(1)] r [OF i(2)] r [OF i(3)] r [OF i(4)] r [OF i(5)] m Option.bind.simps)
qed

lemma parse_ipv6_ok:
  assumes q: "parse_ipv6 pkt pp = Some (Some q)" and z: "pp_src_addr pp = replicate 16 0" "pp_dst_addr pp = replicate 16 0"
  shows "pp_valid q \<and> pp_wf q"
proof -
  have len: "40 \<le> length pkt" using q by (rule_tac ccontr) (simp add: parse_ipv6_def)
  then have "rd pkt 0 = Some (pkt ! 0)" by (intro rd_Some) linarith
  then have v: "drop_bit 4 (pkt ! 0) = 6" using q len by (rule_tac ccontr) (simp add: parse_ipv6_def)
  let ?p = "ipv6_fields pkt pp"
  have "pp_valid q \<and> pp_af q = pp_af ?p \<and> pp_src_addr q = pp_src_addr ?p \<and> pp_dst_addr q = pp_dst_addr ?p"
    using q unfolding parse_ipv6_eq [OF len v] Let_def
    by (auto simp: bind_eq_Some_conv dest!: transport_fields split: if_splits)
  then show ?thesis
    using len z by (simp add: pp_wf_def ipv6_fields_def Let_def put16_def)
qed

lemma parse_ethernet_ok: "parse_ethernet pkt = Some (Some pp) \<Longrightarrow> pp_valid pp \<and> pp_wf pp"
proof -
  assume "parse_ethernet pkt = Some (Some pp)"
  then obtain pl pp0 where "parse_ipv4 pl pp0 = Some (Some pp) \<or> parse_ipv6 pl pp0 = Some (Some pp)"
    "pp_src_addr pp0 = replicate 16 0" "pp_dst_addr pp0 = replicate 16 0"
    unfolding parse_ethernet_def Let_def bind_eq_Some_conv zero_packet_def
    by (fastforce split: if_splits)
  then show ?thesis using parse_ipv4_ok parse_ipv6_ok by blast
qed

text \<open>C2. Parsing a frame never reads behind its end, whatever bytes it holds and however the lengths inside
  it lie, and a parsed packet is marked valid and has addresses of its family.\<close>

theorem parse_ethernet_safe:
  "\<exists>r. parse_ethernet pkt = Some r \<and> (case r of None \<Rightarrow> True | Some pp \<Rightarrow> pp_valid pp \<and> pp_wf pp)"
proof (cases "parse_ethernet pkt")
  case None
  then show ?thesis by simp
next
  case (Some r)
  then show ?thesis
    using parse_ethernet_ok [of pkt] by (cases r) auto
qed

section \<open>Both directions have one key\<close>

definition mirror :: "parsed_packet \<Rightarrow> parsed_packet" where
  \<comment> \<open>the packet that answers: addresses and ports swapped\<close>
  "mirror pp = pp\<lparr>pp_src_addr := pp_dst_addr pp, pp_dst_addr := pp_src_addr pp,
     pp_src_port := pp_dst_port pp, pp_dst_port := pp_src_port pp\<rparr>"

definition addr_of :: "parsed_packet \<Rightarrow> bytes \<Rightarrow> bytes" where
  "addr_of pp a = take (if pp_af pp = AF_INET then 4 else 16) a"

text \<open>C17. A packet and its answer have the same flow key at every track level, and are counted in opposite
  directions unless both ends are the same address and port.\<close>

theorem flow_key_mirror:
  "snd (make_flow_key (mirror pp) lvl) = snd (make_flow_key pp lvl) \<and>
    (if addr_of pp (pp_src_addr pp) = addr_of pp (pp_dst_addr pp) \<and> pp_src_port pp = pp_dst_port pp
     then fst (make_flow_key (mirror pp) lvl) = 0 \<and> fst (make_flow_key pp lvl) = 0
     else fst (make_flow_key (mirror pp) lvl) = 1 - fst (make_flow_key pp lvl))"
proof -
  let ?s = "addr_of pp (pp_src_addr pp)" and ?d = "addr_of pp (pp_dst_addr pp)"
  show ?thesis
  proof (cases rule: memcmp_cases [of ?s ?d])
    case lt
    then show ?thesis by (simp add: make_flow_key_def mirror_def addr_of_def Let_def)
  next
    case gt
    then show ?thesis by (simp add: make_flow_key_def mirror_def addr_of_def Let_def)
  next
    case eq
    then show ?thesis by (auto simp: make_flow_key_def mirror_def addr_of_def Let_def)
  qed
qed

definition example_query :: parsed_packet where
  "example_query = zero_packet\<lparr>pp_af := AF_INET, pp_src_addr := put16 (replicate 16 0) [10, 0, 0, 2],
     pp_dst_addr := put16 (replicate 16 0) [10, 0, 0, 1], pp_src_port := 40000, pp_dst_port := 53\<rparr>"

theorem flow_key_mirror_witness:
  "snd (make_flow_key (mirror example_query) 2) = snd (make_flow_key example_query 2) \<and>
   fst (make_flow_key example_query 2) = 1 \<and> fst (make_flow_key (mirror example_query) 2) = 0"
proof -
  have d: "fst (make_flow_key example_query 2) = 1" by code_simp
  have n: "(addr_of example_query (pp_src_addr example_query) = addr_of example_query (pp_dst_addr example_query) \<and>
      pp_src_port example_query = pp_dst_port example_query) = False" by code_simp
  from flow_key_mirror [of example_query 2] show ?thesis unfolding n if_False d by simp
qed

end
