(* ===== verification/Rb_Nodes.thy ===== *)
theory Rb_Nodes
  imports Prelude
begin

text \<open>
  The interface of the red-black tree macros (\<open>compat/tree.h\<close>) as their clients see it: the tree is
  the list of its nodes in the order of \<open>RB_FOREACH\<close>. \<open>RB_FIND\<close>, \<open>RB_INSERT\<close> and \<open>RB_REMOVE\<close> go by the
  comparison function the macros are generated with; the balancing of the tree is not modelled.

  The locale \<open>node_order\<close> is what a comparison function has to satisfy, and gives the laws of a map
  from keys to nodes.
\<close>

fun rb_find :: "('k \<Rightarrow> 'k \<Rightarrow> int) \<Rightarrow> ('n \<Rightarrow> 'k) \<Rightarrow> 'k \<Rightarrow> 'n list \<Rightarrow> 'n option" where
  "rb_find cmp key k [] = None"
| "rb_find cmp key k (n # ns) = (if cmp k (key n) = 0 then Some n else rb_find cmp key k ns)"

fun rb_insert :: "('k \<Rightarrow> 'k \<Rightarrow> int) \<Rightarrow> ('n \<Rightarrow> 'k) \<Rightarrow> 'n \<Rightarrow> 'n list \<Rightarrow> 'n list" where
  "rb_insert cmp key n [] = [n]"
| "rb_insert cmp key n (m # ns) =
     (if cmp (key n) (key m) < 0 then n # m # ns
      else if cmp (key n) (key m) > 0 then m # rb_insert cmp key n ns
      else m # ns)"

fun rb_update :: "('k \<Rightarrow> 'k \<Rightarrow> int) \<Rightarrow> ('n \<Rightarrow> 'k) \<Rightarrow> 'k \<Rightarrow> ('n \<Rightarrow> 'n) \<Rightarrow> 'n list \<Rightarrow> 'n list" where
  \<comment> \<open>the node that \<open>rb_find\<close> returns, changed in place\<close>
  "rb_update cmp key k f [] = []"
| "rb_update cmp key k f (n # ns) = (if cmp k (key n) = 0 then f n # ns else n # rb_update cmp key k f ns)"

locale node_order =
  fixes cmp :: "'k \<Rightarrow> 'k \<Rightarrow> int" and key :: "'n \<Rightarrow> 'k"
  assumes cmp_zero: "cmp a b = 0 \<longleftrightarrow> a = b"
    and cmp_flip: "cmp a b < 0 \<longleftrightarrow> cmp b a > 0"
    and cmp_trans: "cmp a b < 0 \<Longrightarrow> cmp b c < 0 \<Longrightarrow> cmp a c < 0"
begin

abbreviation ordered :: "'n list \<Rightarrow> bool" where
  "ordered ns \<equiv> sorted_wrt (\<lambda>m n. cmp (key m) (key n) < 0) ns"

abbreviation lookup :: "'n list \<Rightarrow> 'k \<Rightarrow> 'n option" where
  "lookup ns k \<equiv> rb_find cmp key k ns"

lemma cmp_irrefl: "\<not> cmp a a < 0"
  using cmp_zero [of a a] by simp

lemma find_key: "lookup ns k = Some n \<Longrightarrow> key n = k \<and> n \<in> set ns"
  by (induction ns) (auto simp: cmp_zero split: if_splits)

lemma find_None: "lookup ns k = None \<longleftrightarrow> k \<notin> key ` set ns"
  by (induction ns) (auto simp: cmp_zero)

lemma ordered_distinct: "ordered ns \<Longrightarrow> distinct (map key ns)"
proof (induction ns)
  case (Cons n ns)
  then have "key n \<noteq> key m" if "m \<in> set ns" for m
    using that cmp_irrefl [of "key n"] by (metis sorted_wrt.simps(2))
  with Cons show ?case by auto
qed simp

lemma find_in: "ordered ns \<Longrightarrow> n \<in> set ns \<Longrightarrow> lookup ns (key n) = Some n"
proof (induction ns)
  case (Cons m ns)
  show ?case
  proof (cases "key n = key m")
    case True
    with Cons.prems ordered_distinct [OF Cons.prems(1)] have "n = m"
      by (auto simp: image_iff)
    then show ?thesis by (simp add: cmp_zero)
  next
    case False
    with Cons show ?thesis by (auto simp: cmp_zero)
  qed
qed simp

lemma insert_set:
  assumes "key n \<notin> key ` set ns"
  shows "set (rb_insert cmp key n ns) = insert n (set ns)" "length (rb_insert cmp key n ns) = Suc (length ns)"
  using assms
proof (induction ns)
  case (Cons m ns)
  {
    case 1
    with Cons have "cmp (key n) (key m) \<noteq> 0" by (auto simp: cmp_zero)
    with 1 Cons show ?case by auto
  next
    case 2
    with Cons have "cmp (key n) (key m) \<noteq> 0" by (auto simp: cmp_zero)
    with 2 Cons show ?case by auto
  }
qed simp_all

lemma insert_ordered: "key n \<notin> key ` set ns \<Longrightarrow> ordered ns \<Longrightarrow> ordered (rb_insert cmp key n ns)"
proof (induction ns)
  case (Cons m ns)
  have ne: "cmp (key n) (key m) \<noteq> 0" using Cons.prems(1) by (auto simp: cmp_zero)
  show ?case
  proof (cases "cmp (key n) (key m) < 0")
    case True
    with Cons.prems(2) show ?thesis by (auto intro: cmp_trans)
  next
    case False
    with ne have "cmp (key m) (key n) < 0" using cmp_flip [of "key m" "key n"] by linarith
    moreover have "ordered (rb_insert cmp key n ns)" using Cons by simp
    moreover have "set (rb_insert cmp key n ns) = insert n (set ns)"
      using Cons.prems(1) by (intro insert_set) simp
    ultimately show ?thesis using False ne Cons.prems(2) by auto
  qed
qed simp

lemma insert_lookup:
  assumes "key n \<notin> key ` set ns" "ordered ns"
  shows "lookup (rb_insert cmp key n ns) = (lookup ns)(key n \<mapsto> n)"
proof
  fix k
  have o: "ordered (rb_insert cmp key n ns)" and s: "set (rb_insert cmp key n ns) = insert n (set ns)"
    using assms insert_ordered insert_set by blast+
  show "lookup (rb_insert cmp key n ns) k = ((lookup ns)(key n \<mapsto> n)) k"
  proof (cases "lookup (rb_insert cmp key n ns) k")
    case None
    then have "k \<noteq> key n" "lookup ns k = None" using s by (auto simp: find_None)
    with None show ?thesis by simp
  next
    case (Some m)
    then have m: "key m = k" "m = n \<or> m \<in> set ns" using find_key s by blast+
    show ?thesis
    proof (cases "m = n")
      case True
      with Some m show ?thesis by simp
    next
      case False
      with m have "m \<in> set ns" by simp
      with m assms find_in have "lookup ns k = Some m" "k \<noteq> key n" by (blast, metis image_eqI)
      with Some show ?thesis by simp
    qed
  qed
qed

lemma update_lookup:
  assumes "\<And>n. key (f n) = key n"
  shows "lookup (rb_update cmp key k f ns) =
    (case lookup ns k of None \<Rightarrow> lookup ns | Some n \<Rightarrow> (lookup ns)(k \<mapsto> f n))"
  using assms by (induction ns) (auto simp: cmp_zero fun_eq_iff split: option.splits)

lemma update_keys: "(\<And>n. key (f n) = key n) \<Longrightarrow> map key (rb_update cmp key k f ns) = map key ns"
  by (induction ns) auto

lemma ordered_map_key: "ordered ns \<longleftrightarrow> sorted_wrt (\<lambda>a b. cmp a b < 0) (map key ns)"
  by (simp add: sorted_wrt_map)

lemma update_ordered: "(\<And>n. key (f n) = key n) \<Longrightarrow> ordered (rb_update cmp key k f ns) = ordered ns"
  by (simp add: ordered_map_key update_keys)

lemma filter_lookup: "ordered ns \<Longrightarrow> lookup (filter P ns) k = (case lookup ns k of Some n \<Rightarrow> if P n then Some n else None | None \<Rightarrow> None)"
proof -
  assume o: "ordered ns"
  then have of: "ordered (filter P ns)" by (rule sorted_wrt_filter)
  show ?thesis
  proof (cases "lookup (filter P ns) k")
    case None
    then have "lookup ns k = None \<or> (\<exists>n. lookup ns k = Some n \<and> \<not> P n)"
      using find_key by (cases "lookup ns k") (auto simp: find_None image_iff)
    with None show ?thesis by auto
  next
    case (Some n)
    then have "key n = k" "n \<in> set ns" "P n" using find_key [OF Some] by auto
    with o find_in [of ns n] Some show ?thesis by auto
  qed
qed

lemma insert_sum:
  fixes g :: "'n \<Rightarrow> 'a :: comm_monoid_add"
  assumes "key n \<notin> key ` set ns"
  shows "sum_list (map g (rb_insert cmp key n ns)) = g n + sum_list (map g ns)"
  using assms
proof (induction ns)
  case (Cons m ns)
  then have "cmp (key n) (key m) \<noteq> 0" by (auto simp: cmp_zero)
  with Cons show ?case by (auto simp: add.left_commute)
qed simp

lemma update_sum:
  fixes g :: "'n \<Rightarrow> 'a :: comm_monoid_add"
  assumes "lookup ns k = Some n" "g (f n) = d + g n"
  shows "sum_list (map g (rb_update cmp key k f ns)) = d + sum_list (map g ns)"
  using assms by (induction ns) (auto simp: add.assoc add.left_commute split: if_splits)

lemma update_set: "set (rb_update cmp key k f ns) \<subseteq> set ns \<union> f ` {n \<in> set ns. key n = k}"
  by (induction ns) (auto simp: cmp_zero)

lemma update_length: "length (rb_update cmp key k f ns) = length ns"
  by (induction ns) auto

end

end
