(* ===== verification/Rb_Tree.thy ===== *)
theory Rb_Tree
  imports Rb_Nodes
begin

text \<open>
  The red-black tree macros themselves (\<open>compat/tree.h\<close>): \<open>RB_FIND\<close>, \<open>RB_INSERT\<close> and \<open>RB_REMOVE\<close> with the
  loops that restore the colours. A pointer to a node is the subtree below it together with the path to
  the root, nearest parent first, so that the parent pointers of the code are the steps of the path; a
  dereference of \<open>NULL\<close> is the result \<open>None\<close>.

  The lemmas show that no operation dereferences \<open>NULL\<close> on a red-black tree, that red-black trees are kept,
  and that the operations do to the nodes in order what \<open>Rb_Nodes\<close> says of them.
\<close>

section \<open>Trees and paths\<close>

datatype color = RB_BLACK | RB_RED

datatype 'n rbt = NIL | N color "'n rbt" 'n "'n rbt"

datatype side = Left_of | Right_of

type_synonym 'n frame = "side \<times> color \<times> 'n \<times> 'n rbt"
  \<comment> \<open>the side of the parent we are on, the parent's colour and element, and its other subtree\<close>

fun fill :: "'n rbt \<Rightarrow> 'n frame \<Rightarrow> 'n rbt" where
  "fill t (Left_of, c, x, s) = N c t x s"
| "fill t (Right_of, c, x, s) = N c s x t"

fun plug :: "'n rbt \<Rightarrow> 'n frame list \<Rightarrow> 'n rbt" where
  "plug t [] = t"
| "plug t (f # fs) = plug (fill t f) fs"

fun is_red :: "'n rbt \<Rightarrow> bool" where
  "is_red (N RB_RED l x r) = True"
| "is_red _ = False"

fun paint :: "color \<Rightarrow> 'n rbt \<Rightarrow> 'n rbt" where
  "paint c NIL = NIL"
| "paint c (N c' l x r) = N c l x r"

fun rotate_left :: "'n rbt \<Rightarrow> 'n rbt option" where
  "rotate_left (N c a x (N c' b y d)) = Some (N c' (N c a x b) y d)"
| "rotate_left _ = None"

fun rotate_right :: "'n rbt \<Rightarrow> 'n rbt option" where
  "rotate_right (N c (N c' a x b) y d) = Some (N c' a x (N c b y d))"
| "rotate_right _ = None"

section \<open>Find and insert\<close>

fun tree_find :: "('k \<Rightarrow> 'k \<Rightarrow> int) \<Rightarrow> ('n \<Rightarrow> 'k) \<Rightarrow> 'k \<Rightarrow> 'n rbt \<Rightarrow> 'n option" where
  "tree_find cmp key k NIL = None"
| "tree_find cmp key k (N c l x r) =
     (let comp = cmp k (key x)
      in if comp < 0 then tree_find cmp key k l else if comp > 0 then tree_find cmp key k r else Some x)"

fun insert_color :: "'n rbt \<Rightarrow> 'n frame list \<Rightarrow> 'n rbt option" where
  "insert_color elm [] = Some (paint RB_BLACK elm)"
| "insert_color elm ((d, RB_BLACK, p, s) # fs) = Some (paint RB_BLACK (plug elm ((d, RB_BLACK, p, s) # fs)))"
| "insert_color elm [(d, RB_RED, p, s)] = None"
| "insert_color elm ((d, RB_RED, p, s) # (Left_of, gc, g, tmp) # fs) =
     (if is_red tmp
      then insert_color (N RB_RED (fill elm (d, RB_BLACK, p, s)) g (paint RB_BLACK tmp)) fs
      else case (if d = Right_of then rotate_left (fill elm (d, RB_RED, p, s)) else Some (fill elm (d, RB_RED, p, s))) of
             None \<Rightarrow> None
           | Some parent \<Rightarrow> map_option (\<lambda>t. paint RB_BLACK (plug t fs)) (rotate_right (N RB_RED (paint RB_BLACK parent) g tmp)))"
| "insert_color elm ((d, RB_RED, p, s) # (Right_of, gc, g, tmp) # fs) =
     (if is_red tmp
      then insert_color (N RB_RED (paint RB_BLACK tmp) g (fill elm (d, RB_BLACK, p, s))) fs
      else case (if d = Left_of then rotate_right (fill elm (d, RB_RED, p, s)) else Some (fill elm (d, RB_RED, p, s))) of
             None \<Rightarrow> None
           | Some parent \<Rightarrow> map_option (\<lambda>t. paint RB_BLACK (plug t fs)) (rotate_left (N RB_RED tmp g (paint RB_BLACK parent))))"

fun insert_at :: "('k \<Rightarrow> 'k \<Rightarrow> int) \<Rightarrow> ('n \<Rightarrow> 'k) \<Rightarrow> 'n \<Rightarrow> 'n rbt \<Rightarrow> 'n frame list \<Rightarrow> 'n rbt option" where
  \<comment> \<open>the search for the place, from the node \<open>tmp\<close> that the path leads to\<close>
  "insert_at cmp key elm NIL fs = insert_color (N RB_RED NIL elm NIL) fs"
| "insert_at cmp key elm (N c l x r) fs =
     (let comp = cmp (key elm) (key x)
      in if comp < 0 then insert_at cmp key elm l ((Left_of, c, x, r) # fs)
         else if comp > 0 then insert_at cmp key elm r ((Right_of, c, x, l) # fs)
         else Some (plug (N c l x r) fs))"

definition tree_insert :: "('k \<Rightarrow> 'k \<Rightarrow> int) \<Rightarrow> ('n \<Rightarrow> 'k) \<Rightarrow> 'n \<Rightarrow> 'n rbt \<Rightarrow> 'n rbt option" where
  "tree_insert cmp key elm t = insert_at cmp key elm t []"

section \<open>Remove\<close>

fun both_black :: "'n rbt \<Rightarrow> bool" where
  "both_black (N c l x r) = (\<not> is_red l \<and> \<not> is_red r)"
| "both_black NIL = True"

fun lift_left :: "'n rbt \<Rightarrow> 'n rbt option" where
  \<comment> \<open>the sibling on the right: its red left child comes up if the right child is black\<close>
  "lift_left (N c l x r) = (if \<not> is_red r then rotate_right (N RB_RED (paint RB_BLACK l) x r) else Some (N c l x r))"
| "lift_left NIL = None"

fun lift_right :: "'n rbt \<Rightarrow> 'n rbt option" where
  "lift_right (N c l x r) = (if \<not> is_red l then rotate_left (N RB_RED l x (paint RB_BLACK r)) else Some (N c l x r))"
| "lift_right NIL = None"

fun settle_left :: "'n rbt \<Rightarrow> color \<Rightarrow> 'n \<Rightarrow> 'n rbt \<Rightarrow> 'n rbt option" where
  \<comment> \<open>\<open>tmp\<close> takes the colour of the parent, the parent and \<open>tmp\<close>'s right child become black, and the parent is rotated\<close>
  "settle_left elm pc p (N c l x r) = rotate_left (N RB_BLACK elm p (N pc l x (paint RB_BLACK r)))"
| "settle_left elm pc p NIL = None"

fun settle_right :: "'n rbt \<Rightarrow> color \<Rightarrow> 'n \<Rightarrow> 'n rbt \<Rightarrow> 'n rbt option" where
  "settle_right elm pc p (N c l x r) = rotate_right (N RB_BLACK (N pc (paint RB_BLACK l) x r) p elm)"
| "settle_right elm pc p NIL = None"

function remove_color :: "'n rbt \<Rightarrow> 'n frame list \<Rightarrow> 'n rbt option" where
  "remove_color elm [] = Some (paint RB_BLACK elm)"
| "remove_color elm ((d, pc, p, tmp) # fs) =
     (if is_red elm then Some (plug (paint RB_BLACK elm) ((d, pc, p, tmp) # fs))
      else if d = Left_of
      then case (case tmp of NIL \<Rightarrow> None
                 | N RB_RED l x r \<Rightarrow> Some (RB_RED, l, (Left_of, RB_BLACK, x, r) # fs)
                 | N RB_BLACK l x r \<Rightarrow> Some (pc, tmp, fs)) of
             None \<Rightarrow> None
           | Some (pc, tmp, fs') \<Rightarrow>
               (if tmp = NIL then None
                else if both_black tmp then remove_color (N pc elm p (paint RB_RED tmp)) fs'
                else case lift_left tmp of None \<Rightarrow> None
                     | Some tmp \<Rightarrow> map_option (\<lambda>t. paint RB_BLACK (plug t fs')) (settle_left elm pc p tmp))
      else case (case tmp of NIL \<Rightarrow> None
                 | N RB_RED l x r \<Rightarrow> Some (RB_RED, r, (Right_of, RB_BLACK, x, l) # fs)
                 | N RB_BLACK l x r \<Rightarrow> Some (pc, tmp, fs)) of
             None \<Rightarrow> None
           | Some (pc, tmp, fs') \<Rightarrow>
               (if tmp = NIL then None
                else if both_black tmp then remove_color (N pc (paint RB_RED tmp) p elm) fs'
                else case lift_right tmp of None \<Rightarrow> None
                     | Some tmp \<Rightarrow> map_option (\<lambda>t. paint RB_BLACK (plug t fs')) (settle_right elm pc p tmp)))"
  by pat_completeness auto
termination
  by (relation "measure (\<lambda>(elm, fs). 2 * length fs + (if is_red elm then 0 else 1))")
    (auto split: rbt.splits color.splits)

fun leftmost :: "'n rbt \<Rightarrow> 'n frame list \<Rightarrow> ('n rbt \<times> 'n frame list)" where
  "leftmost (N c (N c' l y r') x r) fs = leftmost (N c' l y r') ((Left_of, c, x, r) # fs)"
| "leftmost t fs = (t, fs)"

fun tree_remove :: "'n rbt \<Rightarrow> 'n frame list \<Rightarrow> 'n rbt option" where
  \<comment> \<open>\<open>RB_REMOVE\<close> of the node at the end of a path\<close>
  "tree_remove NIL fs = None"
| "tree_remove (N c l x r) fs =
     (if l = NIL then (if c = RB_BLACK then remove_color r fs else Some (plug r fs))
      else if r = NIL then (if c = RB_BLACK then remove_color l fs else Some (plug l fs))
      else case leftmost r [] of
             (NIL, _) \<Rightarrow> None
           | (N c' l' y child, gs) \<Rightarrow>
               (let path = gs @ (Right_of, c, y, l) # fs
                in if c' = RB_BLACK then remove_color child path else Some (plug child path)))"

section \<open>The nodes in order\<close>

fun inorder :: "'n rbt \<Rightarrow> 'n list" where
  "inorder NIL = []"
| "inorder (N c l x r) = inorder l @ x # inorder r"

fun before :: "'n frame list \<Rightarrow> 'n list" where
  "before [] = []"
| "before ((Left_of, c, x, s) # fs) = before fs"
| "before ((Right_of, c, x, s) # fs) = before fs @ inorder s @ [x]"

fun after :: "'n frame list \<Rightarrow> 'n list" where
  "after [] = []"
| "after ((Left_of, c, x, s) # fs) = x # inorder s @ after fs"
| "after ((Right_of, c, x, s) # fs) = after fs"

lemma inorder_fill: "before fs @ inorder (fill t (d, c, x, s)) @ after fs = before ((d, c, x, s) # fs) @ inorder t @ after ((d, c, x, s) # fs)"
  by (cases d) auto

lemma inorder_plug [simp]: "inorder (plug t fs) = before fs @ inorder t @ after fs"
proof (induction fs arbitrary: t)
  case (Cons f fs)
  then show ?case by (cases f) (simp add: inorder_fill)
qed simp

lemma inorder_paint [simp]: "inorder (paint c t) = inorder t"
  by (cases t) auto

lemma before_app [simp]: "before (fs @ gs) = before gs @ before fs"
  by (induction fs rule: before.induct) auto

lemma after_app [simp]: "after (fs @ gs) = after fs @ after gs"
  by (induction fs rule: after.induct) auto

lemma rotate_inorder: "rotate_left t = Some t' \<Longrightarrow> inorder t' = inorder t" "rotate_right t = Some t' \<Longrightarrow> inorder t' = inorder t"
  by (auto elim!: rotate_left.elims rotate_right.elims)

lemma insert_color_inorder: "insert_color t fs = Some t' \<Longrightarrow> inorder t' = before fs @ inorder t @ after fs"
proof (induction t fs rule: insert_color.induct)
  case (4 elm d p s gc g tmp fs)
  then show ?case
    by (cases d) (auto split: if_splits option.splits dest!: rotate_inorder)
next
  case (5 elm d p s gc g tmp fs)
  then show ?case
    by (cases d) (auto split: if_splits option.splits dest!: rotate_inorder)
qed (auto simp: inorder_fill)

lemma lift_inorder: "lift_left t = Some t' \<Longrightarrow> inorder t' = inorder t" "lift_right t = Some t' \<Longrightarrow> inorder t' = inorder t"
  by (cases t; auto split: if_splits dest!: rotate_inorder)+

lemma settle_inorder:
  "settle_left elm pc p t = Some t' \<Longrightarrow> inorder t' = inorder elm @ p # inorder t"
  "settle_right elm pc p t = Some t' \<Longrightarrow> inorder t' = inorder t @ p # inorder elm"
  by (cases t; auto dest!: rotate_inorder)+

lemma remove_color_inorder: "remove_color t fs = Some t' \<Longrightarrow> inorder t' = before fs @ inorder t @ after fs"
proof (induction t fs rule: remove_color.induct)
  case (2 elm d pc p tmp fs)
  show ?case
  proof (cases "is_red elm")
    case True
    with 2(3) show ?thesis by (auto simp: inorder_fill)
  next
    case False
    show ?thesis
    proof (cases d)
      case Left_of
      show ?thesis
      proof (cases tmp)
        case (N c l x r)
        with Left_of 2(3) False show ?thesis
          using 2(1) [of "(pc, tmp, fs)" pc "(tmp, fs)" tmp fs]
            2(1) [of "(RB_RED, l, (Left_of, RB_BLACK, x, r) # fs)" RB_RED "(l, (Left_of, RB_BLACK, x, r) # fs)" l "(Left_of, RB_BLACK, x, r) # fs"]
          by (cases c) (auto split: if_splits option.splits dest!: rotate_inorder lift_inorder settle_inorder)
      qed (use Left_of 2(3) False in simp)
    next
      case Right_of
      show ?thesis
      proof (cases tmp)
        case (N c l x r)
        with Right_of 2(3) False show ?thesis
          using 2(2) [of "(pc, tmp, fs)" pc "(tmp, fs)" tmp fs]
            2(2) [of "(RB_RED, r, (Right_of, RB_BLACK, x, l) # fs)" RB_RED "(r, (Right_of, RB_BLACK, x, l) # fs)" r "(Right_of, RB_BLACK, x, l) # fs"]
          by (cases c) (auto split: if_splits option.splits dest!: rotate_inorder lift_inorder settle_inorder)
      qed (use Right_of 2(3) False in simp)
    qed
  qed
qed auto

lemma leftmost_spec:
  "leftmost t fs = (u, gs) \<Longrightarrow> t \<noteq> NIL \<Longrightarrow>
     (\<exists>hs c y r. gs = hs @ fs \<and> u = N c NIL y r \<and> inorder t = y # inorder r @ after hs \<and> before hs = [] \<and> plug u hs = t)"
proof (induction t fs arbitrary: u gs rule: leftmost.induct)
  case (1 c c' l y r' x r fs)
  then obtain hs d z w where h: "gs = hs @ (Left_of, c, x, r) # fs" "u = N d NIL z w"
    "inorder (N c' l y r') = z # inorder w @ after hs" "before hs = []" "plug u hs = N c' l y r'" by fastforce
  have pl: "plug v (hs @ [f]) = fill (plug v hs) f" for v f by (induction hs arbitrary: v) auto
  show ?case
    by (rule exI [of _ "hs @ [(Left_of, c, x, r)]"]) (use h in \<open>auto simp: pl\<close>)
qed auto

lemma tree_remove_inorder:
  assumes "tree_remove (N c l x r) fs = Some t'"
  shows "inorder t' = before fs @ inorder l @ inorder r @ after fs"
proof (cases "l = NIL \<or> r = NIL")
  case True
  with assms show ?thesis by (auto split: if_splits dest!: remove_color_inorder)
next
  case False
  obtain u gs where lm: "leftmost r [] = (u, gs)" by fastforce
  with leftmost_spec [OF lm] False obtain c' y w where u: "u = N c' NIL y w" "inorder r = y # inorder w @ after gs" "before gs = []"
    by auto
  with assms False lm show ?thesis by (auto simp: Let_def split: if_splits dest!: remove_color_inorder)
qed

section \<open>Red-black trees\<close>

fun bal :: "'n rbt \<Rightarrow> nat \<Rightarrow> bool" where
  \<comment> \<open>every path to a leaf has \<open>h\<close> black nodes\<close>
  "bal NIL h = (h = 0)"
| "bal (N RB_RED l x r) h = (bal l h \<and> bal r h)"
| "bal (N RB_BLACK l x r) h = (\<exists>k. h = Suc k \<and> bal l k \<and> bal r k)"

fun rr :: "'n rbt \<Rightarrow> bool" where
  \<comment> \<open>no red node has a red child\<close>
  "rr NIL = True"
| "rr (N c l x r) = (rr l \<and> rr r \<and> (c = RB_RED \<longrightarrow> \<not> is_red l \<and> \<not> is_red r))"

definition rb_inv :: "'n rbt \<Rightarrow> bool" where
  "rb_inv t \<longleftrightarrow> (\<exists>h. bal t h) \<and> rr t \<and> \<not> is_red t"

fun pbal :: "'n frame list \<Rightarrow> nat \<Rightarrow> bool" where
  \<comment> \<open>a subtree of black height \<open>h\<close> belongs at the end of the path\<close>
  "pbal [] h = True"
| "pbal ((d, c, x, s) # fs) h = (bal s h \<and> pbal fs (if c = RB_BLACK then Suc h else h))"

fun red_top :: "'n frame list \<Rightarrow> bool" where
  "red_top ((d, RB_RED, x, s) # fs) = True"
| "red_top _ = False"

fun prr :: "'n frame list \<Rightarrow> bool" where
  \<comment> \<open>the path is part of a tree with a black root and no red node with a red child\<close>
  "prr [] = True"
| "prr ((d, c, x, s) # fs) = (rr s \<and> prr fs \<and> (c = RB_RED \<longrightarrow> \<not> is_red s \<and> fs \<noteq> [] \<and> \<not> red_top fs))"

lemma bal_paint_black: "bal t h \<Longrightarrow> \<exists>k. bal (paint RB_BLACK t) k"
proof (cases t)
  case (N c l x r)
  then show "bal t h \<Longrightarrow> ?thesis" by (cases c) auto
qed auto

lemma rr_paint_black [simp]: "rr t \<Longrightarrow> rr (paint RB_BLACK t)" "\<not> is_red (paint RB_BLACK t)"
  by (cases t; simp)+

lemma rb_inv_paint: "bal t h \<Longrightarrow> rr t \<Longrightarrow> rb_inv (paint RB_BLACK t)"
  by (auto simp: rb_inv_def dest: bal_paint_black)

lemma bal_fill: "bal t h \<Longrightarrow> bal s h \<Longrightarrow> bal (fill t (d, c, x, s)) (if c = RB_BLACK then Suc h else h)"
  by (cases d; cases c) auto

lemma bal_plug: "bal t h \<Longrightarrow> pbal fs h \<Longrightarrow> \<exists>k. bal (plug t fs) k"
proof (induction fs arbitrary: t h)
  case (Cons f fs)
  obtain d c x s where f: "f = (d, c, x, s)" by (cases f)
  with Cons bal_fill [of t h s d c x] show ?case by auto
qed auto

lemma rr_plug: "rr t \<Longrightarrow> prr fs \<Longrightarrow> (is_red t \<longrightarrow> \<not> red_top fs) \<Longrightarrow> rr (plug t fs) \<and> (fs \<noteq> [] \<or> \<not> is_red t \<longrightarrow> \<not> is_red (plug t fs))"
proof (induction fs arbitrary: t)
  case (Cons f fs)
  obtain d c x s where f: "f = (d, c, x, s)" by (cases f)
  have "rr (fill t f)" "is_red (fill t f) \<longleftrightarrow> c = RB_RED"
    using Cons.prems by (cases d; cases c; auto simp: f)+
  with Cons show ?case by (auto simp: f)
qed auto

lemma rb_inv_plug:
  assumes "bal t h" "pbal fs h" "rr t" "prr fs" "is_red t \<longrightarrow> \<not> red_top fs"
  shows "rb_inv (paint RB_BLACK (plug t fs))"
  using bal_plug [OF assms(1,2)] rr_plug [OF assms(3,4)] assms(5) rb_inv_paint by blast

lemma insert_color_inv:
  "insert_color elm fs = r \<Longrightarrow> elm = N RB_RED a x b \<Longrightarrow> bal elm h \<Longrightarrow> rr elm \<Longrightarrow> pbal fs h \<Longrightarrow> prr fs \<Longrightarrow>
     \<exists>t. r = Some t \<and> rb_inv t"
proof (induction elm fs arbitrary: h a x b r rule: insert_color.induct)
  case (1 elm)
  then show ?case using rb_inv_paint by (metis insert_color.simps(1))
next
  case (2 elm d p s fs)
  then show ?case using rb_inv_plug [of elm h "(d, RB_BLACK, p, s) # fs"] by auto
next
  case (3 elm d p s)
  then show ?case by simp
next
  case (4 elm d p s gc g tmp fs)
  have gc: "gc = RB_BLACK" using 4(7) by (cases gc) auto
  show ?case
  proof (cases "is_red tmp")
    case True
    have "bal (paint RB_BLACK tmp) (Suc h)" using True 4(6) gc by (cases tmp rule: is_red.cases) auto
    moreover have "bal (fill elm (d, RB_BLACK, p, s)) (Suc h)" using 4(4,6) bal_fill [of elm h s d RB_BLACK p] by simp
    moreover have "rr (fill elm (d, RB_BLACK, p, s))" "\<not> is_red (fill elm (d, RB_BLACK, p, s))" using 4(5,7) by (cases d; auto)+
    ultimately show ?thesis using 4(1) [OF True _ refl, of r "Suc h"] 4(2,6,7) True gc by simp
  next
    case False
    have "bal tmp h" "rr tmp" "pbal fs (Suc h)" "prr fs" using 4(6,7) gc by auto
    moreover obtain t where "insert_color elm ((d, RB_RED, p, s) # (Left_of, gc, g, tmp) # fs) = Some (paint RB_BLACK (plug t fs))"
      and "bal t (Suc h)" "rr t" "\<not> is_red t"
      using 4(3-7) False gc by (cases d) auto
    moreover from this(1) have "r = Some (paint RB_BLACK (plug t fs))" by (rule trans [OF 4(2) [symmetric]])
    ultimately show ?thesis using rb_inv_plug [of t "Suc h" fs] by blast
  qed
next
  case (5 elm d p s gc g tmp fs)
  have gc: "gc = RB_BLACK" using 5(7) by (cases gc) auto
  show ?case
  proof (cases "is_red tmp")
    case True
    have "bal (paint RB_BLACK tmp) (Suc h)" using True 5(6) gc by (cases tmp rule: is_red.cases) auto
    moreover have "bal (fill elm (d, RB_BLACK, p, s)) (Suc h)" using 5(4,6) bal_fill [of elm h s d RB_BLACK p] by simp
    moreover have "rr (fill elm (d, RB_BLACK, p, s))" "\<not> is_red (fill elm (d, RB_BLACK, p, s))" using 5(5,7) by (cases d; auto)+
    ultimately show ?thesis using 5(1) [OF True _ refl, of r "Suc h"] 5(2,6,7) True gc by simp
  next
    case False
    have "bal tmp h" "rr tmp" "pbal fs (Suc h)" "prr fs" using 5(6,7) gc by auto
    moreover obtain t where "insert_color elm ((d, RB_RED, p, s) # (Right_of, gc, g, tmp) # fs) = Some (paint RB_BLACK (plug t fs))"
      and "bal t (Suc h)" "rr t" "\<not> is_red t"
      using 5(3-7) False gc by (cases d) auto
    moreover from this(1) have "r = Some (paint RB_BLACK (plug t fs))" by (rule trans [OF 5(2) [symmetric]])
    ultimately show ?thesis using rb_inv_plug [of t "Suc h" fs] by blast
  qed
qed

lemma insert_at_inv:
  "bal t h \<Longrightarrow> rr t \<Longrightarrow> pbal fs h \<Longrightarrow> prr fs \<Longrightarrow> (is_red t \<longrightarrow> fs \<noteq> [] \<and> \<not> red_top fs) \<Longrightarrow>
     \<exists>t'. insert_at cmp key elm t fs = Some t' \<and> rb_inv t'"
proof (induction cmp key elm t fs arbitrary: h rule: insert_at.induct)
  case (1 cmp key elm fs)
  then show ?case using insert_color_inv [OF refl refl, of NIL elm NIL h fs] by simp
next
  case (2 cmp key elm c l x r fs)
  have whole: "rb_inv (plug (N c l x r) fs)"
    using bal_plug [OF 2(3,5)] rr_plug [OF 2(4,6)] 2(7) by (auto simp: rb_inv_def)
  obtain k where "bal l k" "bal r k" "pbal ((Left_of, c, x, r) # fs) k" "pbal ((Right_of, c, x, l) # fs) k"
    using 2(3,5) by (cases c) auto
  moreover have "rr l" "rr r" "prr ((Left_of, c, x, r) # fs)" "prr ((Right_of, c, x, l) # fs)"
    using 2(4,6,7) by (cases c; auto)+
  moreover have "is_red l \<longrightarrow> \<not> red_top ((Left_of, c, x, r) # fs)" "is_red r \<longrightarrow> \<not> red_top ((Right_of, c, x, l) # fs)"
    using 2(4) by (cases c; auto)+
  ultimately show ?case using 2(1) [OF refl, of k] 2(2) [OF refl, of k] whole by (simp add: Let_def)
qed

definition up :: "color \<Rightarrow> nat \<Rightarrow> nat" where
  "up c h = (if c = RB_BLACK then Suc h else h)"

lemma absorb:
  assumes "bal elm h" "rr elm" "\<not> is_red elm" "bal (N RB_BLACK l x r) (Suc h)" "rr (N RB_BLACK l x r)" "both_black (N RB_BLACK l x r)"
  shows "bal (N pc elm p (N RB_RED l x r)) (up pc h)" "rr (paint RB_BLACK (N pc elm p (N RB_RED l x r)))"
    "bal (N pc (N RB_RED l x r) p elm) (up pc h)" "rr (paint RB_BLACK (N pc (N RB_RED l x r) p elm))"
  using assms by (cases pc; auto simp: up_def)+

lemma settle_left_inv:
  assumes "bal elm h" "rr elm" "\<not> is_red elm" "bal (N RB_BLACK l x r) (Suc h)" "rr (N RB_BLACK l x r)"
    "\<not> both_black (N RB_BLACK l x r)"
  shows "\<exists>tmp t. lift_left (N RB_BLACK l x r) = Some tmp \<and> settle_left elm pc p tmp = Some t \<and>
    bal t (up pc (Suc h)) \<and> rr t \<and> (is_red t \<longleftrightarrow> pc = RB_RED)"
proof (cases "is_red r")
  case True
  then obtain a y b where "r = N RB_RED a y b" by (auto elim: is_red.elims)
  with True assms show ?thesis by (cases pc) (auto simp: up_def)
next
  case False
  with assms(6) have "is_red l" by auto
  then obtain a y b where "l = N RB_RED a y b" by (auto elim: is_red.elims)
  with False assms show ?thesis by (cases pc) (auto simp: up_def)
qed

lemma settle_right_inv:
  assumes "bal elm h" "rr elm" "\<not> is_red elm" "bal (N RB_BLACK l x r) (Suc h)" "rr (N RB_BLACK l x r)"
    "\<not> both_black (N RB_BLACK l x r)"
  shows "\<exists>tmp t. lift_right (N RB_BLACK l x r) = Some tmp \<and> settle_right elm pc p tmp = Some t \<and>
    bal t (up pc (Suc h)) \<and> rr t \<and> (is_red t \<longleftrightarrow> pc = RB_RED)"
proof (cases "is_red l")
  case True
  then obtain a y b where "l = N RB_RED a y b" by (auto elim: is_red.elims)
  with True assms show ?thesis by (cases pc) (auto simp: up_def)
next
  case False
  with assms(6) have "is_red r" by auto
  then obtain a y b where "r = N RB_RED a y b" by (auto elim: is_red.elims)
  with False assms show ?thesis by (cases pc) (auto simp: up_def)
qed

lemma black_node: "bal t (Suc h) \<Longrightarrow> \<not> is_red t \<Longrightarrow> \<exists>l x r. t = N RB_BLACK l x r"
proof (cases t)
  case (N c l x r)
  then show "\<not> is_red t \<Longrightarrow> ?thesis" by (cases c) auto
qed auto

lemma sibling:
  assumes "pbal ((d, pc, p, tmp) # fs) (Suc h)" "prr ((d, pc, p, tmp) # fs)" "pc' = (if is_red tmp then RB_RED else pc)"
  obtains fs' l x r where
    "d = Left_of \<Longrightarrow> (case tmp of NIL \<Rightarrow> None | N RB_RED l x r \<Rightarrow> Some (RB_RED, l, (Left_of, RB_BLACK, x, r) # fs)
       | N RB_BLACK l x r \<Rightarrow> Some (pc, tmp, fs)) = Some (pc', N RB_BLACK l x r, fs')"
    "d = Right_of \<Longrightarrow> (case tmp of NIL \<Rightarrow> None | N RB_RED l x r \<Rightarrow> Some (RB_RED, r, (Right_of, RB_BLACK, x, l) # fs)
       | N RB_BLACK l x r \<Rightarrow> Some (pc, tmp, fs)) = Some (pc', N RB_BLACK l x r, fs')"
    "bal (N RB_BLACK l x r) (Suc h)" "rr (N RB_BLACK l x r)"
    "pbal fs' (up pc' (Suc h))" "prr fs'" "pc' = RB_RED \<longrightarrow> \<not> red_top fs'"
proof (cases "is_red tmp")
  case True
  then obtain l x r where tmp: "tmp = N RB_RED l x r" by (auto elim: is_red.elims)
  have ch: "bal l (Suc h)" "bal r (Suc h)" "rr l" "rr r" "\<not> is_red l" "\<not> is_red r" using assms(1,2) tmp by auto
  then obtain la lx lr ra rx rr' where lr: "l = N RB_BLACK la lx lr" "r = N RB_BLACK ra rx rr'"
    using black_node [OF ch(1,5)] black_node [OF ch(2,6)] by blast
  have pc: "pc = RB_BLACK" using assms(2) True by (cases pc) auto
  show thesis
  proof (cases d)
    case Left_of
    show thesis by (rule that [of la lx lr "(Left_of, RB_BLACK, x, r) # fs"]) (use assms tmp ch lr pc Left_of in \<open>auto simp: up_def\<close>)
  next
    case Right_of
    show thesis by (rule that [of ra rx rr' "(Right_of, RB_BLACK, x, l) # fs"]) (use assms tmp ch lr pc Right_of in \<open>auto simp: up_def\<close>)
  qed
next
  case False
  have "bal tmp (Suc h)" using assms(1) by simp
  with False obtain l x r where tmp: "tmp = N RB_BLACK l x r" using black_node by blast
  show thesis by (rule that [of l x r fs]) (use assms tmp False in \<open>auto simp: up_def split: if_splits\<close>)
qed

lemma remove_color_inv:
  "bal elm h \<Longrightarrow> rr (paint RB_BLACK elm) \<Longrightarrow> pbal fs (Suc h) \<Longrightarrow> prr fs \<Longrightarrow>
     \<exists>t. remove_color elm fs = Some t \<and> rb_inv t"
proof (induction elm fs arbitrary: h rule: remove_color.induct)
  case (1 elm)
  then show ?case using bal_paint_black [of elm h] by (auto simp: rb_inv_def)
next
  case (2 elm d pc p tmp fs)
  show ?case
  proof (cases "is_red elm")
    case True
    then have "bal (paint RB_BLACK elm) (Suc h)" using 2(3) by (cases elm rule: is_red.cases) auto
    then show ?thesis
      using bal_plug [OF _ 2(5)] rr_plug [OF 2(4) 2(6)] True by (auto simp: rb_inv_def)
  next
    case False
    then have rre: "rr elm" using 2(4) by (cases elm rule: is_red.cases) auto
    have s: "bal tmp (Suc h)" "rr tmp" using 2(5,6) by auto
    \<comment> \<open>the sibling is black, possibly after the rotation\<close>
    define pc' where "pc' = (if is_red tmp then RB_RED else pc)"
    obtain fs' l x r where step:
        "d = Left_of \<Longrightarrow> (case tmp of NIL \<Rightarrow> None | N RB_RED l x r \<Rightarrow> Some (RB_RED, l, (Left_of, RB_BLACK, x, r) # fs)
           | N RB_BLACK l x r \<Rightarrow> Some (pc, tmp, fs)) = Some (pc', N RB_BLACK l x r, fs')"
        "d = Right_of \<Longrightarrow> (case tmp of NIL \<Rightarrow> None | N RB_RED l x r \<Rightarrow> Some (RB_RED, r, (Right_of, RB_BLACK, x, l) # fs)
           | N RB_BLACK l x r \<Rightarrow> Some (pc, tmp, fs)) = Some (pc', N RB_BLACK l x r, fs')"
      and b: "bal (N RB_BLACK l x r) (Suc h)" "rr (N RB_BLACK l x r)"
      and path: "pbal fs' (up pc' (Suc h))" "prr fs'" "pc' = RB_RED \<longrightarrow> \<not> red_top fs'"
      by (rule sibling [OF 2(5,6), of pc'])  (auto simp: pc'_def)
    show ?thesis
    proof (cases "both_black (N RB_BLACK l x r)")
      case True
      note a = absorb [OF 2(3) rre False b True]
      show ?thesis
      proof (cases d)
        case Left_of
        have "\<exists>t. remove_color (N pc' elm p (paint RB_RED (N RB_BLACK l x r))) fs' = Some t \<and> rb_inv t"
          by (rule 2(1) [OF False Left_of step(1) [OF Left_of] refl refl _ True, of "up pc' h"])
            (use a path in \<open>auto simp: up_def split: if_splits\<close>)
        with step(1) [OF Left_of] False Left_of True show ?thesis by simp
      next
        case Right_of
        have "\<exists>t. remove_color (N pc' (paint RB_RED (N RB_BLACK l x r)) p elm) fs' = Some t \<and> rb_inv t"
          by (rule 2(2) [OF False _ step(2) [OF Right_of] refl refl _ True, of "up pc' h"])
            (use a path Right_of in \<open>auto simp: up_def split: if_splits\<close>)
        with step(2) [OF Right_of] False Right_of True show ?thesis by simp
      qed
    next
      case nb: False
      show ?thesis
      proof (cases d)
        case Left_of
        obtain tmp' t where "lift_left (N RB_BLACK l x r) = Some tmp'" "settle_left elm pc' p tmp' = Some t" 
          and t: "bal t (up pc' (Suc h))" "rr t" "is_red t \<longleftrightarrow> pc' = RB_RED"
          using settle_left_inv [OF 2(3) rre False b nb, of pc' p] by blast
        then have "remove_color elm ((d, pc, p, tmp) # fs) = Some (paint RB_BLACK (plug t fs'))"
          using step(1) [OF Left_of] False nb Left_of by (simp del: lift_left.simps settle_left.simps both_black.simps)
        with rb_inv_plug [OF t(1) path(1) t(2) path(2)] t(3) path(3) show ?thesis by simp
      next
        case Right_of
        obtain tmp' t where "lift_right (N RB_BLACK l x r) = Some tmp'" "settle_right elm pc' p tmp' = Some t" 
          and t: "bal t (up pc' (Suc h))" "rr t" "is_red t \<longleftrightarrow> pc' = RB_RED"
          using settle_right_inv [OF 2(3) rre False b nb, of pc' p] by blast
        then have "remove_color elm ((d, pc, p, tmp) # fs) = Some (paint RB_BLACK (plug t fs'))"
          using step(2) [OF Right_of] False nb Right_of by (simp del: lift_right.simps settle_right.simps both_black.simps)
        with rb_inv_plug [OF t(1) path(1) t(2) path(2)] t(3) path(3) show ?thesis by simp
      qed
    qed
  qed
qed

lemma plug_app: "plug t (fs @ gs) = plug (plug t fs) gs"
  by (induction fs arbitrary: t) auto

lemma path_inv:
  "rb_inv (plug t fs) \<Longrightarrow> \<exists>h. bal t h \<and> rr t \<and> pbal fs h \<and> prr fs \<and> (is_red t \<longrightarrow> fs \<noteq> [] \<and> \<not> red_top fs)"
proof (induction fs arbitrary: t)
  case Nil
  then show ?case by (auto simp: rb_inv_def)
next
  case (Cons f fs)
  obtain d c x s where f: "f = (d, c, x, s)" by (cases f)
  from Cons obtain h where "bal (fill t f) h" "rr (fill t f)" "pbal fs h" "prr fs" "is_red (fill t f) \<longrightarrow> fs \<noteq> [] \<and> \<not> red_top fs"
    by auto
  then show ?case by (cases d; cases c) (auto simp: f)
qed

lemma remove_path:
  assumes "bal child k" "rr child" "prr path" "pbal path (up c k)" "c = RB_RED \<longrightarrow> \<not> is_red child"
  shows "\<exists>t. (if c = RB_BLACK then remove_color child path else Some (plug child path)) = Some t \<and>
    (c = RB_RED \<longrightarrow> path \<noteq> [] \<and> \<not> red_top path \<longrightarrow> rb_inv t) \<and> (c = RB_BLACK \<longrightarrow> rb_inv t)"
proof (cases c)
  case RB_BLACK
  with remove_color_inv [of child k path] assms show ?thesis by (auto simp: up_def)
next
  case RB_RED
  with bal_plug [of child k path] rr_plug [of child path] assms show ?thesis by (auto simp: up_def rb_inv_def)
qed

lemma tree_remove_inv:
  assumes "rb_inv (plug (N c l x r) fs)"
  shows "\<exists>t. tree_remove (N c l x r) fs = Some t \<and> rb_inv t"
proof -
  obtain h where h: "bal (N c l x r) h" "rr (N c l x r)" "pbal fs h" "prr fs" "c = RB_RED \<longrightarrow> fs \<noteq> [] \<and> \<not> red_top fs"
    using path_inv [OF assms] by (cases c) auto
  then obtain k where k: "bal l k" "bal r k" "h = up c k" by (cases c) (auto simp: up_def)
  show ?thesis
  proof (cases "l = NIL \<or> r = NIL")
    case True
    then show ?thesis
      using remove_path [of r k fs c] remove_path [of l k fs c] h k by (cases c) auto
  next
    case False
    obtain u gs where lm: "leftmost r [] = (u, gs)" by fastforce
    then obtain c' y w where u: "u = N c' NIL y w" "plug u gs = r" using leftmost_spec [OF lm] False by auto
    let ?path = "gs @ (Right_of, c, y, l) # fs"
    have "rr (N c l y r)" "bal (N c l y r) h" "is_red (N c l y r) \<longrightarrow> fs \<noteq> [] \<and> \<not> red_top fs" using h by (cases c; simp)+
    with bal_plug [of _ h fs] rr_plug [OF _ h(4), of "N c l y r"] h(3) have "rb_inv (plug (N c l y r) fs)" by (auto simp: rb_inv_def)
    then have "rb_inv (plug u ?path)" by (simp add: plug_app u(2))
    from path_inv [OF this] u(1) obtain k' where "bal w k'" "rr w" "prr ?path" "pbal ?path (up c' k')" "c' = RB_RED \<longrightarrow> \<not> is_red w"
      "c' = RB_RED \<longrightarrow> \<not> red_top ?path" by (cases c') (auto simp: up_def)
    with remove_path [of w k' ?path c'] obtain t where
      "(if c' = RB_BLACK then remove_color w ?path else Some (plug w ?path)) = Some t" "rb_inv t" by (cases c') auto
    with False lm u(1) show ?thesis by (auto simp: Let_def)
  qed
qed

section \<open>The search tree\<close>

context node_order
begin

lemma tree_find_inorder: "ordered (inorder t) \<Longrightarrow> tree_find cmp key k t = lookup (inorder t) k"
proof (induction t)
  case (N c l x r)
  have app: "lookup (xs @ ys) k = (case lookup xs k of None \<Rightarrow> lookup ys k | Some n \<Rightarrow> Some n)" for xs ys
    by (induction xs) auto
  have sub: "ordered (inorder l)" "ordered (inorder r)" using N.prems by (auto simp: sorted_wrt_append)
  show ?case
  proof (cases "cmp k (key x)" "0 :: int" rule: linorder_cases)
    case less
    have "lookup (inorder r) k = None"
    proof (rule find_None [THEN iffD2], rule)
      assume "k \<in> key ` set (inorder r)"
      then have "cmp (key x) k < 0" using N.prems by (auto simp: sorted_wrt_append)
      with less cmp_flip [of "key x" k] show False by simp
    qed
    with less N.IH(1) sub show ?thesis by (auto simp: app split: option.split)
  next
    case equal
    then have "lookup (inorder l) k = None"
    proof (intro find_None [THEN iffD2] notI)
      assume "k \<in> key ` set (inorder l)"
      then have "cmp k (key x) < 0" using N.prems by (auto simp: sorted_wrt_append)
      with equal show False by simp
    qed
    with equal show ?thesis by (simp add: app)
  next
    case greater
    have "lookup (inorder l) k = None"
    proof (rule find_None [THEN iffD2], rule)
      assume "k \<in> key ` set (inorder l)"
      then have "cmp k (key x) < 0" using N.prems by (auto simp: sorted_wrt_append)
      with greater show False by simp
    qed
    with greater N.IH(2) sub show ?thesis by (simp add: app)
  qed
qed simp

lemma rb_insert_app_less:
  "(\<And>m. m \<in> set ys \<Longrightarrow> cmp (key n) (key m) < 0) \<Longrightarrow> rb_insert cmp key n (xs @ ys) = rb_insert cmp key n xs @ ys"
proof (induction xs)
  case Nil
  then show ?case by (cases ys) auto
qed auto

lemma rb_insert_app_greater:
  "(\<And>m. m \<in> set xs \<Longrightarrow> cmp (key n) (key m) > 0) \<Longrightarrow> rb_insert cmp key n (xs @ ys) = xs @ rb_insert cmp key n ys"
proof (induction xs)
  case (Cons m xs)
  then have "0 < cmp (key n) (key m)" by simp
  moreover have "rb_insert cmp key n (xs @ ys) = xs @ rb_insert cmp key n ys" using Cons by simp
  ultimately show ?case by simp
qed simp

lemma insert_at_inorder:
  "insert_at cmp key elm t fs = Some t' \<Longrightarrow> ordered (before fs @ inorder t @ after fs) \<Longrightarrow>
     (\<And>m. m \<in> set (before fs) \<Longrightarrow> cmp (key elm) (key m) > 0) \<Longrightarrow> (\<And>m. m \<in> set (after fs) \<Longrightarrow> cmp (key elm) (key m) < 0) \<Longrightarrow>
     inorder t' = rb_insert cmp key elm (before fs @ inorder t @ after fs)"
proof (induction t arbitrary: fs)
  case NIL
  then show ?case using rb_insert_app_greater [of "before fs" elm "after fs"] rb_insert_app_less [of "after fs" elm "[]"]
    by (auto dest!: insert_color_inorder)
next
  case (N c l x r)
  show ?case
  proof (cases "cmp (key elm) (key x)" "0 :: int" rule: linorder_cases)
    case less
    have "cmp (key elm) (key m) < 0" if "m \<in> set (after ((Left_of, c, x, r) # fs))" for m
      using that N.prems(2,4) less cmp_trans [OF less] by (auto simp: sorted_wrt_append)
    with N.IH(1) [of "(Left_of, c, x, r) # fs"] N.prems less show ?thesis by simp
  next
    case equal
    have "rb_insert cmp key elm (x # ys) = x # ys" for ys using equal by simp
    moreover have "cmp (key elm) (key m) > 0" if "m \<in> set (before fs @ inorder l)" for m
      using that N.prems(2) equal cmp_flip [of "key m" "key elm"] cmp_zero [of "key elm" "key x"] by (auto simp: sorted_wrt_append)
    ultimately show ?thesis using rb_insert_app_greater [of "before fs @ inorder l" elm "x # inorder r @ after fs"] N.prems(1) equal
      by auto
  next
    case greater
    have "cmp (key elm) (key m) > 0" if "m \<in> set (before ((Right_of, c, x, l) # fs))" for m
    proof -
      have "cmp (key m) (key x) < 0 \<or> m = x \<or> m \<in> set (before fs)" using that N.prems(2) by (auto simp: sorted_wrt_append)
      then show ?thesis
        using N.prems(3) greater cmp_trans [of "key m" "key x" "key elm"] cmp_flip [of "key x" "key elm"] cmp_flip [of "key m" "key elm"]
        by auto
    qed
    with N.IH(2) [of "(Right_of, c, x, l) # fs"] N.prems greater show ?thesis by simp
  qed
qed

lemma tree_insert_inorder: "tree_insert cmp key elm t = Some t' \<Longrightarrow> ordered (inorder t) \<Longrightarrow> inorder t' = rb_insert cmp key elm (inorder t)"
  using insert_at_inorder [of elm t "[]" t'] by (simp add: tree_insert_def)

end

section \<open>Properties\<close>

text \<open>C21. Removing a node is safe and does only that: for every node of a red-black tree, wherever it is, \<open>RB_REMOVE\<close> with the loop
  that repairs the colours dereferences no \<open>NULL\<close> pointer and returns, the result is again a red-black tree (a black root, no red
  node with a red child, the same number of black nodes on every path), and its nodes in order are the others, unmoved.\<close>

theorem rb_remove_correct:
  assumes "rb_inv (plug (N c l x r) fs)"
  shows "\<exists>t. tree_remove (N c l x r) fs = Some t \<and> rb_inv t \<and> inorder t = before fs @ inorder l @ inorder r @ after fs"
proof -
  obtain t where "tree_remove (N c l x r) fs = Some t" "rb_inv t" using tree_remove_inv [OF assms] by blast
  with tree_remove_inorder [OF this(1)] show ?thesis by blast
qed

theorem rb_remove_correct_witness:
  "\<exists>t. tree_remove (N RB_BLACK NIL (1 :: nat) NIL) [(Left_of, RB_BLACK, 2, N RB_BLACK NIL 3 (N RB_RED NIL 4 NIL))] = Some t \<and> rb_inv t \<and>
     inorder t = before [(Left_of, RB_BLACK, 2, N RB_BLACK NIL 3 (N RB_RED NIL 4 NIL))] @ inorder NIL @ inorder NIL @
       after [(Left_of, RB_BLACK, 2 :: nat, N RB_BLACK NIL 3 (N RB_RED NIL 4 NIL))]"
  by (rule rb_remove_correct) (auto simp: rb_inv_def)

end
