(* ===== verification/Flow_Table.thy ===== *)
theory Flow_Table
  imports Packet_Parse Rb_Tree "HOL-Library.Multiset"
begin

text \<open>
  The table of flows (\<open>flow_tracker.c\<close>, second half): a packet is counted in the flow of its canonical
  key, idle flows expire, and a snapshot lists the flows that changed. The tree of flows is the list
  of its nodes in order (see \<open>Rb_Nodes\<close>); whether \<open>calloc\<close> succeeds is an argument of the step that
  allocates.

  The table is related to a map from keys to flows, and every counted packet is accounted for.
\<close>

section \<open>Flows and the table\<close>

record ps_flow =
  f_key :: ps_flow_key
  f_packets :: "64 word list"
  f_octets :: "64 word list"
  f_tcp_flags :: "byte list"
  flow_start :: "64 word"
  flow_last :: "64 word"
  f_flow_label :: "32 word"

definition le16 :: "16 word \<Rightarrow> bytes" where
  \<comment> \<open>the bytes of a \<open>uint16_t\<close> in memory\<close>
  "le16 w = [ucast w, ucast (drop_bit 8 w)]"

definition key_bytes :: "ps_flow_key \<Rightarrow> bytes" where
  \<comment> \<open>the memory of a key, the byte of padding at the end included, which \<open>memset\<close> has cleared\<close>
  "key_bytes k = [k_af k, k_proto k] @ k_src_addr k @ k_dst_addr k @ le16 (k_src_port k) @ le16 (k_dst_port k) @
     le16 (k_vlan_id k) @ [k_tos k, 0]"

definition flow_compare :: "ps_flow \<Rightarrow> ps_flow \<Rightarrow> int" where
  "flow_compare a b = memcmp (key_bytes (f_key a)) (key_bytes (f_key b))"

record ps_flow_table =
  ft_tree :: "ps_flow list"
  num_flows :: int
  max_flows :: int
  track_level :: int
  timeout_tcp_est :: "64 word"
  timeout_tcp_short :: "64 word"
  timeout_udp :: "64 word"
  timeout_icmp :: "64 word"
  timeout_general :: "64 word"
  timeout_max_lifetime :: "64 word"
  total_packets :: "64 word"
  bad_packets :: "64 word"
  flows_expired :: "64 word"
  flows_dropped :: "64 word"

abbreviation node_key :: "ps_flow \<Rightarrow> bytes" where
  "node_key f \<equiv> key_bytes (f_key f)"

definition flow_idle_timeout :: "ps_flow_table \<Rightarrow> ps_flow \<Rightarrow> 64 word" where
  "flow_idle_timeout ft f =
     (if k_proto (f_key f) = PS_IPPROTO_TCP
      then let all_flags = f_tcp_flags f ! 0 OR f_tcp_flags f ! 1
           in if all_flags AND 5 \<noteq> 0 then timeout_tcp_short ft
              else if all_flags AND 2 = 0 then timeout_general ft
              else timeout_tcp_est ft
      else if k_proto (f_key f) = PS_IPPROTO_UDP then timeout_udp ft
      else if k_proto (f_key f) = PS_IPPROTO_ICMP \<or> k_proto (f_key f) = PS_IPPROTO_ICMPV6 then timeout_icmp ft
      else timeout_general ft)"

definition ps_flow_table_create :: "int \<Rightarrow> int \<Rightarrow> ps_flow_table" where
  "ps_flow_table_create maxf lvl =
     \<lparr>ft_tree = [], num_flows = 0, max_flows = (if maxf > 0 then maxf else 65536), track_level = lvl,
      timeout_tcp_est = 3600 * 1000000, timeout_tcp_short = 30 * 1000000, timeout_udp = 300 * 1000000,
      timeout_icmp = 60 * 1000000, timeout_general = 3600 * 1000000, timeout_max_lifetime = 86400 * 1000000,
      total_packets = 0, bad_packets = 0, flows_expired = 0, flows_dropped = 0\<rparr>"

definition count_packet :: "nat \<Rightarrow> parsed_packet \<Rightarrow> 64 word \<Rightarrow> ps_flow \<Rightarrow> ps_flow" where
  \<comment> \<open>the update of a flow that is in the table\<close>
  "count_packet dir pp ts f =
     f\<lparr>f_packets := (f_packets f)[dir := f_packets f ! dir + 1],
       f_octets := (f_octets f)[dir := f_octets f ! dir + ucast (pp_payload_len pp)],
       f_tcp_flags := (f_tcp_flags f)[dir := f_tcp_flags f ! dir OR pp_tcp_flags pp],
       flow_last := ts\<rparr>"

definition new_flow :: "ps_flow_key \<Rightarrow> nat \<Rightarrow> parsed_packet \<Rightarrow> 64 word \<Rightarrow> ps_flow" where
  "new_flow key dir pp ts =
     \<lparr>f_key = key, f_packets = [0, 0][dir := 1], f_octets = [0, 0][dir := ucast (pp_payload_len pp)],
      f_tcp_flags = [0, 0][dir := pp_tcp_flags pp], flow_start = ts, flow_last = ts,
      f_flow_label = pp_flow_label pp\<rparr>"

definition ps_flow_table_process_packet ::
  "bool \<Rightarrow> ps_flow_table \<Rightarrow> bytes \<Rightarrow> 64 word \<Rightarrow> (int \<times> ps_flow_table) option" where
  \<comment> \<open>\<open>mem\<close>: the allocation of a node succeeds. \<open>None\<close> is a read behind the end of the frame.\<close>
  "ps_flow_table_process_packet mem ft pkt ts =
     (if pkt = [] then Some (- 1, ft)
      else let ft = ft\<lparr>total_packets := total_packets ft + 1\<rparr>
      in case parse_ethernet pkt of
           None \<Rightarrow> None
         | Some None \<Rightarrow> Some (- 1, ft\<lparr>bad_packets := bad_packets ft + 1\<rparr>)
         | Some (Some pp) \<Rightarrow>
             (if \<not> pp_valid pp then Some (- 1, ft\<lparr>bad_packets := bad_packets ft + 1\<rparr>)
              else let (dir, key) = make_flow_key pp (track_level ft)
              in case rb_find memcmp node_key (key_bytes key) (ft_tree ft) of
                   Some _ \<Rightarrow>
                     Some (0, ft\<lparr>ft_tree := rb_update memcmp node_key (key_bytes key) (count_packet dir pp ts) (ft_tree ft)\<rparr>)
                 | None \<Rightarrow>
                     (if num_flows ft \<ge> max_flows ft then Some (- 1, ft\<lparr>flows_dropped := flows_dropped ft + 1\<rparr>)
                      else if \<not> mem then Some (- 1, ft)
                      else Some (0, ft\<lparr>ft_tree := rb_insert memcmp node_key (new_flow key dir pp ts) (ft_tree ft),
                                       num_flows := num_flows ft + 1\<rparr>))))"

definition timed_out :: "ps_flow_table \<Rightarrow> 64 word \<Rightarrow> ps_flow \<Rightarrow> bool" where
  "timed_out ft now f =
     (let idle = flow_idle_timeout ft f;
          elapsed = (if now > flow_last f then now - flow_last f else 0);
          age = (if now > flow_start f then now - flow_start f else 0)
      in elapsed > idle \<or> age > timeout_max_lifetime ft)"

fun expire_scan :: "ps_flow_table \<Rightarrow> 64 word \<Rightarrow> int \<Rightarrow> int \<Rightarrow> ps_flow list \<Rightarrow> ps_flow list \<times> ps_flow list" where
  \<comment> \<open>the loop over the tree: the flows written to \<open>out\<close> and the flows that stay\<close>
  "expire_scan ft now max_out expired [] = ([], [])"
| "expire_scan ft now max_out expired (f # fs) =
     (if expired \<ge> max_out then ([], f # fs)
      else if timed_out ft now f
      then let (out, kept) = expire_scan ft now max_out (expired + 1) fs in (f # out, kept)
      else let (out, kept) = expire_scan ft now max_out expired fs in (out, f # kept))"

definition ps_flow_table_expire :: "ps_flow_table \<Rightarrow> 64 word \<Rightarrow> int \<Rightarrow> ps_flow list \<times> ps_flow_table" where
  \<comment> \<open>the length of the list is the returned value\<close>
  "ps_flow_table_expire ft now max_out =
     (let (out, kept) = expire_scan ft now max_out 0 (ft_tree ft)
      in (out, ft\<lparr>ft_tree := kept, num_flows := num_flows ft - int (length out),
                  flows_expired := flows_expired ft + word_of_nat (length out)\<rparr>))"

definition ps_flow_table_count :: "ps_flow_table \<Rightarrow> int" where
  "ps_flow_table_count ft = num_flows ft"

fun snapshot_scan :: "64 word \<Rightarrow> int \<Rightarrow> int \<Rightarrow> ps_flow list \<Rightarrow> ps_flow list" where
  "snapshot_scan since max_out n [] = []"
| "snapshot_scan since max_out n (f # fs) =
     (if n \<ge> max_out then []
      else if flow_last f > since then f # snapshot_scan since max_out (n + 1) fs
      else snapshot_scan since max_out n fs)"

definition ps_flow_table_snapshot :: "ps_flow_table \<Rightarrow> 64 word \<Rightarrow> int \<Rightarrow> ps_flow list" where
  "ps_flow_table_snapshot ft since max_out =
     (if max_out \<le> 0 then [] else snapshot_scan since max_out 0 (ft_tree ft))"

section \<open>The tree as a map\<close>

interpretation flows: node_order memcmp node_key
  by unfold_locales (rule memcmp_zero, rule memcmp_flip, rule memcmp_trans)

abbreviation flow_map :: "ps_flow_table \<Rightarrow> bytes \<Rightarrow> ps_flow option" where
  "flow_map ft k \<equiv> rb_find memcmp node_key k (ft_tree ft)"

definition ft_inv :: "ps_flow_table \<Rightarrow> bool" where
  "ft_inv ft \<longleftrightarrow> flows.ordered (ft_tree ft) \<and> num_flows ft = int (length (ft_tree ft)) \<and>
     num_flows ft \<le> max_flows ft \<and>
     list_all (\<lambda>f. length (f_packets f) = 2 \<and> length (f_octets f) = 2 \<and> length (f_tcp_flags f) = 2) (ft_tree ft)"

lemma make_flow_key_dir: "fst (make_flow_key pp lvl) < 2"
  by (simp add: make_flow_key_def Let_def)

lemma count_packet_key [simp]: "f_key (count_packet dir pp ts f) = f_key f"
  by (simp add: count_packet_def)

lemma new_flow_key [simp]: "f_key (new_flow key dir pp ts) = key"
  by (simp add: new_flow_def)

lemma new_flow_lens:
  "length (f_packets (new_flow key dir pp ts)) = 2" "length (f_octets (new_flow key dir pp ts)) = 2"
  "length (f_tcp_flags (new_flow key dir pp ts)) = 2"
  by (simp_all add: new_flow_def split: nat.split)

lemma process_cases:
  assumes "ps_flow_table_process_packet mem ft pkt ts = Some (r, ft')" "pkt \<noteq> []"
  obtains (bad) "ft' = ft\<lparr>total_packets := total_packets ft + 1, bad_packets := bad_packets ft + 1\<rparr>"
      "parse_ethernet pkt = Some None" "r = - 1"
    | (hit) pp dir key f where "parse_ethernet pkt = Some (Some pp)" "make_flow_key pp (track_level ft) = (dir, key)"
      "flow_map ft (key_bytes key) = Some f" "r = 0"
      "ft' = ft\<lparr>total_packets := total_packets ft + 1,
                ft_tree := rb_update memcmp node_key (key_bytes key) (count_packet dir pp ts) (ft_tree ft)\<rparr>"
    | (full) pp dir key where "parse_ethernet pkt = Some (Some pp)" "make_flow_key pp (track_level ft) = (dir, key)"
      "flow_map ft (key_bytes key) = None" "num_flows ft \<ge> max_flows ft" "r = - 1"
      "ft' = ft\<lparr>total_packets := total_packets ft + 1, flows_dropped := flows_dropped ft + 1\<rparr>"
    | (nomem) pp dir key where "parse_ethernet pkt = Some (Some pp)" "make_flow_key pp (track_level ft) = (dir, key)"
      "flow_map ft (key_bytes key) = None" "num_flows ft < max_flows ft" "\<not> mem" "r = - 1"
      "ft' = ft\<lparr>total_packets := total_packets ft + 1\<rparr>"
    | (new) pp dir key where "parse_ethernet pkt = Some (Some pp)" "make_flow_key pp (track_level ft) = (dir, key)"
      "flow_map ft (key_bytes key) = None" "num_flows ft < max_flows ft" "mem" "r = 0"
      "ft' = ft\<lparr>total_packets := total_packets ft + 1,
                ft_tree := rb_insert memcmp node_key (new_flow key dir pp ts) (ft_tree ft), num_flows := num_flows ft + 1\<rparr>"
proof (cases "parse_ethernet pkt")
  case None
  then show ?thesis by simp
next
  case (Some res)
  note pe = this
  show ?thesis
  proof (cases res)
    case None
    with pe assms bad show ?thesis by (simp add: ps_flow_table_process_packet_def)
  next
    case (Some pp)
    with pe have v: "pp_valid pp" using parse_ethernet_ok by blast
    obtain dir key where k: "make_flow_key pp (track_level ft) = (dir, key)" by (cases "make_flow_key pp (track_level ft)")
    have step: "(case flow_map ft (key_bytes key) of
                   Some _ \<Rightarrow> Some (0, ft\<lparr>total_packets := total_packets ft + 1,
                     ft_tree := rb_update memcmp node_key (key_bytes key) (count_packet dir pp ts) (ft_tree ft)\<rparr>)
                 | None \<Rightarrow>
                     (if num_flows ft \<ge> max_flows ft
                      then Some (- 1, ft\<lparr>total_packets := total_packets ft + 1, flows_dropped := flows_dropped ft + 1\<rparr>)
                      else if \<not> mem then Some (- 1, ft\<lparr>total_packets := total_packets ft + 1\<rparr>)
                      else Some (0, ft\<lparr>total_packets := total_packets ft + 1,
                        ft_tree := rb_insert memcmp node_key (new_flow key dir pp ts) (ft_tree ft),
                        num_flows := num_flows ft + 1\<rparr>))) = Some (r, ft')"
      using assms pe Some v k by (simp add: ps_flow_table_process_packet_def Let_def cong: option.case_cong if_cong)
    show ?thesis
    proof (cases "flow_map ft (key_bytes key)")
      case None
      with step assms(2) k show ?thesis
        using full [OF pe [unfolded Some] k None] nomem [OF pe [unfolded Some] k None] new [OF pe [unfolded Some] k None]
        by (auto split: if_splits)
    next
      case (Some f)
      with step assms(2) k \<open>res = Some pp\<close> show ?thesis using hit [OF pe [unfolded \<open>res = Some pp\<close>] k Some] by auto
    qed
  qed
qed

section \<open>The invariant and the map\<close>

lemma ft_inv_counters [simp]:
  "ft_inv (ft\<lparr>total_packets := a\<rparr>) = ft_inv ft" "ft_inv (ft\<lparr>total_packets := a, bad_packets := b\<rparr>) = ft_inv ft"
  "ft_inv (ft\<lparr>total_packets := a, flows_dropped := b\<rparr>) = ft_inv ft"
  by (simp_all add: ft_inv_def)

lemma process_inv:
  assumes "ft_inv ft" "ps_flow_table_process_packet mem ft pkt ts = Some (r, ft')"
  shows "ft_inv ft'"
proof (cases "pkt = []")
  case True
  with assms show ?thesis by (simp add: ps_flow_table_process_packet_def)
next
  case False
  from assms(2) False show ?thesis
  proof (cases rule: process_cases)
    case (hit pp dir key f)
    have "flows.ordered (ft_tree ft')"
      using assms(1) hit(5) flows.update_ordered by (simp add: ft_inv_def)
    moreover have "list_all (\<lambda>f. length (f_packets f) = 2 \<and> length (f_octets f) = 2 \<and> length (f_tcp_flags f) = 2) (ft_tree ft')"
      using assms(1) hit(5) flows.update_set [of "key_bytes key" "count_packet dir pp ts" "ft_tree ft"]
      by (fastforce simp: ft_inv_def list_all_iff count_packet_def)
    ultimately show ?thesis using assms(1) hit(5) by (simp add: ft_inv_def flows.update_length)
  next
    case (new pp dir key)
    have fresh: "key_bytes key \<notin> node_key ` set (ft_tree ft)" using new(3) flows.find_None by blast
    have "flows.ordered (ft_tree ft')"
      using assms(1) new(7) fresh flows.insert_ordered by (simp add: ft_inv_def)
    moreover have "set (ft_tree ft') = insert (new_flow key dir pp ts) (set (ft_tree ft))"
      using new(7) fresh flows.insert_set by simp
    moreover have "length (ft_tree ft') = Suc (length (ft_tree ft))"
      using flows.insert_sum [of "new_flow key dir pp ts" "ft_tree ft" "\<lambda>_. 1 :: nat"] fresh new(7)
      by (simp add: sum_list_triv)
    moreover have "num_flows ft' = num_flows ft + 1" "max_flows ft' = max_flows ft" using new(7) by simp_all
    ultimately show ?thesis using assms(1) new(4) unfolding ft_inv_def list_all_iff by (auto simp: new_flow_lens)
  next
    case bad
    with assms(1) show ?thesis by simp
  next
    case full
    with assms(1) show ?thesis by simp
  next
    case nomem
    with assms(1) show ?thesis by simp
  qed
qed

lemma ft_inv_card: "ft_inv ft \<Longrightarrow> num_flows ft = int (card (dom (flow_map ft)))"
proof -
  assume inv: "ft_inv ft"
  have "dom (flow_map ft) = node_key ` set (ft_tree ft)"
  proof (rule set_eqI)
    fix k
    show "k \<in> dom (flow_map ft) \<longleftrightarrow> k \<in> node_key ` set (ft_tree ft)"
      using flows.find_None [of k "ft_tree ft"] by (simp only: domIff not_not)
  qed
  moreover have "distinct (map node_key (ft_tree ft))"
    using inv flows.ordered_distinct by (simp only: ft_inv_def)
  then have "card (node_key ` set (ft_tree ft)) = length (ft_tree ft)"
    using distinct_card by fastforce
  ultimately show ?thesis using inv by (simp add: ft_inv_def)
qed

definition map_process ::
  "bool \<Rightarrow> int \<Rightarrow> (bytes \<rightharpoonup> ps_flow) \<Rightarrow> ps_flow_key \<Rightarrow> nat \<Rightarrow> parsed_packet \<Rightarrow> 64 word \<Rightarrow> int \<times> (bytes \<rightharpoonup> ps_flow)" where
  \<comment> \<open>specification: a map of at most \<open>maxf\<close> flows\<close>
  "map_process mem maxf m key dir pp ts =
     (case m (key_bytes key) of
        Some f \<Rightarrow> (0, m(key_bytes key \<mapsto> count_packet dir pp ts f))
      | None \<Rightarrow> if int (card (dom m)) \<ge> maxf \<or> \<not> mem then (- 1, m)
                else (0, m(key_bytes key \<mapsto> new_flow key dir pp ts)))"

lemma process_refines_lemma:
  assumes "ft_inv ft" "parse_ethernet pkt = Some (Some pp)" "make_flow_key pp (track_level ft) = (dir, key)"
    "ps_flow_table_process_packet mem ft pkt ts = Some (r, ft')"
  shows "(r, flow_map ft') = map_process mem (max_flows ft) (flow_map ft) key dir pp ts"
proof -
  have "pkt \<noteq> []" using assms(2) by (auto simp: parse_ethernet_def)
  note card = ft_inv_card [OF assms(1)]
  from assms(4) \<open>pkt \<noteq> []\<close> show ?thesis
  proof (cases rule: process_cases)
    case (hit pp' dir' key' f)
    with assms(2,3) have e: "pp' = pp" "dir' = dir" "key' = key" by auto
    have "flow_map ft' = (flow_map ft)(key_bytes key \<mapsto> count_packet dir pp ts f)"
      using flows.update_lookup [of "count_packet dir pp ts" "key_bytes key" "ft_tree ft"] hit(3,5)
      by (simp add: e)
    with hit(3,4) show ?thesis by (simp add: map_process_def e)
  next
    case (new pp' dir' key')
    with assms(2,3) have e: "pp' = pp" "dir' = dir" "key' = key" by auto
    have "key_bytes key \<notin> node_key ` set (ft_tree ft)" using new(3) flows.find_None e by blast
    then have "flow_map ft' = (flow_map ft)(key_bytes key \<mapsto> new_flow key dir pp ts)"
      using flows.insert_lookup [of "new_flow key dir pp ts" "ft_tree ft"] new(7) assms(1) by (simp add: e ft_inv_def)
    with new(3,4,5,6) card show ?thesis by (simp add: map_process_def e)
  qed (use assms(2,3) card in \<open>simp_all add: map_process_def\<close>)
qed

lemma expire_scan_spec:
  "expire_scan ft now m e fs = (out, kept) \<Longrightarrow>
     out = take (nat (m - e)) (filter (timed_out ft now) fs) \<and>
     filter (timed_out ft now) kept = drop (nat (m - e)) (filter (timed_out ft now) fs) \<and>
     filter (\<lambda>f. \<not> timed_out ft now f) kept = filter (\<lambda>f. \<not> timed_out ft now f) fs \<and>
     mset fs = mset out + mset kept"
proof (induction ft now m e fs arbitrary: out kept rule: expire_scan.induct)
  case (2 ft now m e f fs)
  show ?case
  proof (cases "e \<ge> m")
    case False
    then have n: "nat (m - e) = Suc (nat (m - (e + 1)))" by simp
    show ?thesis
    proof (cases "timed_out ft now f")
      case True
      obtain o' k' where r: "expire_scan ft now m (e + 1) fs = (o', k')" by fastforce
      with 2(1) [OF False True r] 2(3) True False show ?thesis by (auto simp: n)
    next
      case to: False
      obtain o' k' where r: "expire_scan ft now m e fs = (o', k')" by fastforce
      with 2(2) [OF False to r] 2(3) to False show ?thesis by auto
    qed
  qed (use 2(3) in simp)
qed simp

lemma expire_scan_set:
  assumes "expire_scan ft now m e fs = (out, kept)"
  shows "set fs = set out \<union> set kept" "distinct fs \<Longrightarrow> set out \<inter> set kept = {}"
    "length out + length kept = length fs"
proof -
  have "mset fs = mset (out @ kept)" using expire_scan_spec [OF assms] by simp
  then show "set fs = set out \<union> set kept" "distinct fs \<Longrightarrow> set out \<inter> set kept = {}"
    "length out + length kept = length fs"
    using mset_eq_imp_distinct_iff [of fs "out @ kept"] mset_eq_setD [of fs "out @ kept"] mset_eq_length [of fs "out @ kept"]
    by auto
qed

lemma expire_scan_sorted:
  "expire_scan ft now m e fs = (out, kept) \<Longrightarrow> sorted_wrt R fs \<Longrightarrow> sorted_wrt R kept"
proof (induction ft now m e fs arbitrary: out kept rule: expire_scan.induct)
  case (2 ft now m e f fs)
  show ?case
  proof (cases "e \<ge> m \<or> timed_out ft now f")
    case True
    obtain o' k' where r: "expire_scan ft now m (e + 1) fs = (o', k')" by fastforce
    from 2(4) have "sorted_wrt R fs" by simp
    with 2(1) [OF _ _ r] 2(3,4) r True show ?thesis by (auto split: if_splits)
  next
    case False
    obtain o' k' where r: "expire_scan ft now m e fs = (o', k')" by fastforce
    with 2(3) False have k: "kept = f # k'" by auto
    have "sorted_wrt R k'" using 2(2) [OF _ _ r] 2(4) False by simp
    moreover have "set k' \<subseteq> set fs" using expire_scan_set [OF r] by blast
    ultimately show ?thesis using 2(4) k by auto
  qed
qed simp

lemma expire_scan_sum:
  fixes g :: "ps_flow \<Rightarrow> 'a :: comm_monoid_add"
  shows "expire_scan ft now m e fs = (out, kept) \<Longrightarrow> sum_list (map g fs) = sum_list (map g out) + sum_list (map g kept)"
proof -
  assume "expire_scan ft now m e fs = (out, kept)"
  then have "mset (map g fs) = mset (map g out) + mset (map g kept)" using expire_scan_spec by fastforce
  then show ?thesis by (metis sum_mset.union sum_mset_sum_list)
qed

lemma expire_inv:
  assumes "ft_inv ft" "ps_flow_table_expire ft now m = (out, ft')"
  shows "ft_inv ft'"
proof -
  obtain kept where r: "expire_scan ft now m 0 (ft_tree ft) = (out, kept)"
    and ft': "ft' = ft\<lparr>ft_tree := kept, num_flows := num_flows ft - int (length out),
                  flows_expired := flows_expired ft + word_of_nat (length out)\<rparr>"
    using assms(2) by (auto simp: ps_flow_table_expire_def split: prod.splits)
  have "length out + length kept = length (ft_tree ft)" using expire_scan_set [OF r] by blast
  moreover have "set kept \<subseteq> set (ft_tree ft)" using expire_scan_set [OF r] by blast
  ultimately show ?thesis using assms(1) expire_scan_sorted [OF r] by (auto simp: ft_inv_def ft' list_all_iff)
qed

lemma expire_map:
  assumes "ft_inv ft" "ps_flow_table_expire ft now m = (out, ft')"
  shows "flow_map ft' k = (case flow_map ft k of Some f \<Rightarrow> if f \<in> set out then None else Some f | None \<Rightarrow> None)"
proof -
  have r: "expire_scan ft now m 0 (ft_tree ft) = (out, ft_tree ft')"
    using assms(2) by (auto simp: ps_flow_table_expire_def split: prod.splits)
  have inv': "flows.ordered (ft_tree ft')" using expire_inv [OF assms] by (simp only: ft_inv_def)
  have inv: "flows.ordered (ft_tree ft)" using assms(1) by (simp only: ft_inv_def)
  have "distinct (ft_tree ft)" using flows.ordered_distinct [OF inv] by (simp add: distinct_map)
  note parts = expire_scan_set(1) [OF r] expire_scan_set(2) [OF r this]
  show ?thesis
  proof (cases "flow_map ft k")
    case None
    then have "k \<notin> node_key ` set (ft_tree ft)" by (rule flows.find_None [THEN iffD1])
    with parts(1) have "k \<notin> node_key ` set (ft_tree ft')" by blast
    then have "flow_map ft' k = None" by (rule flows.find_None [THEN iffD2])
    with None show ?thesis by simp
  next
    case (Some f)
    then have f: "node_key f = k" "f \<in> set (ft_tree ft)" using flows.find_key by blast+
    show ?thesis
    proof (cases "f \<in> set out")
      case True
      have "k \<notin> node_key ` set (ft_tree ft')"
      proof
        assume "k \<in> node_key ` set (ft_tree ft')"
        then obtain g where g: "g \<in> set (ft_tree ft')" "node_key g = k" by blast
        with parts(1) have "flow_map ft k = Some g" using flows.find_in [OF inv] by blast
        with Some g True parts(2) show False by auto
      qed
      then have "flow_map ft' k = None" by (rule flows.find_None [THEN iffD2])
      with Some True show ?thesis by simp
    next
      case False
      with f parts(1) have "f \<in> set (ft_tree ft')" by blast
      then have "flow_map ft' k = Some f" using flows.find_in [OF inv'] f(1) by blast
      with Some False show ?thesis by simp
    qed
  qed
qed

section \<open>Accounting for packets\<close>

definition flow_total :: "ps_flow \<Rightarrow> 64 word" where
  "flow_total f = f_packets f ! 0 + f_packets f ! 1"

inductive ft_run :: "ps_flow_table \<Rightarrow> ps_flow list \<Rightarrow> nat \<Rightarrow> bool" where
  \<comment> \<open>a table, the flows that were exported from it, and the packets refused for want of memory\<close>
  create: "ft_run (ps_flow_table_create m lvl) [] 0"
| packet: "ft_run ft ex n \<Longrightarrow> ps_flow_table_process_packet True ft pkt ts = Some (r, ft') \<Longrightarrow> ft_run ft' ex n"
| packet_nomem: "ft_run ft ex n \<Longrightarrow> ps_flow_table_process_packet False ft pkt ts = Some (r, ft') \<Longrightarrow>
    ft_run ft' ex (if pkt \<noteq> [] \<and> r = - 1 \<and> bad_packets ft' = bad_packets ft \<and> flows_dropped ft' = flows_dropped ft
                   then Suc n else n)"
| expire: "ft_run ft ex n \<Longrightarrow> ps_flow_table_expire ft now m = (out, ft') \<Longrightarrow> ft_run ft' (ex @ out) n"

lemma flow_total_new: "dir < 2 \<Longrightarrow> flow_total (new_flow key dir pp ts) = 1"
  by (auto simp: flow_total_def new_flow_def less_2_cases_iff)

lemma flow_total_count: "dir < 2 \<Longrightarrow> length (f_packets f) = 2 \<Longrightarrow> flow_total (count_packet dir pp ts f) = 1 + flow_total f"
  by (auto simp: flow_total_def count_packet_def less_2_cases_iff)

definition balanced :: "ps_flow_table \<Rightarrow> 64 word \<Rightarrow> bool" where
  "balanced ft gone \<longleftrightarrow>
     total_packets ft = bad_packets ft + flows_dropped ft + sum_list (map flow_total (ft_tree ft)) + gone"

lemma process_balanced:
  assumes "ft_inv ft" "balanced ft gone" "ps_flow_table_process_packet mem ft pkt ts = Some (r, ft')"
  shows "balanced ft' (if pkt \<noteq> [] \<and> \<not> mem \<and> r = - 1 \<and> bad_packets ft' = bad_packets ft \<and> flows_dropped ft' = flows_dropped ft
                       then gone + 1 else gone)"
proof (cases "pkt = []")
  case True
  with assms show ?thesis by (simp add: ps_flow_table_process_packet_def)
next
  case False
  from assms(3) False show ?thesis
  proof (cases rule: process_cases)
    case (hit pp dir key f)
    have "dir < 2" using make_flow_key_dir [of pp "track_level ft"] hit(2) by simp
    moreover have "f \<in> set (ft_tree ft)" using flows.find_key [OF hit(3)] by blast
    then have "length (f_packets f) = 2" using assms(1) by (simp add: ft_inv_def list_all_iff)
    ultimately have "sum_list (map flow_total (ft_tree ft')) = 1 + sum_list (map flow_total (ft_tree ft))"
      using flows.update_sum [where g = flow_total and f = "count_packet dir pp ts" and d = 1, OF hit(3)] flow_total_count hit(5)
      by simp
    with hit(4,5) assms(2) show ?thesis by (simp add: balanced_def)
  next
    case (new pp dir key)
    have "dir < 2" using make_flow_key_dir [of pp "track_level ft"] new(2) by simp
    moreover have "key_bytes key \<notin> node_key ` set (ft_tree ft)" using new(3) by (rule flows.find_None [THEN iffD1])
    then have "node_key (new_flow key dir pp ts) \<notin> node_key ` set (ft_tree ft)" by (subst new_flow_key)
    ultimately have "sum_list (map flow_total (ft_tree ft')) = 1 + sum_list (map flow_total (ft_tree ft))"
      using flows.insert_sum [where g = flow_total] flow_total_new new(7) by simp
    with new(6,7) assms(2) show ?thesis by (simp add: balanced_def)
  next
    case bad
    with assms(2) show ?thesis by (simp add: balanced_def)
  next
    case full
    with assms(2) show ?thesis by (simp add: balanced_def)
  next
    case nomem
    with False assms(2) show ?thesis by (simp add: balanced_def)
  qed
qed

lemma expire_balanced:
  assumes "balanced ft gone" "ps_flow_table_expire ft now m = (out, ft')"
  shows "balanced ft' (gone + sum_list (map flow_total out))"
proof -
  obtain kept where r: "expire_scan ft now m 0 (ft_tree ft) = (out, kept)"
    and ft': "ft' = ft\<lparr>ft_tree := kept, num_flows := num_flows ft - int (length out),
                  flows_expired := flows_expired ft + word_of_nat (length out)\<rparr>"
    using assms(2) by (auto simp: ps_flow_table_expire_def split: prod.splits)
  from assms(1) expire_scan_sum [OF r, of flow_total] show ?thesis by (simp add: balanced_def ft' algebra_simps)
qed

lemma ft_run_inv: "ft_run ft ex n \<Longrightarrow> ft_inv ft \<and> balanced ft (sum_list (map flow_total ex) + word_of_nat n)"
proof (induction rule: ft_run.induct)
  case (create m lvl)
  then show ?case by (simp add: ft_inv_def balanced_def ps_flow_table_create_def)
next
  case (packet ft ex n pkt ts r ft')
  then show ?case using process_inv process_balanced [of ft _ True pkt ts r ft'] by auto
next
  case (packet_nomem ft ex n pkt ts r ft')
  then show ?case
    using process_inv process_balanced [of ft "sum_list (map flow_total ex) + word_of_nat n" False pkt ts r ft']
    by (auto simp: ac_simps split: if_splits)
next
  case (expire ft ex n now m out ft')
  then show ?case
    using expire_inv [of ft now m out ft'] expire_balanced [of ft "sum_list (map flow_total ex) + word_of_nat n" now m out ft']
    by (simp add: ac_simps)
qed

lemma process_total: "\<exists>r ft'. ps_flow_table_process_packet mem ft pkt ts = Some (r, ft')"
proof (cases "parse_ethernet pkt")
  case None
  then show ?thesis using parse_ethernet_reads by simp
next
  case (Some res)
  then show ?thesis
    by (cases res) (auto simp: ps_flow_table_process_packet_def Let_def split: option.split prod.split)
qed

section \<open>Properties\<close>

text \<open>C19. The tree of flows does what the table relies on: on a red-black tree whose flows are in order, \<open>RB_FIND\<close> walks to the flow
  with the key if there is one, and \<open>RB_INSERT\<close> with its recolouring and rotations returns a red-black tree without following a \<open>NULL\<close>
  pointer, in which the new flow stands at its place among the others, or which is unchanged if the key was there.\<close>

theorem flow_tree_correct:
  assumes "rb_inv t" "sorted_wrt (\<lambda>a b. flow_compare a b < 0) (inorder t)"
  shows "tree_find memcmp node_key k t = rb_find memcmp node_key k (inorder t) \<and>
    (\<exists>t'. tree_insert memcmp node_key f t = Some t' \<and> rb_inv t' \<and> inorder t' = rb_insert memcmp node_key f (inorder t))"
proof -
  have ord: "flows.ordered (inorder t)" using assms(2) by (simp add: flow_compare_def)
  obtain h where "bal t h" "rr t" "\<not> is_red t" using assms(1) by (auto simp: rb_inv_def)
  then obtain t' where "tree_insert memcmp node_key f t = Some t'" "rb_inv t'"
    using insert_at_inv [of t h "[]" memcmp node_key f] by (auto simp: tree_insert_def)
  with flows.tree_insert_inorder [OF _ ord] flows.tree_find_inorder [OF ord] show ?thesis by blast
qed

definition flow_no :: "8 word \<Rightarrow> ps_flow" where
  "flow_no p = new_flow \<lparr>k_af = 4, k_proto = p, k_src_addr = [], k_dst_addr = [], k_src_port = 0, k_dst_port = 0, k_vlan_id = 0, k_tos = 0\<rparr> 0 zero_packet 0"

theorem flow_tree_correct_witness:
  "tree_find memcmp node_key (node_key (flow_no 6)) (N RB_BLACK NIL (flow_no 1) (N RB_RED NIL (flow_no 6) NIL)) =
     rb_find memcmp node_key (node_key (flow_no 6)) (inorder (N RB_BLACK NIL (flow_no 1) (N RB_RED NIL (flow_no 6) NIL))) \<and>
   (\<exists>t'. tree_insert memcmp node_key (flow_no 17) (N RB_BLACK NIL (flow_no 1) (N RB_RED NIL (flow_no 6) NIL)) = Some t' \<and> rb_inv t' \<and>
     inorder t' = rb_insert memcmp node_key (flow_no 17) (inorder (N RB_BLACK NIL (flow_no 1) (N RB_RED NIL (flow_no 6) NIL))))"
proof (rule flow_tree_correct)
  show "rb_inv (N RB_BLACK NIL (flow_no 1) (N RB_RED NIL (flow_no 6) NIL))" by (auto simp: rb_inv_def)
  show "sorted_wrt (\<lambda>a b. flow_compare a b < 0) (inorder (N RB_BLACK NIL (flow_no 1) (N RB_RED NIL (flow_no 6) NIL)))" by code_simp
qed

definition example_frame :: bytes where
  \<comment> \<open>a UDP datagram from 10.0.0.1 port 53 to 10.0.0.2 port 1000\<close>
  "example_frame = replicate 12 0 @ [8, 0] @
     [0x45, 0, 0, 28, 0, 0, 0, 0, 64, 17, 0, 0, 10, 0, 0, 1, 10, 0, 0, 2] @ [0, 53, 3, 0xE8, 0, 8, 0, 0]"

text \<open>C4. The table of flows implements a map from keys to flows. For a frame that parses, \<open>ps_flow_table_process_packet\<close>
  returns (it never reads behind the frame), keeps the table's invariant (the nodes in strictly increasing order of their key
  bytes, \<open>num_flows\<close> their number and at most \<open>max_flows\<close>), and does to the map what the specification does: the flow of the
  frame's canonical key counts the packet, and a new flow is added if and only if there is room and memory for it.\<close>

theorem flow_process_refines:
  assumes "ft_inv ft" "parse_ethernet pkt = Some (Some pp)" "make_flow_key pp (track_level ft) = (dir, key)"
  shows "\<exists>r ft'. ps_flow_table_process_packet mem ft pkt ts = Some (r, ft') \<and> ft_inv ft' \<and>
    (r, flow_map ft') = map_process mem (max_flows ft) (flow_map ft) key dir pp ts"
proof -
  obtain r ft' where "ps_flow_table_process_packet mem ft pkt ts = Some (r, ft')" using process_total by blast
  with assms process_inv process_refines_lemma show ?thesis by blast
qed

definition example_pp :: parsed_packet where
  "example_pp = (case parse_ethernet example_frame of Some (Some pp) \<Rightarrow> pp | _ \<Rightarrow> zero_packet)"

theorem flow_process_refines_witness:
  "\<exists>r ft'. ps_flow_table_process_packet True (ps_flow_table_create 10 2) example_frame 5 = Some (r, ft') \<and> ft_inv ft' \<and>
    (r, flow_map ft') = map_process True (max_flows (ps_flow_table_create 10 2)) (flow_map (ps_flow_table_create 10 2))
      (snd (make_flow_key example_pp 2)) (fst (make_flow_key example_pp 2)) example_pp 5"
proof (rule flow_process_refines)
  show "ft_inv (ps_flow_table_create 10 2)" by (simp add: ft_inv_def ps_flow_table_create_def)
  show "parse_ethernet example_frame = Some (Some example_pp)" by code_simp
  show "make_flow_key example_pp (track_level (ps_flow_table_create 10 2)) =
    (fst (make_flow_key example_pp 2), snd (make_flow_key example_pp 2))" by (simp add: ps_flow_table_create_def)
qed

text \<open>C5. No packet disappears from the counters: in every run of a table, whatever frames arrive and whenever flows are
  expired, the packets seen are those that did not parse, those refused by a full table, those refused for want of memory, and
  those counted in the flows that are in the table or were exported from it (modulo the width of the counters).\<close>

theorem flow_packets_conserved:
  assumes "ft_run ft ex lost"
  shows "total_packets ft = bad_packets ft + flows_dropped ft + word_of_nat lost +
    sum_list (map flow_total (ft_tree ft)) + sum_list (map flow_total ex)"
  using ft_run_inv [OF assms] by (simp add: balanced_def ac_simps)

definition example_ft :: ps_flow_table where
  "example_ft = snd (the (ps_flow_table_process_packet True (ps_flow_table_create 10 2) example_frame 5))"

lemma example_ft_run: "ps_flow_table_process_packet True (ps_flow_table_create 10 2) example_frame 5 = Some (0, example_ft)"
  by code_simp

theorem flow_packets_conserved_witness:
  "total_packets example_ft = bad_packets example_ft + flows_dropped example_ft + word_of_nat 0 +
     sum_list (map flow_total (ft_tree example_ft)) + sum_list (map flow_total [])"
  by (rule flow_packets_conserved [OF ft_run.packet [OF ft_run.create example_ft_run]])

text \<open>C36. A sweep exports exactly the flows that are due: the flows written to \<open>out\<close> are the first \<open>max_out\<close> flows, in the
  order of the tree, whose idle time or age exceeds its limit; precisely these leave the map, the count and the statistics
  follow, and the flows that are not due all stay.\<close>

theorem flow_expire_exact:
  assumes "ft_inv ft" "ps_flow_table_expire ft now max_out = (out, ft')"
  shows "ft_inv ft' \<and> out = take (nat max_out) (filter (timed_out ft now) (ft_tree ft)) \<and>
    flow_map ft' = (\<lambda>k. case flow_map ft k of Some f \<Rightarrow> if f \<in> set out then None else Some f | None \<Rightarrow> None) \<and>
    filter (\<lambda>f. \<not> timed_out ft now f) (ft_tree ft') = filter (\<lambda>f. \<not> timed_out ft now f) (ft_tree ft) \<and>
    ps_flow_table_count ft' = ps_flow_table_count ft - int (length out) \<and>
    flows_expired ft' = flows_expired ft + word_of_nat (length out)"
proof -
  obtain kept where r: "expire_scan ft now max_out 0 (ft_tree ft) = (out, kept)"
    and ft': "ft' = ft\<lparr>ft_tree := kept, num_flows := num_flows ft - int (length out),
                  flows_expired := flows_expired ft + word_of_nat (length out)\<rparr>"
    using assms(2) by (auto simp: ps_flow_table_expire_def split: prod.splits)
  have "flow_map ft' = (\<lambda>k. case flow_map ft k of Some f \<Rightarrow> if f \<in> set out then None else Some f | None \<Rightarrow> None)"
    by (rule ext) (rule expire_map [OF assms])
  with expire_inv [OF assms] expire_scan_spec [OF r] show ?thesis by (simp add: ft' ps_flow_table_count_def)
qed

theorem flow_expire_exact_witness:
  "ft_inv (snd (ps_flow_table_expire example_ft 400000000 8)) \<and>
   fst (ps_flow_table_expire example_ft 400000000 8) = take (nat 8) (filter (timed_out example_ft 400000000) (ft_tree example_ft)) \<and>
   length (filter (timed_out example_ft 400000000) (ft_tree example_ft)) = 1"
proof -
  have "ft_inv example_ft" using ft_run_inv [OF ft_run.packet [OF ft_run.create example_ft_run]] by blast
  from flow_expire_exact [OF this prod.collapse [symmetric], of 400000000 8] have "ft_inv (snd (ps_flow_table_expire example_ft 400000000 8)) \<and>
   fst (ps_flow_table_expire example_ft 400000000 8) = take (nat 8) (filter (timed_out example_ft 400000000) (ft_tree example_ft))"
    by blast
  moreover have "length (filter (timed_out example_ft 400000000) (ft_tree example_ft)) = 1" by code_simp
  ultimately show ?thesis by blast
qed

lemma timed_out_expire: "timed_out (snd (ps_flow_table_expire ft now m)) = timed_out ft"
  by (auto simp: ps_flow_table_expire_def timed_out_def flow_idle_timeout_def Let_def fun_eq_iff split: prod.split)

lemma expire_due:
  "filter (timed_out ft now) (ft_tree (snd (ps_flow_table_expire ft now m))) =
     drop (nat m) (filter (timed_out ft now) (ft_tree ft))"
proof -
  obtain out kept where r: "expire_scan ft now m 0 (ft_tree ft) = (out, kept)" by fastforce
  with expire_scan_spec [OF r] show ?thesis by (simp add: ps_flow_table_expire_def)
qed

text \<open>Sweeps make progress: however small the output buffer, if it has room for one flow then repeated sweeps at one
  time export every flow that is due, \<open>max_out\<close> at a time, so that \<open>n\<close> sweeps with \<open>n * max_out\<close> at least the number of flows
  leave none behind.\<close>

theorem flow_expire_drains:
  assumes "int (length (ft_tree ft)) \<le> int n * max_out"
  shows "filter (timed_out ft now) (ft_tree (((\<lambda>t. snd (ps_flow_table_expire t now max_out)) ^^ n) ft)) = []"
proof -
  let ?s = "\<lambda>t. snd (ps_flow_table_expire t now max_out)"
  have "timed_out ((?s ^^ k) ft) = timed_out ft \<and>
    filter (timed_out ft now) (ft_tree ((?s ^^ k) ft)) = drop (k * nat max_out) (filter (timed_out ft now) (ft_tree ft))" for k
  proof (induction k)
    case (Suc k)
    then show ?case
      using expire_due [of "(?s ^^ k) ft" now max_out] timed_out_expire [of "(?s ^^ k) ft" now max_out] by simp
  qed simp
  moreover have "length (filter (timed_out ft now) (ft_tree ft)) \<le> n * nat max_out"
  proof -
    have "int n * max_out \<le> int (n * nat max_out)" by (cases "max_out \<ge> 0") (simp_all add: mult_nonneg_nonpos)
    then have "length (ft_tree ft) \<le> n * nat max_out" using assms by linarith
    then show ?thesis using length_filter_le [of "timed_out ft now" "ft_tree ft"] by linarith
  qed
  ultimately show ?thesis by simp
qed

theorem flow_expire_drains_witness:
  "filter (timed_out example_ft 400000000)
     (ft_tree (((\<lambda>t. snd (ps_flow_table_expire t 400000000 1)) ^^ 1) example_ft)) = [] \<and> ft_tree example_ft \<noteq> []"
proof -
  have "int (length (ft_tree example_ft)) \<le> int 1 * 1 \<and> ft_tree example_ft \<noteq> []" by code_simp
  then show ?thesis using flow_expire_drains [of example_ft 1 1 400000000] by blast
qed

end
