(* ===== verification/Netflow_Export.thy ===== *)
theory Netflow_Export
  imports Flow_Table
begin

text \<open>
  The exporter of flows (\<open>agent/src/netflow_export.c\<close>): a batch of flows is written into datagrams of
  NetFlow version 5, version 9 or IPFIX and sent to a collector.

  A buffer is the array of its bytes with the offset of the next one; a write behind the end of the
  array is the result \<open>None\<close>, so that its absence is a theorem. The clock, the outcome of each \<open>sendto\<close>
  and the contents of a fresh buffer are functions in the state of the world, which also counts the
  calls and keeps the datagrams that left.
\<close>

section \<open>Buffers\<close>

type_synonym cursor = "bytes \<times> nat"

definition put :: "cursor \<Rightarrow> bytes \<Rightarrow> cursor option" where
  \<comment> \<open>bytes stored at the offset\<close>
  "put c bs =
     (case c of (buf, off) \<Rightarrow>
        if off + length bs \<le> length buf then Some (take off buf @ bs @ drop (off + length bs) buf, off + length bs)
        else None)"

definition be16 :: "16 word \<Rightarrow> bytes" where
  "be16 v = [ucast (drop_bit 8 v), ucast v]"

definition be32 :: "32 word \<Rightarrow> bytes" where
  "be32 v = [ucast (drop_bit 24 v), ucast (drop_bit 16 v), ucast (drop_bit 8 v), ucast v]"

definition be64 :: "64 word \<Rightarrow> bytes" where
  "be64 v = map (\<lambda>i. ucast (drop_bit (56 - 8 * i) v AND 0xFF)) [0..<8]"

definition put_u8 :: "cursor \<Rightarrow> byte \<Rightarrow> cursor option" where
  "put_u8 c v = put c [v]"

definition put_u16 :: "cursor \<Rightarrow> 16 word \<Rightarrow> cursor option" where
  "put_u16 c v = put c (be16 v)"

definition put_u32 :: "cursor \<Rightarrow> 32 word \<Rightarrow> cursor option" where
  "put_u32 c v = put c (be32 v)"

definition put_u64 :: "cursor \<Rightarrow> 64 word \<Rightarrow> cursor option" where
  "put_u64 c v = put c (be64 v)"

definition put_bytes :: "cursor \<Rightarrow> bytes \<Rightarrow> nat \<Rightarrow> cursor option" where
  "put_bytes c src n = rd_bytes src 0 n \<bind> put c"

lemma put_snd: "put c bs = Some c' \<Longrightarrow> snd c' = snd c + length bs \<and> length (fst c') = length (fst c)"
  by (auto simp: put_def split: prod.splits if_splits)

lemma put_Some: "snd c + length bs \<le> length (fst c) \<Longrightarrow>
    put c bs = Some (take (snd c) (fst c) @ bs @ drop (snd c + length bs) (fst c), snd c + length bs)"
  by (cases c) (simp add: put_def)

lemma put_Nil [simp]: "snd c \<le> length (fst c) \<Longrightarrow> put c [] = Some c"
  by (cases c) (simp add: put_def)

lemma put_put: "(put c a \<bind> (\<lambda>c. put c b)) = put c (a @ b)"
  by (cases c; cases a) (auto simp: put_def min_def ac_simps)

lemma put_put_then: "(put c a \<bind> (\<lambda>c. put c b \<bind> g)) = put c (a @ b) \<bind> g"
  by (simp flip: put_put)

lemma put_behind:
  \<comment> \<open>space that was left out is filled in later\<close>
  assumes "off + length h + length xs \<le> length buf" "put (buf, off + length h) xs = Some (buf', off')"
  shows "put (buf', off) h = Some (take off buf @ h @ xs @ drop (off + length h + length xs) buf, off + length h) \<and>
    off' = off + length h + length xs"
  using assms by (auto simp: put_def min_def)

section \<open>The exporter and the world\<close>

record ps_nf_exporter =
  nf_version :: int
  source_id :: "32 word"
  flow_sequence :: "32 word"
  v9_pkt_sequence :: "32 word"
  boot_time_sec :: "64 word"
  v9_pkts_since_template :: "32 word"
  v9_last_template_sec :: "64 word"

record nf_world =
  w_time :: "nat \<Rightarrow> 64 word"
  w_up :: "nat \<Rightarrow> bool"
  w_stack :: "nat \<Rightarrow> byte"
  w_reads :: nat
  w_sends :: nat
  w_out :: "bytes list"

definition fresh_buf :: "nf_world \<Rightarrow> nat \<Rightarrow> bytes" where
  \<comment> \<open>a local array that is not initialised\<close>
  "fresh_buf w n = map (w_stack w) [0..<n]"

definition now_sec :: "nf_world \<Rightarrow> 32 word \<times> nf_world" where
  "now_sec w = (ucast (w_time w (w_reads w)), w\<lparr>w_reads := w_reads w + 1\<rparr>)"

definition sys_uptime_ms :: "ps_nf_exporter \<Rightarrow> nf_world \<Rightarrow> 32 word \<times> nf_world" where
  "sys_uptime_ms exp w = (let (now, w) = now_sec w in ((now - ucast (boot_time_sec exp)) * 1000, w))"

definition flow_ts_to_uptime :: "ps_nf_exporter \<Rightarrow> 64 word \<Rightarrow> 32 word" where
  "flow_ts_to_uptime exp flow_ts_usec =
     (let flow_sec = flow_ts_usec div 1000000
      in if flow_sec < boot_time_sec exp then 0
         else ucast (flow_sec - boot_time_sec exp) * 1000 + ucast (flow_ts_usec mod 1000000 div 1000))"

definition send_udp :: "nf_world \<Rightarrow> bytes \<Rightarrow> int \<times> nf_world" where
  "send_udp w buf =
     (if w_up w (w_sends w) then (0, w\<lparr>w_sends := w_sends w + 1, w_out := w_out w @ [buf]\<rparr>)
      else (- 1, w\<lparr>w_sends := w_sends w + 1\<rparr>))"

abbreviation NF_MAX_PACKET :: nat where "NF_MAX_PACKET \<equiv> 1400"
abbreviation NFV5_MAX_RECORDS :: nat where "NFV5_MAX_RECORDS \<equiv> 30"
abbreviation NFV5_BUF :: nat where "NFV5_BUF \<equiv> 1464"
abbreviation NFV9_HEADER_LEN :: nat where "NFV9_HEADER_LEN \<equiv> 20"
abbreviation IPFIX_HEADER_LEN :: nat where "IPFIX_HEADER_LEN \<equiv> 16"
abbreviation TEMPLATE_ID_V4 :: "16 word" where "TEMPLATE_ID_V4 \<equiv> 256"
abbreviation TEMPLATE_ID_V6 :: "16 word" where "TEMPLATE_ID_V6 \<equiv> 257"

definition is_v4 :: "ps_flow \<Rightarrow> bool" where "is_v4 f \<longleftrightarrow> k_af (f_key f) = AF_INET"
definition is_v6 :: "ps_flow \<Rightarrow> bool" where "is_v6 f \<longleftrightarrow> k_af (f_key f) = AF_INET6"

abbreviation both_packets :: "ps_flow \<Rightarrow> 64 word" where "both_packets f \<equiv> f_packets f ! 0 + f_packets f ! 1"
abbreviation both_octets :: "ps_flow \<Rightarrow> 64 word" where "both_octets f \<equiv> f_octets f ! 0 + f_octets f ! 1"
abbreviation both_flags :: "ps_flow \<Rightarrow> byte" where "both_flags f \<equiv> f_tcp_flags f ! 0 OR f_tcp_flags f ! 1"

section \<open>NetFlow version 5\<close>

fun v5_scan :: "ps_flow list \<Rightarrow> nat \<Rightarrow> nat \<times> ps_flow list" where
  \<comment> \<open>the number of flows for the next datagram, and the flows behind the scanned ones\<close>
  "v5_scan [] batch = (batch, [])"
| "v5_scan (f # fs) batch =
     (if batch < NFV5_MAX_RECORDS
      then let batch = (if is_v4 f then batch + 1 else batch)
           in if batch \<ge> NFV5_MAX_RECORDS then (batch, fs) else v5_scan fs batch
      else (batch, f # fs))"

definition v5_header :: "ps_nf_exporter \<Rightarrow> nat \<Rightarrow> 32 word \<Rightarrow> 32 word \<Rightarrow> cursor \<Rightarrow> cursor option" where
  "v5_header exp batch uptime unix_secs c = do {
     c \<leftarrow> put_u16 c 5;
     c \<leftarrow> put_u16 c (of_nat batch);
     c \<leftarrow> put_u32 c uptime;
     c \<leftarrow> put_u32 c unix_secs;
     c \<leftarrow> put_u32 c 0;
     c \<leftarrow> put_u32 c (flow_sequence exp);
     c \<leftarrow> put_u8 c 0;
     c \<leftarrow> put_u8 c (ucast (source_id exp AND 0xFF));
     put_u16 c 0
   }"

definition v5_record :: "ps_nf_exporter \<Rightarrow> ps_flow \<Rightarrow> cursor \<Rightarrow> cursor option" where
  "v5_record exp f c = do {
     c \<leftarrow> put_bytes c (k_src_addr (f_key f)) 4;
     c \<leftarrow> put_bytes c (k_dst_addr (f_key f)) 4;
     c \<leftarrow> put_u32 c 0;
     c \<leftarrow> put_u16 c 0;
     c \<leftarrow> put_u16 c 0;
     c \<leftarrow> put_u32 c (ucast (both_packets f));
     c \<leftarrow> put_u32 c (ucast (both_octets f));
     c \<leftarrow> put_u32 c (flow_ts_to_uptime exp (flow_start f));
     c \<leftarrow> put_u32 c (flow_ts_to_uptime exp (flow_last f));
     c \<leftarrow> put_u16 c (k_src_port (f_key f));
     c \<leftarrow> put_u16 c (k_dst_port (f_key f));
     c \<leftarrow> put_u8 c 0;
     c \<leftarrow> put_u8 c (both_flags f);
     c \<leftarrow> put_u8 c (k_proto (f_key f));
     c \<leftarrow> put_u8 c (k_tos (f_key f));
     c \<leftarrow> put_u16 c 0;
     c \<leftarrow> put_u16 c 0;
     c \<leftarrow> put_u8 c 0;
     c \<leftarrow> put_u8 c 0;
     put_u16 c 0
   }"

fun v5_fill :: "ps_nf_exporter \<Rightarrow> nat \<Rightarrow> nat \<Rightarrow> ps_flow list \<Rightarrow> cursor \<Rightarrow> (nat \<times> cursor \<times> ps_flow list) option" where
  \<comment> \<open>the loop over the records: the number written, the buffer, and the flows that are left\<close>
  "v5_fill exp batch written [] c = Some (written, c, [])"
| "v5_fill exp batch written (f # fs) c =
     (if written < batch
      then if \<not> is_v4 f then v5_fill exp batch written fs c
           else do { c \<leftarrow> v5_record exp f c; v5_fill exp batch (written + 1) fs c }
      else Some (written, c, f # fs))"

lemma v5_fill_rest:
  "v5_fill exp batch written flows c = Some (n, c', rest) \<Longrightarrow> length rest \<le> length flows \<and>
     (written < batch \<and> flows \<noteq> [] \<longrightarrow> length rest < length flows)"
proof (induction exp batch written flows c rule: v5_fill.induct)
  case (2 exp batch written f fs c)
  then show ?case by (fastforce split: if_splits bind_splits)
qed simp

lemma v5_scan_rest:
  "v5_scan flows batch = (b, rest) \<Longrightarrow> length rest \<le> length flows \<and>
     (batch < NFV5_MAX_RECORDS \<and> flows \<noteq> [] \<longrightarrow> length rest < length flows)"
  by (induction flows batch rule: v5_scan.induct) (fastforce simp: Let_def split: if_splits)+

function export_v5_loop ::
  "ps_nf_exporter \<Rightarrow> nf_world \<Rightarrow> int \<Rightarrow> ps_flow list \<Rightarrow> (int \<times> ps_nf_exporter \<times> nf_world) option" where
  \<comment> \<open>the flows from \<open>flow_idx\<close> on, and the number of datagrams sent\<close>
  "export_v5_loop exp w packets_sent flows =
     (if flows = [] then Some (packets_sent, exp, w)
      else let (batch, scanned) = v5_scan flows 0
      in if batch = 0 then export_v5_loop exp w packets_sent scanned
      else let (uptime, w) = sys_uptime_ms exp w; (unix_secs, w) = now_sec w
      in case v5_header exp batch uptime unix_secs (fresh_buf w NFV5_BUF, 0) of
           None \<Rightarrow> None
         | Some c \<Rightarrow>
             (case v5_fill exp batch 0 flows c of
                None \<Rightarrow> None
              | Some (written, (buf, off), flows') \<Rightarrow>
                  (let (rc, w) = send_udp w (take off buf)
                   in if rc = 0
                      then export_v5_loop (exp\<lparr>flow_sequence := flow_sequence exp + of_nat written\<rparr>) w (packets_sent + 1) flows'
                      else export_v5_loop exp w packets_sent flows')))"
  by pat_completeness auto
termination
  by (relation "measure (\<lambda>(exp, w, n, flows). length flows)") (auto dest: v5_scan_rest [OF sym] v5_fill_rest)

declare export_v5_loop.simps [simp del]

definition export_v5 :: "ps_nf_exporter \<Rightarrow> nf_world \<Rightarrow> ps_flow list \<Rightarrow> (int \<times> ps_nf_exporter \<times> nf_world) option" where
  "export_v5 exp w flows = export_v5_loop exp w 0 flows"

section \<open>NetFlow version 9\<close>

type_synonym nf9_template = "(16 word \<times> 16 word) list"

definition tmpl_v4_fields :: nf9_template where
  "tmpl_v4_fields = [(8, 4), (12, 4), (7, 2), (11, 2), (4, 1), (1, 4), (2, 4), (6, 1), (5, 1), (22, 4), (21, 4)]"

definition tmpl_v6_fields :: nf9_template where
  "tmpl_v6_fields = [(27, 16), (28, 16), (7, 2), (11, 2), (4, 1), (1, 4), (2, 4), (6, 1), (31, 4), (22, 4), (21, 4)]"

abbreviation TMPL_V4_RECORD_LEN :: nat where "TMPL_V4_RECORD_LEN \<equiv> 31"
abbreviation TMPL_V6_RECORD_LEN :: nat where "TMPL_V6_RECORD_LEN \<equiv> 58"

definition pad4 :: "nat \<Rightarrow> nat" where
  \<comment> \<open>\<open>(n + 3) & ~3\<close>\<close>
  "pad4 n = (n + 3) div 4 * 4"

definition pad_to :: "cursor \<Rightarrow> nat \<Rightarrow> cursor option" where
  \<comment> \<open>the loop that stores zeros up to an offset\<close>
  "pad_to c n = put c (replicate (n - snd c) 0)"

definition write_v9_header :: "bytes \<Rightarrow> 16 word \<Rightarrow> 32 word \<Rightarrow> 32 word \<Rightarrow> 32 word \<Rightarrow> 32 word \<Rightarrow> cursor option" where
  "write_v9_header buf nrecords uptime unix_secs sequence src_id = do {
     c \<leftarrow> put_u16 (buf, 0) 9;
     c \<leftarrow> put_u16 c nrecords;
     c \<leftarrow> put_u32 c uptime;
     c \<leftarrow> put_u32 c unix_secs;
     c \<leftarrow> put_u32 c sequence;
     put_u32 c src_id
   }"

fun put_fields :: "cursor \<Rightarrow> nf9_template \<Rightarrow> cursor option" where
  "put_fields c [] = Some c"
| "put_fields c ((type, len) # fds) = do {
     c \<leftarrow> put_u16 c type;
     c \<leftarrow> put_u16 c len;
     put_fields c fds
   }"

definition write_template_flowset :: "cursor \<Rightarrow> nat \<Rightarrow> 16 word \<Rightarrow> nf9_template \<Rightarrow> (int \<times> cursor) option" where
  \<comment> \<open>the returned length, and the buffer with the offset behind the set\<close>
  "write_template_flowset c max_len template_id fds =
     (let flowset_len = 4 + 4 + length fds * 4;
          padded_len = pad4 flowset_len;
          start = snd c
      in if padded_len > max_len then Some (- 1, c)
         else do {
           c \<leftarrow> put_u16 c 0;
           c \<leftarrow> put_u16 c (of_nat padded_len);
           c \<leftarrow> put_u16 c template_id;
           c \<leftarrow> put_u16 c (of_nat (length fds));
           c \<leftarrow> put_fields c fds;
           c \<leftarrow> pad_to c (start + padded_len);
           Some (int padded_len, c)
         })"

definition write_v4_data_record :: "ps_nf_exporter \<Rightarrow> ps_flow \<Rightarrow> cursor \<Rightarrow> cursor option" where
  "write_v4_data_record exp f c = do {
     c \<leftarrow> put_bytes c (k_src_addr (f_key f)) 4;
     c \<leftarrow> put_bytes c (k_dst_addr (f_key f)) 4;
     c \<leftarrow> put_u16 c (k_src_port (f_key f));
     c \<leftarrow> put_u16 c (k_dst_port (f_key f));
     c \<leftarrow> put_u8 c (k_proto (f_key f));
     c \<leftarrow> put_u32 c (ucast (both_octets f));
     c \<leftarrow> put_u32 c (ucast (both_packets f));
     c \<leftarrow> put_u8 c (both_flags f);
     c \<leftarrow> put_u8 c (k_tos (f_key f));
     c \<leftarrow> put_u32 c (flow_ts_to_uptime exp (flow_start f));
     put_u32 c (flow_ts_to_uptime exp (flow_last f))
   }"

definition write_v6_data_record :: "ps_nf_exporter \<Rightarrow> ps_flow \<Rightarrow> cursor \<Rightarrow> cursor option" where
  "write_v6_data_record exp f c = do {
     c \<leftarrow> put_bytes c (k_src_addr (f_key f)) 16;
     c \<leftarrow> put_bytes c (k_dst_addr (f_key f)) 16;
     c \<leftarrow> put_u16 c (k_src_port (f_key f));
     c \<leftarrow> put_u16 c (k_dst_port (f_key f));
     c \<leftarrow> put_u8 c (k_proto (f_key f));
     c \<leftarrow> put_u32 c (ucast (both_octets f));
     c \<leftarrow> put_u32 c (ucast (both_packets f));
     c \<leftarrow> put_u8 c (both_flags f);
     c \<leftarrow> put_u32 c (f_flow_label f);
     c \<leftarrow> put_u32 c (flow_ts_to_uptime exp (flow_start f));
     put_u32 c (flow_ts_to_uptime exp (flow_last f))
   }"

definition need_template :: "ps_nf_exporter \<Rightarrow> nf_world \<Rightarrow> bool \<times> nf_world" where
  "need_template exp w =
     (let (now, w) = now_sec w
      in (v9_pkts_since_template exp \<ge> 20 \<or> now - ucast (v9_last_template_sec exp) \<ge> 300 \<or> v9_last_template_sec exp = 0, w))"

fun data_records ::
  "(ps_flow \<Rightarrow> cursor \<Rightarrow> cursor option) \<Rightarrow> nat \<Rightarrow> cursor \<Rightarrow> ps_flow list \<Rightarrow> (nat \<times> cursor \<times> ps_flow list) option" where
  \<comment> \<open>the loop that writes records while one more fits: the number, the buffer, and the flows that are left\<close>
  "data_records wr len c [] = Some (0, c, [])"
| "data_records wr len c (f # fs) =
     (if snd c + len \<le> NF_MAX_PACKET
      then do { c \<leftarrow> wr f c; (n, c, rest) \<leftarrow> data_records wr len c fs; Some (n + 1, c, rest) }
      else Some (0, c, f # fs))"

definition v9_data_flowset ::
  "(ps_flow \<Rightarrow> cursor \<Rightarrow> cursor option) \<Rightarrow> nat \<Rightarrow> 16 word \<Rightarrow> cursor \<Rightarrow> ps_flow list \<Rightarrow> (nat \<times> cursor \<times> ps_flow list) option" where
  \<comment> \<open>the number of sets written, 0 or 1\<close>
  "v9_data_flowset wr len template_id c flows =
     (let (buf, fs_header_off) = c
      in do {
        (records, (buf, off), rest) \<leftarrow> data_records wr len (buf, fs_header_off + 4) flows;
        if records > 0 then do {
          (buf, off) \<leftarrow> pad_to (buf, off) (fs_header_off + pad4 (off - fs_header_off));
          h \<leftarrow> put_u16 (buf, fs_header_off) template_id;
          (buf, _) \<leftarrow> put_u16 h (of_nat (off - fs_header_off));
          Some (1, (buf, off), rest)
        }
        else Some (0, (buf, fs_header_off), rest)
      })"

definition v9_templates :: "bool \<Rightarrow> cursor \<Rightarrow> (nat \<times> cursor) option" where
  \<comment> \<open>\<open>any6\<close>: the batch has IPv6 flows\<close>
  "v9_templates any6 c = do {
     (tmpl_len, c) \<leftarrow> write_template_flowset c (NF_MAX_PACKET - snd c) TEMPLATE_ID_V4 tmpl_v4_fields;
     let n = (if tmpl_len > 0 then 1 else 0);
     if any6 then do {
       (tmpl_len, c) \<leftarrow> write_template_flowset c (NF_MAX_PACKET - snd c) TEMPLATE_ID_V6 tmpl_v6_fields;
       Some (if tmpl_len > 0 then n + 1 else n, c)
     }
     else Some (n, c)
   }"

definition v9_packet ::
  "ps_nf_exporter \<Rightarrow> bool \<Rightarrow> bool \<Rightarrow> bytes \<Rightarrow> ps_flow list \<Rightarrow> ps_flow list \<Rightarrow>
   (nat \<times> cursor \<times> ps_flow list \<times> ps_flow list) option" where
  \<comment> \<open>the sets of one datagram: their number, the buffer, and the flows of each family that are left\<close>
  "v9_packet exp send_tmpl any6 buf v4 v6 = do {
     (n, c) \<leftarrow> (if send_tmpl then v9_templates any6 (buf, NFV9_HEADER_LEN) else Some (0, (buf, NFV9_HEADER_LEN)));
     (n4, c, v4) \<leftarrow> (if v4 \<noteq> [] then v9_data_flowset (write_v4_data_record exp) TMPL_V4_RECORD_LEN TEMPLATE_ID_V4 c v4
                    else Some (0, c, v4));
     (n6, c, v6) \<leftarrow> (if v6 \<noteq> [] \<and> snd c + 4 + TMPL_V6_RECORD_LEN \<le> NF_MAX_PACKET
                    then v9_data_flowset (write_v6_data_record exp) TMPL_V6_RECORD_LEN TEMPLATE_ID_V6 c v6
                    else Some (0, c, v6));
     Some (n + n4 + n6, c, v4, v6)
   }"

lemma put_u_snd:
  "put_u8 c b = Some c' \<Longrightarrow> snd c' = snd c + 1" "put_u16 c h = Some c' \<Longrightarrow> snd c' = snd c + 2"
  "put_u32 c x = Some c' \<Longrightarrow> snd c' = snd c + 4" "put_u64 c q = Some c' \<Longrightarrow> snd c' = snd c + 8"
  "put_bytes c src n = Some c' \<Longrightarrow> snd c' = snd c + n" "pad_to c n = Some c' \<Longrightarrow> snd c \<le> n \<Longrightarrow> snd c' = n"
  by (auto simp: put_u8_def put_u16_def put_u32_def put_u64_def put_bytes_def pad_to_def rd_bytes_def be16_def be32_def be64_def
      bind_eq_Some_conv dest!: put_snd split: if_splits)

lemma put_fields_snd: "put_fields c fds = Some c' \<Longrightarrow> snd c' = snd c + 4 * length fds"
proof (induction c fds arbitrary: c' rule: put_fields.induct)
  case (2 c type len fds)
  then obtain d e where "put_u16 c type = Some d" "put_u16 d len = Some e" "put_fields e fds = Some c'"
    by (auto simp: bind_eq_Some_conv)
  with 2 show ?case by (auto dest!: put_u_snd)
qed simp

lemma write_template_flowset_snd:
  "write_template_flowset c m tid fds = Some (n, c') \<Longrightarrow> snd c' \<le> snd c + pad4 (8 + length fds * 4)"
  by (auto simp: write_template_flowset_def Let_def bind_eq_Some_conv pad4_def dest!: put_u_snd put_fields_snd split: if_splits)

lemma data_records_rest:
  "data_records wr len c flows = Some (n, c', rest) \<Longrightarrow> rest = drop n flows \<and> n \<le> length flows \<and>
     (flows \<noteq> [] \<and> snd c + len \<le> NF_MAX_PACKET \<longrightarrow> 0 < n)"
proof (induction wr len c flows arbitrary: n c' rest rule: data_records.induct)
  case (2 wr len c f fs)
  then show ?case by (auto simp: bind_eq_Some_conv split: if_splits)
qed simp

lemma v9_data_flowset_rest:
  "v9_data_flowset wr len tid c flows = Some (n, c', rest) \<Longrightarrow> length rest \<le> length flows \<and>
     (flows \<noteq> [] \<and> snd c + 4 + len \<le> NF_MAX_PACKET \<longrightarrow> length rest < length flows)"
  by (auto simp: v9_data_flowset_def bind_eq_Some_conv Let_def split: prod.splits if_splits dest!: data_records_rest)

lemma v9_templates_snd:
  assumes "v9_templates any6 c = Some (n, c')"
  shows "snd c' \<le> snd c + 104"
proof -
  have len: "pad4 (8 + length tmpl_v4_fields * 4) = 52" "pad4 (8 + length tmpl_v6_fields * 4) = 52"
    by (simp_all add: pad4_def tmpl_v4_fields_def tmpl_v6_fields_def)
  obtain k d where d: "write_template_flowset c (NF_MAX_PACKET - snd c) TEMPLATE_ID_V4 tmpl_v4_fields = Some (k, d)"
    and c': "c' = d \<or> (\<exists>j. write_template_flowset d (NF_MAX_PACKET - snd d) TEMPLATE_ID_V6 tmpl_v6_fields = Some (j, c'))"
    using assms by (auto simp: v9_templates_def bind_eq_Some_conv Let_def split: if_splits)
  from write_template_flowset_snd [OF d] c' show ?thesis by (auto simp: len dest!: write_template_flowset_snd)
qed

lemma v9_packet_rest:
  assumes "v9_packet exp t any6 buf v4 v6 = Some (n, c, v4', v6')" "v4 \<noteq> [] \<or> v6 \<noteq> []"
  shows "length v4' + length v6' < length v4 + length v6"
proof -
  from assms(1) obtain m d m4 d4 m6 where
    t: "(if t then v9_templates any6 (buf, NFV9_HEADER_LEN) else Some (0, (buf, NFV9_HEADER_LEN))) = Some (m, d)"
    and d4: "(if v4 \<noteq> [] then v9_data_flowset (write_v4_data_record exp) TMPL_V4_RECORD_LEN TEMPLATE_ID_V4 d v4
              else Some (0, d, v4)) = Some (m4, d4, v4')"
    and d6: "(if v6 \<noteq> [] \<and> snd d4 + 4 + TMPL_V6_RECORD_LEN \<le> NF_MAX_PACKET
              then v9_data_flowset (write_v6_data_record exp) TMPL_V6_RECORD_LEN TEMPLATE_ID_V6 d4 v6
              else Some (0, d4, v6)) = Some (m6, c, v6')"
    by (auto simp: v9_packet_def bind_eq_Some_conv)
  have d: "snd d \<le> 124"
    using t by (auto dest!: v9_templates_snd split: if_splits)
  show ?thesis
  proof (cases "v4 = []")
    case True
    with d4 d6 d assms(2) show ?thesis by (auto dest!: v9_data_flowset_rest)
  next
    case False
    with d4 d have "length v4' < length v4" by (auto dest!: v9_data_flowset_rest)
    moreover have "length v6' \<le> length v6" using d6 by (auto dest!: v9_data_flowset_rest split: if_splits)
    ultimately show ?thesis by simp
  qed
qed

function export_v9_loop ::
  "ps_nf_exporter \<Rightarrow> nf_world \<Rightarrow> 32 word \<Rightarrow> 32 word \<Rightarrow> bool \<Rightarrow> int \<Rightarrow> ps_flow list \<Rightarrow> ps_flow list \<Rightarrow>
   (int \<times> ps_nf_exporter \<times> nf_world) option" where
  \<comment> \<open>the flows of each family that are not sent yet, and the number of datagrams sent\<close>
  "export_v9_loop exp w uptime unix_secs any6 packets_sent v4 v6 =
     (if v4 = [] \<and> v6 = [] then Some (packets_sent, exp, w)
      else let (send_tmpl, w) = need_template exp w
      in case v9_packet exp send_tmpl any6 (fresh_buf w NF_MAX_PACKET) v4 v6 of
           None \<Rightarrow> None
         | Some (flowset_count, (buf, off), v4', v6') \<Rightarrow>
             (let exp = (if send_tmpl then exp\<lparr>v9_pkts_since_template := 0, v9_last_template_sec := ucast unix_secs\<rparr> else exp)
              in if flowset_count = 0 then Some (packets_sent, exp, w)
              else case write_v9_header buf (of_nat flowset_count) uptime unix_secs (v9_pkt_sequence exp) (source_id exp) of
                     None \<Rightarrow> None
                   | Some (buf, _) \<Rightarrow>
                       (let (rc, w) = send_udp w (take off buf)
                        in if rc = 0
                           then export_v9_loop (exp\<lparr>v9_pkt_sequence := v9_pkt_sequence exp + 1,
                                    v9_pkts_since_template := v9_pkts_since_template exp + 1\<rparr>)
                                  w uptime unix_secs any6 (packets_sent + 1) v4' v6'
                           else export_v9_loop exp w uptime unix_secs any6 packets_sent v4' v6')))"
  by pat_completeness auto
termination
  by (relation "measure (\<lambda>(exp, w, u, t, a, n, v4, v6). length v4 + length v6)") (auto dest: v9_packet_rest)

declare export_v9_loop.simps [simp del]

definition export_v9 :: "ps_nf_exporter \<Rightarrow> nf_world \<Rightarrow> ps_flow list \<Rightarrow> (int \<times> ps_nf_exporter \<times> nf_world) option" where
  \<comment> \<open>the arrays of indices are the lists of the flows they select\<close>
  "export_v9 exp w flows =
     (let (uptime, w) = sys_uptime_ms exp w;
          (unix_secs, w) = now_sec w;
          v4 = filter is_v4 flows;
          v6 = filter (\<lambda>f. \<not> is_v4 f \<and> is_v6 f) flows
      in case export_v9_loop exp w uptime unix_secs (v6 \<noteq> []) 0 v4 v6 of
           None \<Rightarrow> None
         | Some (packets_sent, exp, w) \<Rightarrow>
             Some (packets_sent, exp\<lparr>flow_sequence := flow_sequence exp + of_nat (length flows)\<rparr>, w))"

section \<open>IPFIX\<close>

definition ipfix_v4_fields :: nf9_template where
  "ipfix_v4_fields = [(8, 4), (12, 4), (7, 2), (11, 2), (4, 1), (6, 1), (5, 1), (85, 8), (86, 8), (152, 8), (153, 8)]"

definition ipfix_v6_fields :: nf9_template where
  "ipfix_v6_fields = [(27, 16), (28, 16), (7, 2), (11, 2), (4, 1), (6, 1), (31, 4), (85, 8), (86, 8), (152, 8), (153, 8)]"

abbreviation IPFIX_V4_REC_LEN :: nat where "IPFIX_V4_REC_LEN \<equiv> 47"
abbreviation IPFIX_V6_REC_LEN :: nat where "IPFIX_V6_REC_LEN \<equiv> 74"
abbreviation IPFIX_MAX_FLOWS :: nat where "IPFIX_MAX_FLOWS \<equiv> 960"

definition write_ipfix_template :: "cursor \<Rightarrow> 16 word \<Rightarrow> nf9_template \<Rightarrow> cursor option" where
  "write_ipfix_template c template_id fds = do {
     c \<leftarrow> put_u16 c 2;
     c \<leftarrow> put_u16 c (of_nat (4 + 4 + length fds * 4));
     c \<leftarrow> put_u16 c template_id;
     c \<leftarrow> put_u16 c (of_nat (length fds));
     put_fields c fds
   }"

definition write_ipfix_v4_record :: "ps_flow \<Rightarrow> cursor \<Rightarrow> cursor option" where
  "write_ipfix_v4_record f c = do {
     c \<leftarrow> put_bytes c (k_src_addr (f_key f)) 4;
     c \<leftarrow> put_bytes c (k_dst_addr (f_key f)) 4;
     c \<leftarrow> put_u16 c (k_src_port (f_key f));
     c \<leftarrow> put_u16 c (k_dst_port (f_key f));
     c \<leftarrow> put_u8 c (k_proto (f_key f));
     c \<leftarrow> put_u8 c (both_flags f);
     c \<leftarrow> put_u8 c (k_tos (f_key f));
     c \<leftarrow> put_u64 c (both_octets f);
     c \<leftarrow> put_u64 c (both_packets f);
     c \<leftarrow> put_u64 c (flow_start f div 1000);
     put_u64 c (flow_last f div 1000)
   }"

definition write_ipfix_v6_record :: "ps_flow \<Rightarrow> cursor \<Rightarrow> cursor option" where
  "write_ipfix_v6_record f c = do {
     c \<leftarrow> put_bytes c (k_src_addr (f_key f)) 16;
     c \<leftarrow> put_bytes c (k_dst_addr (f_key f)) 16;
     c \<leftarrow> put_u16 c (k_src_port (f_key f));
     c \<leftarrow> put_u16 c (k_dst_port (f_key f));
     c \<leftarrow> put_u8 c (k_proto (f_key f));
     c \<leftarrow> put_u8 c (both_flags f);
     c \<leftarrow> put_u32 c (f_flow_label f);
     c \<leftarrow> put_u64 c (both_octets f);
     c \<leftarrow> put_u64 c (both_packets f);
     c \<leftarrow> put_u64 c (flow_start f div 1000);
     put_u64 c (flow_last f div 1000)
   }"

fun ipfix_split :: "nat \<Rightarrow> ps_flow list \<Rightarrow> ps_flow list \<times> ps_flow list" where
  \<comment> \<open>the loop that fills the two arrays of indices; the first argument is the room that is left\<close>
  "ipfix_split room [] = ([], [])"
| "ipfix_split room (f # fs) =
     (if room = 0 then ([], [])
      else if is_v4 f then let (v4, v6) = ipfix_split (room - 1) fs in (f # v4, v6)
      else if is_v6 f then let (v4, v6) = ipfix_split (room - 1) fs in (v4, f # v6)
      else ipfix_split room fs)"

definition ipfix_data_set ::
  "(ps_flow \<Rightarrow> cursor \<Rightarrow> cursor option) \<Rightarrow> nat \<Rightarrow> 16 word \<Rightarrow> cursor \<Rightarrow> ps_flow list \<Rightarrow> (cursor \<times> ps_flow list) option" where
  "ipfix_data_set wr len template_id c flows =
     (let set_start = snd c
      in do {
        c \<leftarrow> put_u16 c template_id;
        let set_len_pos = snd c;
        c \<leftarrow> put_u16 c 0;
        let rec_start = snd c;
        (_, (buf, off), rest) \<leftarrow> data_records wr len c flows;
        if off = rec_start then Some ((buf, set_start), rest)
        else do {
          (buf, _) \<leftarrow> put_u16 (buf, set_len_pos) (of_nat (off - set_start));
          Some ((buf, off), rest)
        }
      })"

definition ipfix_packet ::
  "bool \<Rightarrow> bytes \<Rightarrow> ps_flow list \<Rightarrow> ps_flow list \<Rightarrow> (cursor \<times> ps_flow list \<times> ps_flow list) option" where
  \<comment> \<open>the sets of one message\<close>
  "ipfix_packet send_tmpl buf v4 v6 = do {
     c \<leftarrow> (if send_tmpl then do {
              c \<leftarrow> write_ipfix_template (buf, IPFIX_HEADER_LEN) TEMPLATE_ID_V4 ipfix_v4_fields;
              write_ipfix_template c TEMPLATE_ID_V6 ipfix_v6_fields
            }
          else Some (buf, IPFIX_HEADER_LEN));
     (c, v4) \<leftarrow> (if v4 \<noteq> [] then ipfix_data_set write_ipfix_v4_record IPFIX_V4_REC_LEN TEMPLATE_ID_V4 c v4 else Some (c, v4));
     (c, v6) \<leftarrow> (if v6 \<noteq> [] then ipfix_data_set write_ipfix_v6_record IPFIX_V6_REC_LEN TEMPLATE_ID_V6 c v6 else Some (c, v6));
     Some (c, v4, v6)
   }"

definition ipfix_header :: "bytes \<Rightarrow> nat \<Rightarrow> 32 word \<Rightarrow> ps_nf_exporter \<Rightarrow> cursor option" where
  "ipfix_header buf off export_time exp = do {
     c \<leftarrow> put_u16 (buf, 0) 10;
     c \<leftarrow> put_u16 c (of_nat off);
     c \<leftarrow> put_u32 c export_time;
     c \<leftarrow> put_u32 c (flow_sequence exp);
     put_u32 c (source_id exp)
   }"

lemma ipfix_data_set_rest:
  assumes "ipfix_data_set wr len tid c flows = Some (c', rest)"
  shows "length rest \<le> length flows \<and> (flows \<noteq> [] \<and> snd c + 4 + len \<le> NF_MAX_PACKET \<longrightarrow> length rest < length flows)"
proof -
  obtain d e n c2 where "put_u16 c tid = Some d" "put_u16 d 0 = Some e" "data_records wr len e flows = Some (n, c2, rest)"
    using assms by (auto simp: ipfix_data_set_def bind_eq_Some_conv Let_def split: prod.splits if_splits)
  then show ?thesis by (auto dest!: put_u_snd data_records_rest)
qed

lemma write_ipfix_template_snd: "write_ipfix_template c tid fds = Some c' \<Longrightarrow> snd c' = snd c + 8 + 4 * length fds"
  by (auto simp: write_ipfix_template_def bind_eq_Some_conv dest!: put_u_snd put_fields_snd)

lemma ipfix_packet_rest:
  assumes "ipfix_packet t buf v4 v6 = Some (c, v4', v6')" "v4 \<noteq> [] \<or> v6 \<noteq> []"
  shows "length v4' + length v6' < length v4 + length v6"
proof -
  from assms(1) obtain d d4 where
    t: "(if t then write_ipfix_template (buf, IPFIX_HEADER_LEN) TEMPLATE_ID_V4 ipfix_v4_fields \<bind>
            (\<lambda>c. write_ipfix_template c TEMPLATE_ID_V6 ipfix_v6_fields)
         else Some (buf, IPFIX_HEADER_LEN)) = Some d"
    and d4: "(if v4 \<noteq> [] then ipfix_data_set write_ipfix_v4_record IPFIX_V4_REC_LEN TEMPLATE_ID_V4 d v4
              else Some (d, v4)) = Some (d4, v4')"
    and d6: "(if v6 \<noteq> [] then ipfix_data_set write_ipfix_v6_record IPFIX_V6_REC_LEN TEMPLATE_ID_V6 d4 v6
              else Some (d4, v6)) = Some (c, v6')"
    by (auto simp: ipfix_packet_def bind_eq_Some_conv)
  have d: "snd d \<le> 120"
    using t by (auto simp: bind_eq_Some_conv ipfix_v4_fields_def ipfix_v6_fields_def dest!: write_ipfix_template_snd split: if_splits)
  show ?thesis
  proof (cases "v4 = []")
    case True
    with d4 d6 d assms(2) show ?thesis by (auto dest!: ipfix_data_set_rest)
  next
    case False
    with d4 d have "length v4' < length v4" by (auto dest!: ipfix_data_set_rest)
    moreover have "length v6' \<le> length v6" using d6 by (auto dest!: ipfix_data_set_rest split: if_splits)
    ultimately show ?thesis by simp
  qed
qed

function export_ipfix_loop ::
  "ps_nf_exporter \<Rightarrow> nf_world \<Rightarrow> int \<Rightarrow> ps_flow list \<Rightarrow> ps_flow list \<Rightarrow> (int option \<times> ps_nf_exporter \<times> nf_world) option" where
  \<comment> \<open>the number of messages sent, or no number when a message could not be sent\<close>
  "export_ipfix_loop exp w packets_sent v4 v6 =
     (if v4 = [] \<and> v6 = [] then Some (Some packets_sent, exp, w)
      else let (send_tmpl, w) = need_template exp w
      in case ipfix_packet send_tmpl (fresh_buf w NF_MAX_PACKET) v4 v6 of
           None \<Rightarrow> None
         | Some ((buf, off), v4', v6') \<Rightarrow>
             (let (export_time, w) = now_sec w
              in case ipfix_header buf off export_time exp of
                   None \<Rightarrow> None
                 | Some (buf, _) \<Rightarrow>
                     (let (rc, w) = send_udp w (take off buf)
                      in if rc < 0 then Some (None, exp, w)
                         else let exp = exp\<lparr>v9_pkts_since_template := v9_pkts_since_template exp + 1\<rparr>
                         in if send_tmpl
                            then let (now, w) = now_sec w
                                 in export_ipfix_loop (exp\<lparr>v9_last_template_sec := ucast now, v9_pkts_since_template := 0\<rparr>)
                                      w (packets_sent + 1) v4' v6'
                            else export_ipfix_loop exp w (packets_sent + 1) v4' v6')))"
  by pat_completeness auto
termination
  by (relation "measure (\<lambda>(exp, w, n, v4, v6). length v4 + length v6)") (auto dest: ipfix_packet_rest)

declare export_ipfix_loop.simps [simp del]

definition export_ipfix :: "ps_nf_exporter \<Rightarrow> nf_world \<Rightarrow> ps_flow list \<Rightarrow> (int \<times> ps_nf_exporter \<times> nf_world) option" where
  "export_ipfix exp w flows =
     (let (v4, v6) = ipfix_split IPFIX_MAX_FLOWS flows
      in case export_ipfix_loop exp w 0 v4 v6 of
           None \<Rightarrow> None
         | Some (None, exp, w) \<Rightarrow> Some (- 1, exp, w)
         | Some (Some packets_sent, exp, w) \<Rightarrow>
             Some (packets_sent, exp\<lparr>flow_sequence := flow_sequence exp + of_nat (length flows)\<rparr>, w))"

section \<open>The interface of the exporter\<close>

definition ps_nf_exporter_create ::
  "(string \<Rightarrow> bool) \<Rightarrow> nf_world \<Rightarrow> string option \<Rightarrow> 32 word \<Rightarrow> int \<Rightarrow> ps_nf_exporter option \<times> nf_world" where
  \<comment> \<open>\<open>reach host\<close>: the collector has an address and a socket can be created; the allocation succeeds\<close>
  "ps_nf_exporter_create reach w collector_host src_id version =
     (case collector_host of
        None \<Rightarrow> (None, w)
      | Some host \<Rightarrow>
          (if version \<noteq> 5 \<and> version \<noteq> 9 \<and> version \<noteq> 10 then (None, w)
           else let exp = \<lparr>nf_version = version, source_id = src_id, flow_sequence = 0, v9_pkt_sequence = 0,
                      boot_time_sec = w_time w (w_reads w), v9_pkts_since_template = 0, v9_last_template_sec = 0\<rparr>;
                    w = w\<lparr>w_reads := w_reads w + 1\<rparr>
                in if reach host then (Some exp, w) else (None, w)))"

definition ps_nf_exporter_send :: "ps_nf_exporter \<Rightarrow> nf_world \<Rightarrow> ps_flow list \<Rightarrow> (int \<times> ps_nf_exporter \<times> nf_world) option" where
  "ps_nf_exporter_send exp w flows =
     (if flows = [] then Some (0, exp, w)
      else if nf_version exp = 5 then export_v5 exp w flows
      else if nf_version exp = 10 then export_ipfix exp w flows
      else export_v9 exp w flows)"

section \<open>What is written\<close>

lemmas puts = put_u8_def put_u16_def put_u32_def put_u64_def put_bytes_def put_put put_put_then

lemma length_be [simp]: "length (be16 v) = 2" "length (be32 w) = 4" "length (be64 x) = 8"
  by (simp_all add: be16_def be32_def be64_def)

definition fields_bytes :: "nf9_template \<Rightarrow> bytes" where
  "fields_bytes t = concat (map (\<lambda>(type, len). be16 type @ be16 len) t)"

lemma length_fields_bytes [simp]: "length (fields_bytes t) = 4 * length t"
  by (induction t) (auto simp: fields_bytes_def)

lemma put_fields_put: "snd c \<le> length (fst c) \<Longrightarrow> put_fields c t = put c (fields_bytes t)"
proof (induction c t rule: put_fields.induct)
  case (2 c type len t)
  have "put_fields c' t = put c' (fields_bytes t)" if "put c (be16 type @ be16 len) = Some c'" for c'
  proof -
    have "(put c (be16 type) \<bind> (\<lambda>d. put d (be16 len))) = Some c'" using that by (simp add: put_put)
    then obtain d where d: "put c (be16 type) = Some d" "put d (be16 len) = Some c'" by (auto simp: bind_eq_Some_conv)
    moreover have "snd c' \<le> length (fst c')" using d by (auto simp: put_def split: prod.splits if_splits)
    ultimately show ?thesis using 2 by (simp add: put_u16_def)
  qed
  then have "put_fields c ((type, len) # t) = put c (be16 type @ be16 len) \<bind> (\<lambda>c. put c (fields_bytes t))"
    by (simp add: puts cong: Option.bind_cong)
  then show ?case by (simp add: put_put fields_bytes_def)
qed (simp add: fields_bytes_def)

end
