(* ===== verification/Netflow_Collect.thy ===== *)
theory Netflow_Collect
  imports Netflow_Export "HOL-Library.Sublist"
begin

text \<open>
  What a collector reads from the datagrams of the exporter. The collector knows nothing but the
  formats: it splits a datagram into sets, learns the templates and cuts the other sets into records
  of numbers. The datagrams of \<open>Netflow_Export\<close> fit their buffers, and every flow arrives, once and in
  order. The four kinds of records are instances of one interface.
\<close>

section \<open>The collector\<close>

definition num :: "bytes \<Rightarrow> nat" where
  \<comment> \<open>a number in network byte order\<close>
  "num bs = foldl (\<lambda>n b. 256 * n + unat b) 0 bs"

fun be :: "nat \<Rightarrow> nat \<Rightarrow> bytes" where
  "be 0 x = []"
| "be (Suc n) x = be n (x div 256) @ [of_nat x]"

lemma num_be: "num (be n x) = x mod 256 ^ n"
proof (induction n arbitrary: x)
  case (Suc n)
  have "unat (of_nat x :: byte) = x mod 256" by (simp add: unat_of_nat)
  with Suc [of "x div 256"] show ?case by (simp add: num_def mod_mult2_eq)
qed (simp add: num_def)

lemma unat_drop_bit_div: "unat (drop_bit k v) = unat v div 2 ^ k"
  unfolding unat_drop_bit_eq by (simp add: drop_bit_eq_div)

lemma byte_be: "(ucast (drop_bit k v) :: byte) = of_nat (unat v div 2 ^ k)"
proof -
  have "unat (ucast (drop_bit k v) :: byte) = unat (drop_bit k v) mod 256" by (simp add: unsigned_ucast_eq take_bit_eq_mod)
  then show ?thesis unfolding word_unat_eq_iff unat_drop_bit_div by (simp add: unat_of_nat)
qed

lemma masked_be: "(ucast (x AND 0xFF) :: byte) = ucast x" for x :: "64 word"
proof -
  have m: "(0xFF :: 64 word) = mask 8" by (simp add: mask_eq_exp_minus_1)
  show ?thesis unfolding m by (rule bit_eqI) (auto simp only: bit_unsigned_iff bit_and_iff bit_mask_iff, simp_all)
qed

lemma be_map: "be n x = map (\<lambda>i. of_nat (x div 256 ^ (n - 1 - i))) [0..<n]"
proof (induction n arbitrary: x)
  case (Suc n)
  have "map (\<lambda>i. of_nat (x div 256 div 256 ^ (n - 1 - i)) :: byte) [0..<n] = map (\<lambda>i. of_nat (x div 256 ^ (Suc n - 1 - i))) [0..<n]"
  proof (rule map_cong)
    fix i
    assume "i \<in> set [0..<n]"
    then obtain k where k: "n - 1 - i = k" "Suc n - 1 - i = Suc k" by simp
    show "(of_nat (x div 256 div 256 ^ (n - 1 - i)) :: byte) = of_nat (x div 256 ^ (Suc n - 1 - i))"
      unfolding k by (simp only: power_Suc div_mult2_eq)
  qed simp
  then show ?case unfolding be.simps Suc by (simp only: upt_Suc_append map_append list.map le0 diff_Suc_1 diff_self_eq_0 power_0 div_by_1)
qed simp

lemma be16_be: "be16 v = be 2 (unat v)"
proof -
  have n: "be 2 x = be (Suc (Suc 0)) x" for x by (simp only: numeral_2_eq_2)
  show ?thesis unfolding n be.simps by (simp add: be16_def byte_be)
qed

lemma be32_be: "be32 v = be 4 (unat v)"
proof -
  have "(4 :: nat) = Suc (Suc (Suc (Suc 0)))" by simp
  then have n: "be 4 x = be (Suc (Suc (Suc (Suc 0)))) x" for x by (simp only:)
  show ?thesis unfolding n be.simps by (simp add: be32_def byte_be flip: div_mult2_eq)
qed

lemma be64_be: "be64 v = be 8 (unat v)"
proof -
  have "(2 :: nat) ^ (56 - 8 * i) = 256 ^ (8 - 1 - i)" if "i < 8" for i
  proof -
    have "56 - 8 * i = 8 * (8 - 1 - i)" using that by simp
    then show ?thesis by (simp only: power_mult) simp
  qed
  then show ?thesis unfolding be64_def be_map masked_be byte_be by simp
qed

lemma num_fixed [simp]: "num [b] = unat b" "num (be16 u) = unat u" "num (be32 v) = unat v" "num (be64 w) = unat w"
proof -
  have "unat u < 256 ^ 2" "unat v < 256 ^ 4" "unat w < 256 ^ 8"
    using unsigned_less [of u] unsigned_less [of v] unsigned_less [of w] by simp_all
  then show "num (be16 u) = unat u" "num (be32 v) = unat v" "num (be64 w) = unat w"
    by (simp_all only: be16_be be32_be be64_be num_be mod_less)
qed (simp add: num_def)

type_synonym template = "(nat \<times> nat) list"
type_synonym templates = "nat \<Rightarrow> template option"

fun cut :: "template \<Rightarrow> bytes \<Rightarrow> (nat \<times> nat) list" where
  \<comment> \<open>one record: the number of each field\<close>
  "cut [] bs = []"
| "cut ((type, len) # t) bs = (type, num (take len bs)) # cut t (drop len bs)"

definition rec_len :: "template \<Rightarrow> nat" where
  "rec_len t = sum_list (map snd t)"

function cut_all :: "template \<Rightarrow> bytes \<Rightarrow> (nat \<times> nat) list list" where
  \<comment> \<open>the records of a set; the rest is padding\<close>
  "cut_all t bs =
     (if rec_len t = 0 \<or> length bs < rec_len t then [] else cut t bs # cut_all t (drop (rec_len t) bs))"
  by pat_completeness auto
termination
  by (relation "measure (\<lambda>(t, bs). length bs)") auto

declare cut_all.simps [simp del]

fun read_fields :: "nat \<Rightarrow> bytes \<Rightarrow> template" where
  "read_fields 0 bs = []"
| "read_fields (Suc n) bs = (num (take 2 bs), num (take 2 (drop 2 bs))) # read_fields n (drop 4 bs)"

function read_sets :: "nat \<Rightarrow> templates \<Rightarrow> bytes \<Rightarrow> (templates \<times> (nat \<times> (nat \<times> nat) list) list) option" where
  \<comment> \<open>the sets of a datagram; \<open>tset\<close> is the number of a set that defines a template. A set that is
    malformed or has no template is an error.\<close>
  "read_sets tset T bs =
     (if bs = [] then Some (T, [])
      else let sid = num (take 2 bs); n = num (take 2 (drop 2 bs)); body = drop 4 (take n bs)
      in if n < 4 \<or> length bs < n then None
      else if sid = tset
      then read_sets tset (T(num (take 2 body) \<mapsto> read_fields (num (take 2 (drop 2 body))) (drop 4 body))) (drop n bs)
      else case T sid of
             None \<Rightarrow> None
           | Some t \<Rightarrow> map_option (\<lambda>(T, rs). (T, map (Pair sid) (cut_all t body) @ rs)) (read_sets tset T (drop n bs)))"
  by pat_completeness auto
termination
  by (relation "measure (\<lambda>(tset, T, bs). length bs)") auto

declare read_sets.simps [simp del]

section \<open>Sets\<close>

definition set_bytes :: "16 word \<Rightarrow> bytes \<Rightarrow> nat \<Rightarrow> bytes" where
  \<comment> \<open>a set with its header and some padding\<close>
  "set_bytes sid body pad = be16 sid @ be16 (of_nat (4 + length body + pad)) @ body @ replicate pad 0"

lemma length_set_bytes [simp]: "length (set_bytes sid body pad) = 4 + length body + pad"
  by (simp add: set_bytes_def)

lemma set_bytes_not_Nil [simp]: "set_bytes sid body pad \<noteq> []"
  using length_set_bytes [of sid body pad] by fastforce

lemma read_set:
  assumes "4 + length body + pad < 65536" and body': "body' = body @ replicate pad 0"
  shows "read_sets tset T (set_bytes sid body pad @ bs) =
    (if unat sid = tset
     then read_sets tset (T(num (take 2 body') \<mapsto> read_fields (num (take 2 (drop 2 body'))) (drop 4 body'))) bs
     else case T (unat sid) of
            None \<Rightarrow> None
          | Some t \<Rightarrow> map_option (\<lambda>(T, rs). (T, map (Pair (unat sid)) (cut_all t body') @ rs)) (read_sets tset T bs))"
proof -
  have len: "unat (of_nat (4 + length body + pad) :: 16 word) = 4 + length body + pad"
    using assms(1) by (simp add: unat_of_nat del: of_nat_add)
  have parts: "num (take 2 (set_bytes sid body pad @ bs)) = unat sid"
    "num (take 2 (drop 2 (set_bytes sid body pad @ bs))) = 4 + length body + pad"
    "drop 4 (take (4 + length body + pad) (set_bytes sid body pad @ bs)) = body'"
    "drop (4 + length body + pad) (set_bytes sid body pad @ bs) = bs"
    by (simp_all only: set_bytes_def append_assoc) (simp_all add: len body' del: of_nat_add)
  show ?thesis unfolding read_sets.simps [of tset T "set_bytes sid body pad @ bs"] Let_def parts by simp
qed

definition nat_template :: "nf9_template \<Rightarrow> template" where
  "nat_template t = map (\<lambda>(type, len). (unat type, unat len)) t"

lemma read_fields_bytes: "read_fields (length t) (fields_bytes t @ bs) = nat_template t"
  by (induction t) (auto simp: fields_bytes_def nat_template_def)

definition template_body :: "16 word \<Rightarrow> nf9_template \<Rightarrow> bytes" where
  "template_body tid t = be16 tid @ be16 (of_nat (length t)) @ fields_bytes t"

lemma read_template_set:
  assumes "length t < 100"
  shows "read_sets (unat tset) T (set_bytes tset (template_body tid t) 0 @ bs) =
    read_sets (unat tset) (T(unat tid \<mapsto> nat_template t)) bs"
proof -
  have "unat (of_nat (length t) :: 16 word) = length t" using assms by (simp add: unat_of_nat)
  then show ?thesis
    using assms read_fields_bytes [of t "[]"] by (simp add: read_set [OF _ refl] template_body_def)
qed

section \<open>What a buffer holds\<close>

definition wrote :: "cursor \<Rightarrow> bytes \<Rightarrow> cursor \<Rightarrow> bool" where
  \<comment> \<open>the bytes between two offsets; what comes before is the same\<close>
  "wrote c bs c' \<longleftrightarrow> length (fst c') = length (fst c) \<and> snd c' = snd c + length bs \<and> snd c' \<le> length (fst c') \<and>
     take (snd c') (fst c') = take (snd c) (fst c) @ bs"

lemma put_wrote: "put c bs = Some c' \<Longrightarrow> wrote c bs c'"
  by (auto simp: put_def wrote_def split: prod.splits if_splits)

lemma wrote_Nil: "snd c \<le> length (fst c) \<Longrightarrow> wrote c [] c"
  by (simp add: wrote_def)

lemma wrote_trans: "wrote c a d \<Longrightarrow> wrote d b e \<Longrightarrow> wrote c (a @ b) e"
  by (auto simp: wrote_def)

lemma wrote_header:
  assumes "wrote (buf, length h) bs (buf', off)" "length h \<le> length buf"
  shows "\<exists>buf2. put (buf', 0) h = Some (buf2, length h) \<and> take off buf2 = h @ bs"
proof -
  have t: "take off buf' = take (length h) buf @ bs" using assms(1) unfolding wrote_def fst_conv snd_conv by blast
  have "drop (length h) (take off buf') = bs" unfolding t using assms(2) by simp
  moreover have "length h \<le> off" "off \<le> length buf'" using assms by (simp_all add: wrote_def)
  ultimately show ?thesis by (auto simp: put_def drop_take)
qed

section \<open>Records\<close>

definition flow_wf :: "ps_flow \<Rightarrow> bool" where
  \<comment> \<open>the size of the address arrays\<close>
  "flow_wf f \<longleftrightarrow> length (k_src_addr (f_key f)) = 16 \<and> length (k_dst_addr (f_key f)) = 16"

lemma list_all_take: "list_all P xs \<Longrightarrow> list_all P (take k xs)"
  by (auto simp: list_all_iff dest: in_set_takeD)

lemma list_all_drop: "list_all P xs \<Longrightarrow> list_all P (drop k xs)"
  by (auto simp: list_all_iff dest: in_set_dropD)

definition fits :: "nat \<Rightarrow> nat \<Rightarrow> ps_flow list \<Rightarrow> nat" where
  \<comment> \<open>the number of records that fit behind an offset\<close>
  "fits len off flows = min (length flows) ((NF_MAX_PACKET - off) div len)"

lemma fits_Cons:
  "0 < len \<Longrightarrow> fits len off (f # fs) = (if off + len \<le> NF_MAX_PACKET then Suc (fits len (off + len) fs) else 0)"
proof -
  assume "0 < len"
  have "(NF_MAX_PACKET - off) div len = Suc ((NF_MAX_PACKET - (off + len)) div len)" if "off + len \<le> NF_MAX_PACKET"
    using that \<open>0 < len\<close> by (subst le_div_geq) simp_all
  with \<open>0 < len\<close> show ?thesis by (simp add: fits_def)
qed

lemma fits_room: "0 < len \<Longrightarrow> off \<le> NF_MAX_PACKET \<Longrightarrow> off + fits len off flows * len \<le> NF_MAX_PACKET"
proof -
  assume "off \<le> NF_MAX_PACKET"
  moreover have "fits len off flows * len \<le> (NF_MAX_PACKET - off) div len * len" by (simp add: fits_def)
  moreover have "(NF_MAX_PACKET - off) div len * len \<le> NF_MAX_PACKET - off" by (rule div_times_less_eq_dividend)
  ultimately show ?thesis by linarith
qed

definition ipfix_data :: "(ps_flow \<Rightarrow> bytes) \<Rightarrow> 16 word \<Rightarrow> ps_flow list \<Rightarrow> bytes" where
  "ipfix_data enc tid flows = (if flows = [] then [] else set_bytes tid (concat (map enc flows)) 0)"

definition v9_data :: "(ps_flow \<Rightarrow> bytes) \<Rightarrow> 16 word \<Rightarrow> ps_flow list \<Rightarrow> bytes" where
  "v9_data enc tid flows =
     (if flows = [] then []
      else let body = concat (map enc flows); n = 4 + length body in set_bytes tid body (pad4 n - n))"

lemma pad4_bounds: "n \<le> pad4 n" "pad4 n < n + 4" "pad4 n mod 4 = 0"
  by (simp_all add: pad4_def)

lemma length_v9_data: "length (v9_data enc tid flows) = (if flows = [] then 0 else pad4 (4 + length (concat (map enc flows))))"
  using pad4_bounds(1) [of "4 + length (concat (map enc flows))"] by (simp add: v9_data_def Let_def)

locale record_format =
  fixes wr :: "ps_flow \<Rightarrow> cursor \<Rightarrow> cursor option"
    and enc :: "ps_flow \<Rightarrow> bytes"
    and len :: nat
    and tmpl :: nf9_template
    and vals :: "ps_flow \<Rightarrow> (nat \<times> nat) list"
  assumes writes: "flow_wf f \<Longrightarrow> wr f c = put c (enc f)"
    and enc_len: "flow_wf f \<Longrightarrow> length (enc f) = len"
    and len_pos: "0 < len"
    and tmpl_len: "rec_len (nat_template tmpl) = len"
    and reads: "flow_wf f \<Longrightarrow> cut (nat_template tmpl) (enc f @ bs) = vals f"
begin

lemma length_records: "list_all flow_wf flows \<Longrightarrow> length (concat (map enc flows)) = length flows * len"
  by (induction flows) (simp_all add: enc_len)

lemma cut_records:
  assumes "list_all flow_wf flows" "length pad < len"
  shows "cut_all (nat_template tmpl) (concat (map enc flows) @ pad) = map vals flows"
  using assms(1)
proof (induction flows)
  case Nil
  then show ?case using assms(2) tmpl_len by (subst cut_all.simps) simp
next
  case (Cons f fs)
  then show ?case using len_pos tmpl_len by (subst cut_all.simps) (simp add: enc_len reads)
qed

lemma data_records_put:
  assumes "list_all flow_wf flows" "length (fst c) = NF_MAX_PACKET" "snd c \<le> NF_MAX_PACKET"
  shows "\<exists>c'. data_records wr len c flows = Some (fits len (snd c) flows, c', drop (fits len (snd c) flows) flows) \<and>
    put c (concat (map enc (take (fits len (snd c) flows) flows))) = Some c'"
  using assms
proof (induction flows arbitrary: c)
  case Nil
  then show ?case by (simp add: fits_def)
next
  case (Cons f fs)
  show ?case
  proof (cases "snd c + len \<le> NF_MAX_PACKET")
    case True
    then obtain d where d: "put c (enc f) = Some d"
      using Cons.prems put_Some [of c "enc f"] by (auto simp: enc_len)
    then have snd: "snd d = snd c + len" "length (fst d) = NF_MAX_PACKET"
      using Cons.prems put_snd [OF d] by (simp_all add: enc_len)
    with True Cons.IH [of d] Cons.prems obtain c' where
      c': "data_records wr len d fs = Some (fits len (snd d) fs, c', drop (fits len (snd d) fs) fs)"
        "put d (concat (map enc (take (fits len (snd d) fs) fs))) = Some c'" by auto
    have "put c (enc f @ concat (map enc (take (fits len (snd d) fs) fs))) = Some c'"
      using d c'(2) by (simp flip: put_put)
    with True c'(1) d snd Cons.prems show ?thesis by (simp add: fits_Cons len_pos writes)
  next
    case False
    with Cons.prems show ?thesis by (simp add: fits_Cons len_pos)
  qed
qed

lemma read_records:
  assumes "list_all flow_wf flows" "pad < len" "4 + length flows * len + pad < 65536"
    and "T (unat tid) = Some (nat_template tmpl)" "unat tid \<noteq> tset"
  shows "read_sets tset T (set_bytes tid (concat (map enc flows)) pad @ bs) =
    map_option (\<lambda>(T, rs). (T, map (\<lambda>f. (unat tid, vals f)) flows @ rs)) (read_sets tset T bs)"
  using assms cut_records [OF assms(1), of "replicate pad 0"]
  by (simp add: read_set [OF _ refl] length_records comp_def)

lemma v9_data_flowset_put:
  fixes flows c
  defines "k \<equiv> fits len (snd c + 4) flows"
  defines "n \<equiv> 4 + k * len"
  assumes "list_all flow_wf flows" "length (fst c) = NF_MAX_PACKET" "snd c + 4 \<le> NF_MAX_PACKET" "snd c mod 4 = 0" "0 < k"
  shows "\<exists>c'. v9_data_flowset wr len tid c flows = Some (1, c', drop k flows) \<and>
    wrote c (set_bytes tid (concat (map enc (take k flows))) (pad4 n - n)) c'"
proof -
  obtain buf off where c: "c = (buf, off)" by (cases c)
  let ?body = "concat (map enc (take k flows))" and ?pad = "pad4 n - n"
  have wf: "list_all flow_wf (take k flows)" using assms(3) by (rule list_all_take)
  have k: "k \<le> length flows" by (simp add: k_def fits_def)
  have body: "length ?body = k * len" using length_records [OF wf] k by simp
  have room: "off + n \<le> NF_MAX_PACKET" using fits_room [OF len_pos, of "off + 4" flows] assms(5) c by (simp add: n_def k_def)
  have pad: "n \<le> pad4 n" "off + pad4 n \<le> NF_MAX_PACKET" using room assms(6) c by (simp_all add: pad4_def) presburger+
  obtain d where d: "data_records wr len (buf, off + 4) flows = Some (k, d, drop k flows)" "put (buf, off + 4) ?body = Some d"
    using data_records_put [OF assms(3), of "(buf, off + 4)"] assms(4,5) c by (auto simp: k_def)
  have off: "snd d = off + n" "length (fst d) = NF_MAX_PACKET" using put_snd [OF d(2)] body assms(4) c by (simp_all add: n_def)
  have pads: "n + ?pad = pad4 n" using pad by simp
  obtain buf2 off2 where e: "put (buf, off + 4) (?body @ replicate ?pad 0) = Some (buf2, off2)" "pad_to d (off + pad4 n) = Some (buf2, off2)"
    using put_Some [of "(buf, off + 4)" "?body @ replicate ?pad 0"] body pad assms(4) c d(2) off(1)
    by (auto simp: pad_to_def n_def simp flip: put_put)
  have size: "off + length (be16 tid @ be16 (of_nat (pad4 n))) + length (?body @ replicate ?pad 0) \<le> length buf"
    using body pad pads assms(4) c by (simp add: n_def)
  have hdr: "put (buf2, off) (be16 tid @ be16 (of_nat (pad4 n))) =
      Some (take off buf @ set_bytes tid ?body ?pad @ drop (off + pad4 n) buf, off + 4)" "off2 = off + pad4 n"
    using put_behind [OF size, of buf2 off2] e(1) body pads by (simp_all add: set_bytes_def n_def)
  have "put c (set_bytes tid ?body ?pad) = Some (take off buf @ set_bytes tid ?body ?pad @ drop (off + pad4 n) buf, off2)"
    using put_Some [of c "set_bytes tid ?body ?pad"] body pads pad assms(4) c hdr(2) by (simp add: n_def)
  moreover have "v9_data_flowset wr len tid c flows =
      Some (1, (take off buf @ set_bytes tid ?body ?pad @ drop (off + pad4 n) buf, off2), drop k flows)"
  proof -
    have "(put_u16 (buf2, off) tid \<bind> (\<lambda>h. put_u16 h (of_nat (off2 - off)))) =
        Some (take off buf @ set_bytes tid ?body ?pad @ drop (off + pad4 n) buf, off + 4)"
      using hdr by (simp add: puts)
    then obtain h where h: "put_u16 (buf2, off) tid = Some h"
      "put_u16 h (of_nat (off2 - off)) = Some (take off buf @ set_bytes tid ?body ?pad @ drop (off + pad4 n) buf, off + 4)"
      by (auto simp: bind_eq_Some_conv)
    have "off + pad4 (off + n - off) = off + pad4 n" by simp
    then show ?thesis using d(1) e(2) off(1) assms(7) h c by (cases d) (simp add: v9_data_flowset_def)
  qed
  ultimately show ?thesis using put_wrote by blast
qed

lemma ipfix_data_set_put:
  fixes flows c
  defines "k \<equiv> fits len (snd c + 4) flows"
  assumes "list_all flow_wf flows" "length (fst c) = NF_MAX_PACKET" "snd c + 4 \<le> NF_MAX_PACKET"
  shows "\<exists>c'. ipfix_data_set wr len tid c flows = Some (c', drop k flows) \<and>
    wrote c (if k = 0 then [] else set_bytes tid (concat (map enc (take k flows))) 0) c'"
proof -
  obtain buf off where c: "c = (buf, off)" by (cases c)
  let ?body = "concat (map enc (take k flows))"
  have wf: "list_all flow_wf (take k flows)" using assms(2) by (rule list_all_take)
  have k: "k \<le> length flows" by (simp add: k_def fits_def)
  have body: "length ?body = k * len" using length_records [OF wf] k by simp
  have room: "off + 4 + k * len \<le> NF_MAX_PACKET" using fits_room [OF len_pos, of "off + 4" flows] assms(4) c by (simp add: k_def)
  obtain h e where h: "put_u16 c tid = Some h" "put_u16 h 0 = Some e"
    and e: "put c (be16 tid @ be16 0) = Some e"
    using put_Some [of c "be16 tid @ be16 0"] assms(3,4) c by (auto simp: put_u16_def bind_eq_Some_conv simp flip: put_put)
  have snd: "snd h = off + 2" "snd e = off + 4" "length (fst e) = NF_MAX_PACKET"
    using put_u_snd(2) [OF h(1)] put_snd [OF e] assms(3) c by simp_all
  obtain d where d: "data_records wr len e flows = Some (k, d, drop k flows)" "put e ?body = Some d"
    using data_records_put [OF assms(2), of e] assms(4) snd c by (auto simp: k_def)
  have all: "put c (be16 tid @ be16 0 @ ?body) = Some d" using e d(2) put_put [of c "be16 tid @ be16 0" ?body] by simp
  have len: "length (be16 tid @ be16 0 @ ?body) = 4 + k * len" using body by simp
  have d': "d = (take off buf @ be16 tid @ be16 0 @ ?body @ drop (off + 4 + k * len) buf, off + 4 + k * len)"
    using put_Some [of "(buf, off)" "be16 tid @ be16 0 @ ?body", unfolded len fst_conv snd_conv] all assms(3) room c by (simp add: add.assoc)
  have off: "off + 4 \<le> length buf" "length buf = NF_MAX_PACKET" using assms(3,4) c by simp_all
  show ?thesis
  proof (cases "k = 0")
    case True
    then have "ipfix_data_set wr len tid c flows = Some ((fst d, off), flows)"
      using h d snd d' c by (simp add: ipfix_data_set_def Let_def)
    with True d' c off show ?thesis by (auto simp: wrote_def)
  next
    case False
    then have pos: "0 < k * len" using len_pos by simp
    define n where "n = 4 + k * len"
    have set: "set_bytes tid ?body 0 = be16 tid @ be16 (of_nat n) @ ?body" using body by (simp add: set_bytes_def n_def)
    have "put_u16 (fst d, off + 2) (of_nat n) = Some (take off buf @ set_bytes tid ?body 0 @ drop (off + n) buf, off + 4)"
      using d' off room by (simp add: put_u16_def put_def set body n_def add.assoc)
    then have "ipfix_data_set wr len tid c flows =
        Some ((take off buf @ set_bytes tid ?body 0 @ drop (off + n) buf, off + n), drop k flows)"
      using h d snd d' c pos by (simp add: ipfix_data_set_def Let_def n_def)
    moreover have "put c (set_bytes tid ?body 0) = Some (take off buf @ set_bytes tid ?body 0 @ drop (off + n) buf, off + n)"
      using put_Some [of c "set_bytes tid ?body 0"] room off c body by (simp add: n_def add.assoc)
    ultimately show ?thesis using False put_wrote by simp
  qed
qed

lemma ipfix_data_set_maybe:
  fixes flows c
  defines "k \<equiv> fits len (snd c + 4) flows"
  assumes "list_all flow_wf flows" "length (fst c) = NF_MAX_PACKET" "snd c + 4 \<le> NF_MAX_PACKET"
  shows "\<exists>c'. (if flows \<noteq> [] then ipfix_data_set wr len tid c flows else Some (c, flows)) = Some (c', drop k flows) \<and>
    wrote c (ipfix_data enc tid (take k flows)) c'"
proof (cases "flows = []")
  case True
  then show ?thesis using assms(3,4) by (auto simp: ipfix_data_def intro: wrote_Nil)
next
  case False
  obtain c' where "ipfix_data_set wr len tid c flows = Some (c', drop k flows)"
    "wrote c (if k = 0 then [] else set_bytes tid (concat (map enc (take k flows))) 0) c'"
    using ipfix_data_set_put [OF assms(2-4), of tid] k_def by auto
  with False show ?thesis by (auto simp: ipfix_data_def)
qed

lemma read_ipfix_data:
  assumes "list_all flow_wf flows" "length (ipfix_data enc tid flows) < 65536"
    and "T (unat tid) = Some (nat_template tmpl)" "unat tid \<noteq> tset"
  shows "read_sets tset T (ipfix_data enc tid flows @ bs) =
    map_option (\<lambda>(T, rs). (T, map (\<lambda>f. (unat tid, vals f)) flows @ rs)) (read_sets tset T bs)"
proof (cases "flows = []")
  case True
  then show ?thesis by (cases "read_sets tset T bs") (simp_all add: ipfix_data_def split: prod.split)
next
  case False
  with read_records [of flows 0 T tid tset bs] assms show ?thesis by (simp add: ipfix_data_def length_records len_pos)
qed

lemma v9_data_flowset_maybe:
  fixes flows c
  defines "k \<equiv> fits len (snd c + 4) flows"
  assumes "list_all flow_wf flows" "length (fst c) = NF_MAX_PACKET" "snd c mod 4 = 0" "snd c + 4 + len \<le> NF_MAX_PACKET" "flows \<noteq> []"
  shows "0 < k \<and> (\<exists>c'. v9_data_flowset wr len tid c flows = Some (1, c', drop k flows) \<and> wrote c (v9_data enc tid (take k flows)) c')"
proof -
  have k: "0 < k" using assms(5,6) len_pos by (cases flows) (simp_all add: k_def fits_Cons)
  then have "take k flows \<noteq> []" using assms(6) by simp
  moreover have "length (concat (map enc (take k flows))) = k * len"
    using length_records [OF list_all_take [OF assms(2)], of k] by (simp add: k_def fits_def)
  ultimately show ?thesis
    using k v9_data_flowset_put [OF assms(2,3) _ assms(4), of tid] assms(5) by (auto simp: v9_data_def Let_def k_def [symmetric])
qed

lemma read_v9_data:
  assumes "list_all flow_wf flows" "length (v9_data enc tid flows) < 65536" "4 \<le> len"
    and "flows \<noteq> [] \<Longrightarrow> T (unat tid) = Some (nat_template tmpl)" "unat tid \<noteq> tset"
  shows "read_sets tset T (v9_data enc tid flows @ bs) =
    map_option (\<lambda>(T, rs). (T, map (\<lambda>f. (unat tid, vals f)) flows @ rs)) (read_sets tset T bs)"
proof (cases "flows = []")
  case True
  then show ?thesis by (cases "read_sets tset T bs") (simp_all add: v9_data_def split: prod.split)
next
  case False
  let ?n = "4 + length flows * len"
  have "pad4 ?n - ?n < len" using pad4_bounds(2) [of ?n] assms(3) by linarith
  moreover have "4 + length flows * len + (pad4 ?n - ?n) < 65536"
    using assms(1,2) False pad4_bounds(1) [of ?n] by (simp add: length_v9_data length_records)
  ultimately show ?thesis
    using read_records [of flows "pad4 ?n - ?n" T tid tset bs] assms(1,4,5) False by (simp add: v9_data_def length_records Let_def)
qed

end

section \<open>The four kinds of records\<close>

abbreviation addr4 :: "(ps_flow_key \<Rightarrow> bytes) \<Rightarrow> ps_flow \<Rightarrow> bytes" where "addr4 a f \<equiv> take 4 (a (f_key f))"

definition v9_v4_enc :: "ps_nf_exporter \<Rightarrow> ps_flow \<Rightarrow> bytes" where
  "v9_v4_enc exp f = addr4 k_src_addr f @ addr4 k_dst_addr f @ be16 (k_src_port (f_key f)) @ be16 (k_dst_port (f_key f)) @
     [k_proto (f_key f)] @ be32 (ucast (both_octets f)) @ be32 (ucast (both_packets f)) @ [both_flags f] @ [k_tos (f_key f)] @
     be32 (flow_ts_to_uptime exp (flow_start f)) @ be32 (flow_ts_to_uptime exp (flow_last f))"

definition v9_v6_enc :: "ps_nf_exporter \<Rightarrow> ps_flow \<Rightarrow> bytes" where
  "v9_v6_enc exp f = k_src_addr (f_key f) @ k_dst_addr (f_key f) @ be16 (k_src_port (f_key f)) @ be16 (k_dst_port (f_key f)) @
     [k_proto (f_key f)] @ be32 (ucast (both_octets f)) @ be32 (ucast (both_packets f)) @ [both_flags f] @ be32 (f_flow_label f) @
     be32 (flow_ts_to_uptime exp (flow_start f)) @ be32 (flow_ts_to_uptime exp (flow_last f))"

definition ipfix_v4_enc :: "ps_flow \<Rightarrow> bytes" where
  "ipfix_v4_enc f = addr4 k_src_addr f @ addr4 k_dst_addr f @ be16 (k_src_port (f_key f)) @ be16 (k_dst_port (f_key f)) @
     [k_proto (f_key f)] @ [both_flags f] @ [k_tos (f_key f)] @ be64 (both_octets f) @ be64 (both_packets f) @
     be64 (flow_start f div 1000) @ be64 (flow_last f div 1000)"

definition ipfix_v6_enc :: "ps_flow \<Rightarrow> bytes" where
  "ipfix_v6_enc f = k_src_addr (f_key f) @ k_dst_addr (f_key f) @ be16 (k_src_port (f_key f)) @ be16 (k_dst_port (f_key f)) @
     [k_proto (f_key f)] @ [both_flags f] @ be32 (f_flow_label f) @ be64 (both_octets f) @ be64 (both_packets f) @
     be64 (flow_start f div 1000) @ be64 (flow_last f div 1000)"

definition v9_v4_vals :: "ps_nf_exporter \<Rightarrow> ps_flow \<Rightarrow> (nat \<times> nat) list" where
  \<comment> \<open>specification: the fields of a flow by their numbers; counters are taken modulo \<open>2\<^sup>3\<^sup>2\<close>\<close>
  "v9_v4_vals exp f =
     [(8, num (addr4 k_src_addr f)), (12, num (addr4 k_dst_addr f)), (7, unat (k_src_port (f_key f))), (11, unat (k_dst_port (f_key f))),
      (4, unat (k_proto (f_key f))), (1, unat (both_octets f) mod 2 ^ 32), (2, unat (both_packets f) mod 2 ^ 32),
      (6, unat (both_flags f)), (5, unat (k_tos (f_key f))), (22, unat (flow_ts_to_uptime exp (flow_start f))),
      (21, unat (flow_ts_to_uptime exp (flow_last f)))]"

definition v9_v6_vals :: "ps_nf_exporter \<Rightarrow> ps_flow \<Rightarrow> (nat \<times> nat) list" where
  "v9_v6_vals exp f =
     [(27, num (k_src_addr (f_key f))), (28, num (k_dst_addr (f_key f))), (7, unat (k_src_port (f_key f))), (11, unat (k_dst_port (f_key f))),
      (4, unat (k_proto (f_key f))), (1, unat (both_octets f) mod 2 ^ 32), (2, unat (both_packets f) mod 2 ^ 32),
      (6, unat (both_flags f)), (31, unat (f_flow_label f)), (22, unat (flow_ts_to_uptime exp (flow_start f))),
      (21, unat (flow_ts_to_uptime exp (flow_last f)))]"

definition ipfix_v4_vals :: "ps_flow \<Rightarrow> (nat \<times> nat) list" where
  \<comment> \<open>specification: counters at their full width, times in milliseconds\<close>
  "ipfix_v4_vals f =
     [(8, num (addr4 k_src_addr f)), (12, num (addr4 k_dst_addr f)), (7, unat (k_src_port (f_key f))), (11, unat (k_dst_port (f_key f))),
      (4, unat (k_proto (f_key f))), (6, unat (both_flags f)), (5, unat (k_tos (f_key f))), (85, unat (both_octets f)),
      (86, unat (both_packets f)), (152, unat (flow_start f) div 1000), (153, unat (flow_last f) div 1000)]"

definition ipfix_v6_vals :: "ps_flow \<Rightarrow> (nat \<times> nat) list" where
  "ipfix_v6_vals f =
     [(27, num (k_src_addr (f_key f))), (28, num (k_dst_addr (f_key f))), (7, unat (k_src_port (f_key f))), (11, unat (k_dst_port (f_key f))),
      (4, unat (k_proto (f_key f))), (6, unat (both_flags f)), (31, unat (f_flow_label f)), (85, unat (both_octets f)),
      (86, unat (both_packets f)), (152, unat (flow_start f) div 1000), (153, unat (flow_last f) div 1000)]"

lemma take_drop_be [simp]:
  "take 2 (be16 u @ bs) = be16 u" "drop 2 (be16 u @ bs) = bs" "take 4 (be32 v @ bs) = be32 v" "drop 4 (be32 v @ bs) = bs"
  "take 8 (be64 w @ bs) = be64 w" "drop 8 (be64 w @ bs) = bs"
  by simp_all

lemma unat_low32: "unat (ucast x :: 32 word) = unat x mod 2 ^ 32" for x :: "64 word"
  by (simp add: unsigned_ucast_eq take_bit_eq_mod)

lemma unat_div1000: "unat (x div 1000) = unat x div 1000" for x :: "64 word"
  by (simp add: unat_div)

interpretation v9_v4: record_format "write_v4_data_record exp" "v9_v4_enc exp" TMPL_V4_RECORD_LEN tmpl_v4_fields "v9_v4_vals exp" for exp
  by unfold_locales
    (simp_all add: write_v4_data_record_def v9_v4_enc_def flow_wf_def puts rec_len_def nat_template_def tmpl_v4_fields_def
      v9_v4_vals_def unat_low32)

interpretation v9_v6: record_format "write_v6_data_record exp" "v9_v6_enc exp" TMPL_V6_RECORD_LEN tmpl_v6_fields "v9_v6_vals exp" for exp
  by unfold_locales
    (simp_all add: write_v6_data_record_def v9_v6_enc_def flow_wf_def puts rec_len_def nat_template_def tmpl_v6_fields_def
      v9_v6_vals_def unat_low32)

interpretation ipfix_v4: record_format write_ipfix_v4_record ipfix_v4_enc IPFIX_V4_REC_LEN ipfix_v4_fields ipfix_v4_vals
  by unfold_locales
    (simp_all add: write_ipfix_v4_record_def ipfix_v4_enc_def flow_wf_def puts rec_len_def nat_template_def ipfix_v4_fields_def
      ipfix_v4_vals_def unat_div1000)

interpretation ipfix_v6: record_format write_ipfix_v6_record ipfix_v6_enc IPFIX_V6_REC_LEN ipfix_v6_fields ipfix_v6_vals
  by unfold_locales
    (simp_all add: write_ipfix_v6_record_def ipfix_v6_enc_def flow_wf_def puts rec_len_def nat_template_def ipfix_v6_fields_def
      ipfix_v6_vals_def unat_div1000)

section \<open>Datagrams and what they carry\<close>

fun collect :: "(templates \<Rightarrow> bytes \<Rightarrow> (templates \<times> 'r list) option) \<Rightarrow> templates \<Rightarrow> bytes list \<Rightarrow> (templates \<times> 'r list) option" where
  \<comment> \<open>a collector keeps its templates from one datagram to the next\<close>
  "collect rdr T [] = Some (T, [])"
| "collect rdr T (p # ps) = do { (T, r) \<leftarrow> rdr T p; (T, rs) \<leftarrow> collect rdr T ps; Some (T, r @ rs) }"

lemma collect_append:
  "collect rdr T ps = Some (T1, r1) \<Longrightarrow> collect rdr T1 qs = Some (T2, r2) \<Longrightarrow> collect rdr T (ps @ qs) = Some (T2, r1 @ r2)"
  by (induction ps arbitrary: T r1) (auto simp: bind_eq_Some_conv)

definition ipfix_read :: "templates \<Rightarrow> bytes \<Rightarrow> (templates \<times> (nat \<times> (nat \<times> nat) list) list) option" where
  "ipfix_read T p =
     (if IPFIX_HEADER_LEN \<le> length p \<and> num (take 2 p) = 10 \<and> num (take 2 (drop 2 p)) = length p
      then read_sets 2 T (drop IPFIX_HEADER_LEN p) else None)"

definition v9_read :: "templates \<Rightarrow> bytes \<Rightarrow> (templates \<times> (nat \<times> (nat \<times> nat) list) list) option" where
  "v9_read T p = (if NFV9_HEADER_LEN \<le> length p \<and> num (take 2 p) = 9 then read_sets 0 T (drop NFV9_HEADER_LEN p) else None)"

definition of_template :: "nat \<Rightarrow> (nat \<times> 'r) list \<Rightarrow> 'r list" where
  "of_template tid rs = map snd (filter (\<lambda>r. fst r = tid) rs)"

lemma of_template_simps [simp]:
  "of_template tid [] = []" "of_template tid (rs @ ss) = of_template tid rs @ of_template tid ss"
  "of_template tid (map (\<lambda>f. (i, g f)) fs) = (if i = tid then map g fs else [])"
  by (simp_all add: of_template_def comp_def)

lemma read_no_sets [simp]: "read_sets tset T [] = Some (T, [])"
  by (simp add: read_sets.simps)

lemma put_then_fields: "(put c bs \<bind> (\<lambda>c. put_fields c fds)) = put c (bs @ fields_bytes fds)"
proof -
  have "put_fields d fds = put d (fields_bytes fds)" if "put c bs = Some d" for d
    using put_wrote [OF that] by (simp add: put_fields_put wrote_def)
  then have "(put c bs \<bind> (\<lambda>c. put_fields c fds)) = put c bs \<bind> (\<lambda>c. put c (fields_bytes fds))"
    by (auto cong: Option.bind_cong)
  then show ?thesis by (simp add: put_put)
qed

lemma write_ipfix_template_put: "write_ipfix_template c tid fds = put c (set_bytes 2 (template_body tid fds) 0)"
  by (simp add: write_ipfix_template_def puts put_then_fields set_bytes_def template_body_def ac_simps)

definition ipfix_tmpl :: "bool \<Rightarrow> bytes" where
  "ipfix_tmpl t = (if t then set_bytes 2 (template_body TEMPLATE_ID_V4 ipfix_v4_fields) 0 @
     set_bytes 2 (template_body TEMPLATE_ID_V6 ipfix_v6_fields) 0 else [])"

lemma length_ipfix_tmpl: "length (ipfix_tmpl t) = (if t then 104 else 0)"
  by (simp add: ipfix_tmpl_def template_body_def ipfix_v4_fields_def ipfix_v6_fields_def)

lemma ipfix_packet_wrote:
  assumes "list_all flow_wf v4" "list_all flow_wf v6" "length buf = NF_MAX_PACKET"
  shows "\<exists>c k4 k6. ipfix_packet t buf v4 v6 = Some (c, drop k4 v4, drop k6 v6) \<and> k4 \<le> length v4 \<and> k6 \<le> length v6 \<and>
    wrote (buf, IPFIX_HEADER_LEN) (ipfix_tmpl t @ ipfix_data ipfix_v4_enc TEMPLATE_ID_V4 (take k4 v4) @
      ipfix_data ipfix_v6_enc TEMPLATE_ID_V6 (take k6 v6)) c"
proof -
  have tmpl: "(if t then write_ipfix_template (buf, IPFIX_HEADER_LEN) TEMPLATE_ID_V4 ipfix_v4_fields \<bind>
         (\<lambda>c. write_ipfix_template c TEMPLATE_ID_V6 ipfix_v6_fields)
      else Some (buf, IPFIX_HEADER_LEN)) = put (buf, IPFIX_HEADER_LEN) (ipfix_tmpl t)"
    using assms(3) by (simp add: write_ipfix_template_put put_put ipfix_tmpl_def)
  obtain d where d: "put (buf, IPFIX_HEADER_LEN) (ipfix_tmpl t) = Some d"
    using put_Some [of "(buf, IPFIX_HEADER_LEN)" "ipfix_tmpl t"] assms(3) by (simp add: length_ipfix_tmpl split: if_splits)
  have snd: "snd d = 16 + length (ipfix_tmpl t)" "length (fst d) = NF_MAX_PACKET" using put_snd [OF d] assms(3) by simp_all
  define k4 where "k4 = fits IPFIX_V4_REC_LEN (snd d + 4) v4"
  have k4: "k4 \<le> length v4" by (simp add: k4_def fits_def)
  obtain e where e: "(if v4 \<noteq> [] then ipfix_data_set write_ipfix_v4_record IPFIX_V4_REC_LEN TEMPLATE_ID_V4 d v4
      else Some (d, v4)) = Some (e, drop k4 v4)" "wrote d (ipfix_data ipfix_v4_enc TEMPLATE_ID_V4 (take k4 v4)) e"
    using ipfix_v4.ipfix_data_set_maybe [OF assms(1), of d TEMPLATE_ID_V4] snd length_ipfix_tmpl [of t] k4_def by (auto split: if_splits)
  have "length (concat (map ipfix_v4_enc (take k4 v4))) = k4 * 47"
    using ipfix_v4.length_records [OF list_all_take [OF assms(1)], of k4] k4 by simp
  moreover have "k4 * 47 \<le> (NF_MAX_PACKET - (snd d + 4)) div 47 * 47" by (simp add: k4_def fits_def)
  ultimately have room: "snd e + 4 \<le> NF_MAX_PACKET"
    using e(2) snd length_ipfix_tmpl [of t] by (cases t) (auto simp: wrote_def ipfix_data_def split: if_splits)
  define k6 where "k6 = fits IPFIX_V6_REC_LEN (snd e + 4) v6"
  have k6: "k6 \<le> length v6" by (simp add: k6_def fits_def)
  have full: "length (fst e) = NF_MAX_PACKET" using e(2) snd by (simp add: wrote_def)
  obtain c where c: "(if v6 \<noteq> [] then ipfix_data_set write_ipfix_v6_record IPFIX_V6_REC_LEN TEMPLATE_ID_V6 e v6
      else Some (e, v6)) = Some (c, drop k6 v6)" "wrote e (ipfix_data ipfix_v6_enc TEMPLATE_ID_V6 (take k6 v6)) c"
    using ipfix_v6.ipfix_data_set_maybe [OF assms(2) full room, of TEMPLATE_ID_V6] k6_def by auto
  have "ipfix_packet t buf v4 v6 = Some (c, drop k4 v4, drop k6 v6)"
    unfolding ipfix_packet_def tmpl d using e(1) c(1) by (simp split: if_splits)
  with k4 k6 show ?thesis using wrote_trans [OF put_wrote [OF d] wrote_trans [OF e(2) c(2)]] by blast
qed

section \<open>IPFIX: every flow arrives\<close>

definition knows :: "templates \<Rightarrow> ps_nf_exporter \<Rightarrow> bool" where
  \<comment> \<open>the collector has the templates, unless the exporter is going to send them\<close>
  "knows T exp \<longleftrightarrow> v9_last_template_sec exp = 0 \<or>
     T 256 = Some (nat_template ipfix_v4_fields) \<and> T 257 = Some (nat_template ipfix_v6_fields)"

lemma need_template_knows:
  "need_template exp w = (t, w') \<Longrightarrow> w' = w\<lparr>w_reads := w_reads w + 1\<rparr> \<and> (t \<or> v9_last_template_sec exp \<noteq> 0)"
  by (auto simp: need_template_def now_sec_def Let_def)

lemma read_ipfix_sets:
  fixes T and t :: bool
  defines "T' \<equiv> (if t then T(256 \<mapsto> nat_template ipfix_v4_fields, 257 \<mapsto> nat_template ipfix_v6_fields) else T)"
  assumes "list_all flow_wf f4" "list_all flow_wf f6"
    and T: "t \<or> T 256 = Some (nat_template ipfix_v4_fields) \<and> T 257 = Some (nat_template ipfix_v6_fields)"
    and len: "length (ipfix_data ipfix_v4_enc TEMPLATE_ID_V4 f4) < 65536" "length (ipfix_data ipfix_v6_enc TEMPLATE_ID_V6 f6) < 65536"
  shows "read_sets 2 T (ipfix_tmpl t @ ipfix_data ipfix_v4_enc TEMPLATE_ID_V4 f4 @ ipfix_data ipfix_v6_enc TEMPLATE_ID_V6 f6) =
    Some (T', map (\<lambda>f. (256, ipfix_v4_vals f)) f4 @ map (\<lambda>f. (257, ipfix_v6_vals f)) f6)"
proof -
  have known: "T' 256 = Some (nat_template ipfix_v4_fields)" "T' 257 = Some (nat_template ipfix_v6_fields)"
    using T by (auto simp: T'_def)
  have "read_sets 2 T (ipfix_tmpl t @ bs) = read_sets 2 T' bs" for bs
    using read_template_set [of ipfix_v4_fields 2 T TEMPLATE_ID_V4] read_template_set [of ipfix_v6_fields 2 _ TEMPLATE_ID_V6 bs]
    by (simp add: ipfix_tmpl_def T'_def ipfix_v4_fields_def ipfix_v6_fields_def)
  then show ?thesis
    using ipfix_v4.read_ipfix_data [OF assms(2) len(1), of T' 2 "ipfix_data ipfix_v6_enc TEMPLATE_ID_V6 f6"]
      ipfix_v6.read_ipfix_data [OF assms(3) len(2), of T' 2 "[]"] known by simp
qed

lemma ipfix_header_put:
  "ipfix_header buf off now exp = put (buf, 0) (be16 10 @ be16 (of_nat off) @ be32 now @ be32 (flow_sequence exp) @ be32 (source_id exp))"
  by (simp add: ipfix_header_def puts)

lemma ipfix_message:
  assumes "list_all flow_wf v4" "list_all flow_wf v6" "knows T exp" "need_template exp w = (t, w1)" "length buf = NF_MAX_PACKET"
  obtains buf' off buf2 k4 k6 T' where
    "ipfix_packet t buf v4 v6 = Some ((buf', off), drop k4 v4, drop k6 v6)" "k4 \<le> length v4" "k6 \<le> length v6"
    "ipfix_header buf' off now exp = Some (buf2, 16)" "length (take off buf2) \<le> NF_MAX_PACKET"
    "ipfix_read T (take off buf2) =
       Some (T', map (\<lambda>f. (256, ipfix_v4_vals f)) (take k4 v4) @ map (\<lambda>f. (257, ipfix_v6_vals f)) (take k6 v6))"
    "T' 256 = Some (nat_template ipfix_v4_fields)" "T' 257 = Some (nat_template ipfix_v6_fields)"
proof -
  obtain buf' off k4 k6 where packet: "ipfix_packet t buf v4 v6 = Some ((buf', off), drop k4 v4, drop k6 v6)" "k4 \<le> length v4" "k6 \<le> length v6"
    and w: "wrote (buf, IPFIX_HEADER_LEN) (ipfix_tmpl t @ ipfix_data ipfix_v4_enc TEMPLATE_ID_V4 (take k4 v4) @
      ipfix_data ipfix_v6_enc TEMPLATE_ID_V6 (take k6 v6)) (buf', off)" (is "wrote _ ?sets _")
    using ipfix_packet_wrote [OF assms(1,2,5), of t] by auto
  let ?h = "be16 10 @ be16 (of_nat off) @ be32 now @ be32 (flow_sequence exp) @ be32 (source_id exp)"
  let ?T = "if t then T(256 \<mapsto> nat_template ipfix_v4_fields, 257 \<mapsto> nat_template ipfix_v6_fields) else T"
  have h: "length ?h = 16" by simp
  obtain buf2 where buf2: "put (buf', 0) ?h = Some (buf2, 16)" "take off buf2 = ?h @ ?sets"
    using wrote_header [of buf ?h ?sets buf' off] w h assms(5) by auto
  have off: "off = 16 + length ?sets" "off \<le> NF_MAX_PACKET" using w assms(5) by (simp_all add: wrote_def)
  have T: "t \<or> T 256 = Some (nat_template ipfix_v4_fields) \<and> T 257 = Some (nat_template ipfix_v6_fields)"
    using need_template_knows [OF assms(4)] assms(3) by (auto simp: knows_def)
  have read: "read_sets 2 T ?sets = Some (?T, map (\<lambda>f. (256, ipfix_v4_vals f)) (take k4 v4) @ map (\<lambda>f. (257, ipfix_v6_vals f)) (take k6 v6))"
    by (rule read_ipfix_sets [OF list_all_take [OF assms(1)] list_all_take [OF assms(2)] T]) (use off in simp_all)
  have "unat (of_nat off :: 16 word) = off" using off(2) by (simp add: unat_of_nat)
  then have parts: "num (take 2 (?h @ ?sets)) = 10" "num (take 2 (drop 2 (?h @ ?sets))) = length (?h @ ?sets)" "drop 16 (?h @ ?sets) = ?sets"
    using off(1) by simp_all
  have "ipfix_read T (take off buf2) = read_sets 2 T ?sets"
    unfolding buf2(2) ipfix_read_def parts by simp
  moreover have "length (take off buf2) \<le> NF_MAX_PACKET" using off by simp
  ultimately show thesis
    using that [OF packet, of buf2 ?T] buf2(1) read T by (simp add: ipfix_header_put split: if_splits)
qed

lemma length_fresh_buf [simp]: "length (fresh_buf w n) = n"
  by (simp add: fresh_buf_def)

lemma w_up_reads [simp]: "w_up (snd (now_sec w)) = w_up w" "w_out (snd (now_sec w)) = w_out w" "w_sends (snd (now_sec w)) = w_sends w"
  by (simp_all add: now_sec_def)

definition ipfix_outcome ::
  "templates \<Rightarrow> nf_world \<Rightarrow> int \<Rightarrow> ps_flow list \<Rightarrow> ps_flow list \<Rightarrow> int option \<times> ps_nf_exporter \<times> nf_world \<Rightarrow> bool" where
  \<comment> \<open>what the collector has after a run of the loop\<close>
  "ipfix_outcome T w n v4 v6 res \<longleftrightarrow>
     (case res of (r, exp', w') \<Rightarrow>
        w_up w' = w_up w \<and> (\<exists>out T' recs k4 k6. w_out w' = w_out w @ out \<and> list_all (\<lambda>p. length p \<le> NF_MAX_PACKET) out \<and>
          collect ipfix_read T out = Some (T', recs) \<and> knows T' exp' \<and>
          of_template 256 recs = map ipfix_v4_vals (take k4 v4) \<and> of_template 257 recs = map ipfix_v6_vals (take k6 v6) \<and>
          (case r of Some m \<Rightarrow> m = n + int (length out) \<and> k4 = length v4 \<and> k6 = length v6 | None \<Rightarrow> \<not> (\<forall>i. w_up w i))))"

lemma ipfix_outcome_step:
  assumes "ipfix_outcome T1 w1 (n + 1) (drop k4 v4) (drop k6 v6) res" "k4 \<le> length v4" "k6 \<le> length v6"
    and "w_up w1 = w_up w" "w_out w1 = w_out w @ [p]" "length p \<le> NF_MAX_PACKET"
    and "ipfix_read T p = Some (T1, map (\<lambda>f. (256, ipfix_v4_vals f)) (take k4 v4) @ map (\<lambda>f. (257, ipfix_v6_vals f)) (take k6 v6))"
  shows "ipfix_outcome T w n v4 v6 res"
proof -
  obtain r exp' w' where res: "res = (r, exp', w')" by (cases res)
  from assms(1) obtain out T' recs j4 j6 where
    up: "w_up w' = w_up w1" and out: "w_out w' = w_out w1 @ out" "list_all (\<lambda>p. length p \<le> NF_MAX_PACKET) out"
    and read: "collect ipfix_read T1 out = Some (T', recs)" "knows T' exp'"
    and recs: "of_template 256 recs = map ipfix_v4_vals (take j4 (drop k4 v4))" "of_template 257 recs = map ipfix_v6_vals (take j6 (drop k6 v6))"
    and r: "case r of Some m \<Rightarrow> m = n + 1 + int (length out) \<and> j4 = length (drop k4 v4) \<and> j6 = length (drop k6 v6)
            | None \<Rightarrow> \<not> (\<forall>i. w_up w1 i)"
    unfolding ipfix_outcome_def res by auto
  let ?recs = "(map (\<lambda>f. (256, ipfix_v4_vals f)) (take k4 v4) @ map (\<lambda>f. (257, ipfix_v6_vals f)) (take k6 v6)) @ recs"
  have "collect ipfix_read T (p # out) = Some (T', ?recs)" using assms(7) read(1) by simp
  moreover have "of_template 256 ?recs = map ipfix_v4_vals (take (k4 + j4) v4)" "of_template 257 ?recs = map ipfix_v6_vals (take (k6 + j6) v6)"
    using recs by (simp_all add: take_add)
  moreover have "case r of Some m \<Rightarrow> m = n + int (length (p # out)) \<and> k4 + j4 = length v4 \<and> k6 + j6 = length v6 | None \<Rightarrow> \<not> (\<forall>i. w_up w i)"
    using r assms(2-4) by (auto split: option.splits)
  moreover have "w_out w' = w_out w @ (p # out)" "list_all (\<lambda>p. length p \<le> NF_MAX_PACKET) (p # out)" using out assms(5,6) by simp_all
  moreover have "w_up w' = w_up w" using up assms(4) by simp
  ultimately show ?thesis unfolding ipfix_outcome_def res prod.case using read(2) by blast
qed

lemma export_ipfix_loop_collected:
  assumes "list_all flow_wf v4" "list_all flow_wf v6" "knows T exp"
  shows "\<exists>res. export_ipfix_loop exp w n v4 v6 = Some res \<and> ipfix_outcome T w n v4 v6 res \<and> nf_version (fst (snd res)) = nf_version exp"
  using assms
proof (induction "length v4 + length v6" arbitrary: exp w n v4 v6 T rule: less_induct)
  case less
  show ?case
  proof (cases "v4 = [] \<and> v6 = []")
    case True
    then show ?thesis using less.prems(3) by (auto simp: export_ipfix_loop.simps ipfix_outcome_def intro!: exI [of _ "[]"])
  next
    case False
    obtain t w1 where t: "need_template exp w = (t, w1)" by fastforce
    obtain now w2 where now: "now_sec w1 = (now, w2)" by fastforce
    obtain buf' off buf2 k4 k6 T1 where
      packet: "ipfix_packet t (fresh_buf w1 NF_MAX_PACKET) v4 v6 = Some ((buf', off), drop k4 v4, drop k6 v6)" "k4 \<le> length v4" "k6 \<le> length v6"
      and hdr: "ipfix_header buf' off now exp = Some (buf2, 16)" and size: "length (take off buf2) \<le> NF_MAX_PACKET"
      and read: "ipfix_read T (take off buf2) =
         Some (T1, map (\<lambda>f. (256, ipfix_v4_vals f)) (take k4 v4) @ map (\<lambda>f. (257, ipfix_v6_vals f)) (take k6 v6))"
      and T1: "T1 256 = Some (nat_template ipfix_v4_fields)" "T1 257 = Some (nat_template ipfix_v6_fields)"
      by (rule ipfix_message [OF less.prems t length_fresh_buf])
    have w2: "w_up w2 = w_up w" "w_out w2 = w_out w" "w_sends w2 = w_sends w"
      using need_template_knows [OF t] now w_up_reads [of w1] by simp_all
    have smaller: "length (drop k4 v4) + length (drop k6 v6) < length v4 + length v6"
      by (rule ipfix_packet_rest [OF packet(1)]) (use False in auto)
    have knows: "knows T1 exp'" for exp' using T1 by (simp add: knows_def)
    show ?thesis
    proof (cases "w_up w2 (w_sends w2)")
      case up: False
      then have "export_ipfix_loop exp w n v4 v6 = Some (None, exp, w2\<lparr>w_sends := w_sends w2 + 1\<rparr>)"
        using False t now packet(1) hdr by (subst export_ipfix_loop.simps) (simp add: send_udp_def)
      moreover have "ipfix_outcome T w n v4 v6 (None, exp, w2\<lparr>w_sends := w_sends w2 + 1\<rparr>)"
        unfolding ipfix_outcome_def prod.case
        by (rule conjI, use w2 in simp, rule exI [of _ "[]"], rule exI [of _ T], rule exI [of _ "[]"], rule exI [of _ 0], rule exI [of _ 0])
          (use up w2 less.prems(3) in auto)
      ultimately show ?thesis by simp
    next
      case up: True
      define w3 where "w3 = w2\<lparr>w_sends := w_sends w2 + 1, w_out := w_out w2 @ [take off buf2]\<rparr>"
      define exp1 where "exp1 = exp\<lparr>v9_pkts_since_template := v9_pkts_since_template exp + 1\<rparr>"
      define exp2 where "exp2 = (if t then exp1\<lparr>v9_last_template_sec := ucast (fst (now_sec w3)), v9_pkts_since_template := 0\<rparr> else exp1)"
      define w4 where "w4 = (if t then snd (now_sec w3) else w3)"
      have step: "export_ipfix_loop exp w n v4 v6 = export_ipfix_loop exp2 w4 (n + 1) (drop k4 v4) (drop k6 v6)"
        using False t now packet(1) hdr up
        by (subst export_ipfix_loop.simps) (auto simp: send_udp_def w3_def exp1_def exp2_def w4_def Let_def split_def)
      have w4: "w_up w4 = w_up w" "w_out w4 = w_out w @ [take off buf2]" using w2 by (simp_all add: w4_def w3_def)
      have v: "nf_version exp2 = nf_version exp" by (simp add: exp2_def exp1_def)
      from less.hyps [OF smaller list_all_drop [OF less.prems(1)] list_all_drop [OF less.prems(2)] knows, of exp2 w4 "n + 1"]
      obtain res where "export_ipfix_loop exp2 w4 (n + 1) (drop k4 v4) (drop k6 v6) = Some res"
        "ipfix_outcome T1 w4 (n + 1) (drop k4 v4) (drop k6 v6) res" "nf_version (fst (snd res)) = nf_version exp2" by blast
      then show ?thesis using ipfix_outcome_step [OF _ packet(2,3) w4 size read] step v by auto
    qed
  qed
qed

definition v6_flow :: "ps_flow \<Rightarrow> bool" where
  "v6_flow f \<longleftrightarrow> \<not> is_v4 f \<and> is_v6 f"

lemma ipfix_split_filter: "length flows \<le> room \<Longrightarrow> ipfix_split room flows = (filter is_v4 flows, filter v6_flow flows)"
  by (induction room flows rule: ipfix_split.induct) (auto simp: v6_flow_def)

fun send_batches :: "ps_nf_exporter \<Rightarrow> nf_world \<Rightarrow> ps_flow list list \<Rightarrow> (int list \<times> ps_nf_exporter \<times> nf_world) option" where
  \<comment> \<open>a sequence of calls, with the values they return\<close>
  "send_batches exp w [] = Some ([], exp, w)"
| "send_batches exp w (b # bs) = do {
     (rc, exp, w) \<leftarrow> ps_nf_exporter_send exp w b;
     (rcs, exp, w) \<leftarrow> send_batches exp w bs;
     Some (rc # rcs, exp, w)
   }"

lemma ipfix_send_collected:
  assumes "list_all flow_wf flows" "length flows \<le> IPFIX_MAX_FLOWS" "knows T exp" "nf_version exp = 10"
  shows "\<exists>rc exp' w' out T' recs. ps_nf_exporter_send exp w flows = Some (rc, exp', w') \<and> nf_version exp' = 10 \<and> knows T' exp' \<and>
    w_up w' = w_up w \<and> w_out w' = w_out w @ out \<and> list_all (\<lambda>p. length p \<le> NF_MAX_PACKET) out \<and>
    collect ipfix_read T out = Some (T', recs) \<and> ((\<forall>i. w_up w i) \<longrightarrow> 0 \<le> rc) \<and>
    (0 \<le> rc \<longrightarrow> of_template 256 recs = map ipfix_v4_vals (filter is_v4 flows) \<and>
                of_template 257 recs = map ipfix_v6_vals (filter v6_flow flows))"
proof (cases "flows = []")
  case True
  then show ?thesis using assms(3,4) by (auto simp: ps_nf_exporter_send_def)
next
  case False
  let ?v4 = "filter is_v4 flows" and ?v6 = "filter v6_flow flows"
  have wf: "list_all flow_wf ?v4" "list_all flow_wf ?v6" using assms(1) by (simp_all add: list_all_iff)
  from export_ipfix_loop_collected [OF this assms(3), of w 0] obtain r exp1 w1 where
    loop: "export_ipfix_loop exp w 0 ?v4 ?v6 = Some (r, exp1, w1)" and out: "ipfix_outcome T w 0 ?v4 ?v6 (r, exp1, w1)"
    and v: "nf_version exp1 = 10" using assms(4) by auto
  have split: "ipfix_split IPFIX_MAX_FLOWS flows = (?v4, ?v6)" by (rule ipfix_split_filter [OF assms(2)])
  from out obtain ps T' recs k4 k6 where *:
    "w_up w1 = w_up w" "w_out w1 = w_out w @ ps" "list_all (\<lambda>p. length p \<le> NF_MAX_PACKET) ps"
    "collect ipfix_read T ps = Some (T', recs)" "knows T' exp1"
    "of_template 256 recs = map ipfix_v4_vals (take k4 ?v4)" "of_template 257 recs = map ipfix_v6_vals (take k6 ?v6)"
    "case r of Some m \<Rightarrow> m = 0 + int (length ps) \<and> k4 = length ?v4 \<and> k6 = length ?v6 | None \<Rightarrow> \<not> (\<forall>i. w_up w i)"
    unfolding ipfix_outcome_def prod.case by blast
  show ?thesis
  proof (cases r)
    case None
    then have "ps_nf_exporter_send exp w flows = Some (- 1, exp1, w1)"
      using False assms(4) split loop by (simp add: ps_nf_exporter_send_def export_ipfix_def)
    with None * v show ?thesis by auto
  next
    case (Some m)
    let ?exp = "exp1\<lparr>flow_sequence := flow_sequence exp1 + of_nat (length flows)\<rparr>"
    have "ps_nf_exporter_send exp w flows = Some (m, ?exp, w1)"
      using Some False assms(4) split loop by (simp add: ps_nf_exporter_send_def export_ipfix_def)
    moreover have "knows T' ?exp" "nf_version ?exp = 10" using *(5) v by (simp_all add: knows_def)
    moreover have "0 \<le> m" "take k4 ?v4 = ?v4" "take k6 ?v6 = ?v6" using *(8) Some by simp_all
    ultimately show ?thesis using *(1-7) by auto
  qed
qed

lemma ipfix_batches_collected:
  assumes "list_all (list_all flow_wf) bs" "list_all (\<lambda>b. length b \<le> IPFIX_MAX_FLOWS) bs" "knows T exp" "nf_version exp = 10"
  shows "\<exists>rcs exp' w' out T' recs. send_batches exp w bs = Some (rcs, exp', w') \<and> w_out w' = w_out w @ out \<and>
    list_all (\<lambda>p. length p \<le> NF_MAX_PACKET) out \<and> collect ipfix_read T out = Some (T', recs) \<and>
    ((\<forall>i. w_up w i) \<longrightarrow> list_all (\<lambda>rc. 0 \<le> rc) rcs) \<and>
    (list_all (\<lambda>rc. 0 \<le> rc) rcs \<longrightarrow> of_template 256 recs = map ipfix_v4_vals (filter is_v4 (concat bs)) \<and>
       of_template 257 recs = map ipfix_v6_vals (filter v6_flow (concat bs)))"
  using assms
proof (induction bs arbitrary: exp w T)
  case (Cons b bs)
  have b: "list_all flow_wf b" "length b \<le> IPFIX_MAX_FLOWS" "list_all (list_all flow_wf) bs" "list_all (\<lambda>b. length b \<le> IPFIX_MAX_FLOWS) bs"
    using Cons.prems by simp_all
  obtain rc exp1 w1 out1 T1 recs1 where 1: "ps_nf_exporter_send exp w b = Some (rc, exp1, w1)" "nf_version exp1 = 10" "knows T1 exp1"
    "w_up w1 = w_up w" "w_out w1 = w_out w @ out1" "list_all (\<lambda>p. length p \<le> NF_MAX_PACKET) out1"
    "collect ipfix_read T out1 = Some (T1, recs1)" "(\<forall>i. w_up w i) \<longrightarrow> 0 \<le> rc"
    "0 \<le> rc \<longrightarrow> of_template 256 recs1 = map ipfix_v4_vals (filter is_v4 b) \<and> of_template 257 recs1 = map ipfix_v6_vals (filter v6_flow b)"
    using ipfix_send_collected [OF b(1,2) Cons.prems(3,4), of w] by blast
  obtain rcs exp2 w2 out2 T2 recs2 where 2: "send_batches exp1 w1 bs = Some (rcs, exp2, w2)" "w_out w2 = w_out w1 @ out2"
    "list_all (\<lambda>p. length p \<le> NF_MAX_PACKET) out2" "collect ipfix_read T1 out2 = Some (T2, recs2)"
    "(\<forall>i. w_up w1 i) \<longrightarrow> list_all (\<lambda>rc. 0 \<le> rc) rcs"
    "list_all (\<lambda>rc. 0 \<le> rc) rcs \<longrightarrow> of_template 256 recs2 = map ipfix_v4_vals (filter is_v4 (concat bs)) \<and>
       of_template 257 recs2 = map ipfix_v6_vals (filter v6_flow (concat bs))"
    using Cons.IH [OF b(3,4) 1(3) 1(2), of w1] by blast
  have "send_batches exp w (b # bs) = Some (rc # rcs, exp2, w2)" using 1(1) 2(1) by simp
  then show ?case using 1 2 collect_append [OF 1(7) 2(4)] by auto
qed simp

section \<open>NetFlow version 9: every flow arrives\<close>

lemma write_template_flowset_put:
  assumes "8 + 4 * length fds \<le> m" "length fds < 100"
  shows "write_template_flowset c m tid fds =
    map_option (Pair (int (8 + 4 * length fds))) (put c (set_bytes 0 (template_body tid fds) 0))"
proof -
  have pad: "pad4 (8 + 4 * length fds) = 8 + 4 * length fds" by (simp add: pad4_def)
  have done_: "pad_to d (snd c + (8 + 4 * length fds)) = Some d" if "put c (set_bytes 0 (template_body tid fds) 0) = Some d" for d
    using put_wrote [OF that] by (simp add: pad_to_def wrote_def template_body_def)
  have "write_template_flowset c m tid fds = (put c (set_bytes 0 (template_body tid fds) 0) \<bind>
      (\<lambda>d. pad_to d (snd c + (8 + 4 * length fds)) \<bind> (\<lambda>d. Some (int (8 + 4 * length fds), d))))"
    using assms(1) pad unfolding write_template_flowset_def
    by (simp add: puts put_then_fields set_bytes_def template_body_def Let_def mult.commute flip: bind_assoc)
  then show ?thesis using done_ by (cases "put c (set_bytes 0 (template_body tid fds) 0)") simp_all
qed

definition v9_tmpl :: "bool \<Rightarrow> bool \<Rightarrow> bytes" where
  "v9_tmpl t any6 = (if t then set_bytes 0 (template_body TEMPLATE_ID_V4 tmpl_v4_fields) 0 @
     (if any6 then set_bytes 0 (template_body TEMPLATE_ID_V6 tmpl_v6_fields) 0 else []) else [])"

lemma length_v9_tmpl: "length (v9_tmpl t any6) = (if t then if any6 then 104 else 52 else 0)"
  by (simp add: v9_tmpl_def template_body_def tmpl_v4_fields_def tmpl_v6_fields_def)

lemma v9_templates_put:
  assumes "length (fst c) = NF_MAX_PACKET" "snd c = NFV9_HEADER_LEN"
  shows "\<exists>n d. v9_templates any6 c = Some (n, d) \<and> 0 < n \<and> put c (v9_tmpl True any6) = Some d"
proof -
  let ?s4 = "set_bytes 0 (template_body TEMPLATE_ID_V4 tmpl_v4_fields) 0" and ?s6 = "set_bytes 0 (template_body TEMPLATE_ID_V6 tmpl_v6_fields) 0"
  have l: "length tmpl_v4_fields = 11" "length tmpl_v6_fields = 11" by (simp_all add: tmpl_v4_fields_def tmpl_v6_fields_def)
  have len: "length ?s4 = 52" "length ?s6 = 52" by (simp_all add: template_body_def l)
  obtain d where d: "put c ?s4 = Some d" using put_Some [of c ?s4] assms len by simp
  have d': "snd d = 72" "length (fst d) = NF_MAX_PACKET" using put_snd [OF d] assms len by simp_all
  obtain e where e: "put d ?s6 = Some e" using put_Some [of d ?s6] d' len by simp
  have "put c (?s4 @ ?s6) = Some e" using d e by (simp flip: put_put)
  then show ?thesis
    using d e d' assms by (simp add: v9_templates_def write_template_flowset_put l v9_tmpl_def)
qed

lemma v9_packet_wrote:
  assumes "list_all flow_wf v4" "list_all flow_wf v6" "length buf = NF_MAX_PACKET" "v4 \<noteq> [] \<or> v6 \<noteq> []"
  shows "\<exists>n c k4 k6. v9_packet exp t any6 buf v4 v6 = Some (n, c, drop k4 v4, drop k6 v6) \<and> 0 < n \<and> k4 \<le> length v4 \<and> k6 \<le> length v6 \<and>
    wrote (buf, NFV9_HEADER_LEN) (v9_tmpl t any6 @ v9_data (v9_v4_enc exp) TEMPLATE_ID_V4 (take k4 v4) @
      v9_data (v9_v6_enc exp) TEMPLATE_ID_V6 (take k6 v6)) c"
proof -
  obtain m d where d: "(if t then v9_templates any6 (buf, NFV9_HEADER_LEN) else Some (0, (buf, NFV9_HEADER_LEN))) = Some (m, d)"
    "put (buf, NFV9_HEADER_LEN) (v9_tmpl t any6) = Some d"
    using v9_templates_put [of "(buf, NFV9_HEADER_LEN)" any6] assms(3) by (cases t) (auto simp: v9_tmpl_def)
  have snd: "snd d = 20 + length (v9_tmpl t any6)" "length (fst d) = NF_MAX_PACKET" using put_snd [OF d(2)] assms(3) by simp_all
  have sd: "snd d \<le> 124" "snd d mod 4 = 0" using snd(1) by (simp_all add: length_v9_tmpl)
  obtain n4 e k4 where e: "(if v4 \<noteq> [] then v9_data_flowset (write_v4_data_record exp) TMPL_V4_RECORD_LEN TEMPLATE_ID_V4 d v4
      else Some (0, d, v4)) = Some (n4, e, drop k4 v4)" "wrote d (v9_data (v9_v4_enc exp) TEMPLATE_ID_V4 (take k4 v4)) e"
    and k4: "k4 \<le> length v4" "v4 \<noteq> [] \<longrightarrow> 0 < n4"
  proof (cases "v4 = []")
    case True
    then show thesis using that [of 0 d 0] wrote_Nil [of d] sd snd by (simp add: v9_data_def)
  next
    case False
    let ?k = "fits TMPL_V4_RECORD_LEN (snd d + 4) v4"
    obtain e where "v9_data_flowset (write_v4_data_record exp) TMPL_V4_RECORD_LEN TEMPLATE_ID_V4 d v4 = Some (1, e, drop ?k v4)"
      "wrote d (v9_data (v9_v4_enc exp) TEMPLATE_ID_V4 (take ?k v4)) e"
      using v9_v4.v9_data_flowset_maybe [OF assms(1) snd(2) sd(2), of exp TEMPLATE_ID_V4] sd(1) False by auto
    then show thesis using that [of 1 e ?k] False by (simp add: fits_def)
  qed
  have full: "length (fst e) = NF_MAX_PACKET" "snd e \<le> NF_MAX_PACKET" "snd e mod 4 = 0"
    using e(2) snd sd pad4_bounds(3) by (auto simp: wrote_def length_v9_data mod_add_eq [symmetric] simp del: mod_add_eq)
  obtain n6 c k6 where c: "(if v6 \<noteq> [] \<and> snd e + 4 + TMPL_V6_RECORD_LEN \<le> NF_MAX_PACKET
      then v9_data_flowset (write_v6_data_record exp) TMPL_V6_RECORD_LEN TEMPLATE_ID_V6 e v6
      else Some (0, e, v6)) = Some (n6, c, drop k6 v6)" "wrote e (v9_data (v9_v6_enc exp) TEMPLATE_ID_V6 (take k6 v6)) c"
    and k6: "k6 \<le> length v6" "v6 \<noteq> [] \<and> snd e + 4 + TMPL_V6_RECORD_LEN \<le> NF_MAX_PACKET \<longrightarrow> 0 < n6"
  proof (cases "v6 \<noteq> [] \<and> snd e + 4 + TMPL_V6_RECORD_LEN \<le> NF_MAX_PACKET")
    case False
    then show thesis using that [of 0 e 0] wrote_Nil [of e] full by (auto simp: v9_data_def)
  next
    case True
    let ?k = "fits TMPL_V6_RECORD_LEN (snd e + 4) v6"
    obtain c where "v9_data_flowset (write_v6_data_record exp) TMPL_V6_RECORD_LEN TEMPLATE_ID_V6 e v6 = Some (1, c, drop ?k v6)"
      "wrote e (v9_data (v9_v6_enc exp) TEMPLATE_ID_V6 (take ?k v6)) c"
      using v9_v6.v9_data_flowset_maybe [OF assms(2) full(1,3), of exp TEMPLATE_ID_V6] True by auto
    then show thesis using that [of 1 c ?k] True by (simp add: fits_def)
  qed
  have "v9_packet exp t any6 buf v4 v6 = Some (m + n4 + n6, c, drop k4 v4, drop k6 v6)"
    unfolding v9_packet_def d(1) using e(1) c(1) by (simp split: if_splits)
  moreover have "0 < m + n4 + n6"
  proof (cases "v4 = []")
    case True
    then have "snd e = snd d" using e(2) by (simp add: wrote_def v9_data_def)
    with True k6(2) assms(4) sd(1) show ?thesis by simp
  qed (use k4(2) in simp)
  ultimately show ?thesis using k4(1) k6(1) wrote_trans [OF put_wrote [OF d(2)] wrote_trans [OF e(2) c(2)]] by blast
qed

definition v9_knows :: "templates \<Rightarrow> bool \<Rightarrow> ps_nf_exporter \<Rightarrow> bool" where
  "v9_knows T any6 exp \<longleftrightarrow> v9_last_template_sec exp = 0 \<or>
     T 256 = Some (nat_template tmpl_v4_fields) \<and> (any6 \<longrightarrow> T 257 = Some (nat_template tmpl_v6_fields))"

lemma read_v9_sets:
  fixes T and t any6 :: bool
  defines "T1 \<equiv> (if t then T(256 \<mapsto> nat_template tmpl_v4_fields) else T)"
  defines "T' \<equiv> (if t \<and> any6 then T1(257 \<mapsto> nat_template tmpl_v6_fields) else T1)"
  assumes "list_all flow_wf f4" "list_all flow_wf f6" "f6 \<noteq> [] \<longrightarrow> any6"
    and T: "t \<or> T 256 = Some (nat_template tmpl_v4_fields) \<and> (any6 \<longrightarrow> T 257 = Some (nat_template tmpl_v6_fields))"
    and len: "length (v9_data (v9_v4_enc exp) TEMPLATE_ID_V4 f4) < 65536" "length (v9_data (v9_v6_enc exp) TEMPLATE_ID_V6 f6) < 65536"
  shows "read_sets 0 T (v9_tmpl t any6 @ v9_data (v9_v4_enc exp) TEMPLATE_ID_V4 f4 @ v9_data (v9_v6_enc exp) TEMPLATE_ID_V6 f6) =
    Some (T', map (\<lambda>f. (256, v9_v4_vals exp f)) f4 @ map (\<lambda>f. (257, v9_v6_vals exp f)) f6) \<and> (\<forall>exp'. v9_knows T' any6 exp')"
proof -
  have known: "T' 256 = Some (nat_template tmpl_v4_fields)" "any6 \<longrightarrow> T' 257 = Some (nat_template tmpl_v6_fields)"
    using T by (auto simp: T'_def T1_def)
  have "read_sets 0 T (v9_tmpl t any6 @ bs) = read_sets 0 T' bs" for bs
    using read_template_set [of tmpl_v4_fields 0 T TEMPLATE_ID_V4] read_template_set [of tmpl_v6_fields 0 _ TEMPLATE_ID_V6 bs]
    by (simp add: v9_tmpl_def T'_def T1_def tmpl_v4_fields_def tmpl_v6_fields_def)
  then show ?thesis
    using v9_v4.read_v9_data [OF assms(3) len(1), of T' 0 "v9_data (v9_v6_enc exp) TEMPLATE_ID_V6 f6"]
      v9_v6.read_v9_data [OF assms(4) len(2), of T' 0 "[]"] known assms(5) by (simp add: v9_knows_def)
qed

lemma write_v9_header_put:
  "write_v9_header buf n uptime secs seq src = put (buf, 0) (be16 9 @ be16 n @ be32 uptime @ be32 secs @ be32 seq @ be32 src)"
  by (simp add: write_v9_header_def puts)

lemma v9_message:
  assumes "list_all flow_wf v4" "list_all flow_wf v6" "v4 \<noteq> [] \<or> v6 \<noteq> []" "v6 \<noteq> [] \<longrightarrow> any6"
    and "v9_knows T any6 exp" "need_template exp w = (t, w1)" "length buf = NF_MAX_PACKET"
  obtains n buf' off buf2 k4 k6 T' where
    "v9_packet exp t any6 buf v4 v6 = Some (n, (buf', off), drop k4 v4, drop k6 v6)" "0 < n" "k4 \<le> length v4" "k6 \<le> length v6"
    "write_v9_header buf' (of_nat n) uptime secs seq src = Some (buf2, 20)" "length (take off buf2) \<le> NF_MAX_PACKET"
    "v9_read T (take off buf2) =
       Some (T', map (\<lambda>f. (256, v9_v4_vals exp f)) (take k4 v4) @ map (\<lambda>f. (257, v9_v6_vals exp f)) (take k6 v6))"
    "\<forall>exp'. v9_knows T' any6 exp'"
proof -
  obtain n buf' off k4 k6 where packet: "v9_packet exp t any6 buf v4 v6 = Some (n, (buf', off), drop k4 v4, drop k6 v6)" "0 < n"
      "k4 \<le> length v4" "k6 \<le> length v6"
    and w: "wrote (buf, NFV9_HEADER_LEN) (v9_tmpl t any6 @ v9_data (v9_v4_enc exp) TEMPLATE_ID_V4 (take k4 v4) @
      v9_data (v9_v6_enc exp) TEMPLATE_ID_V6 (take k6 v6)) (buf', off)" (is "wrote _ ?sets _")
    using v9_packet_wrote [OF assms(1,2,7,3), of exp t any6] by auto
  let ?h = "be16 9 @ be16 (of_nat n) @ be32 uptime @ be32 secs @ be32 seq @ be32 src"
  have h: "length ?h = 20" by simp
  obtain buf2 where buf2: "put (buf', 0) ?h = Some (buf2, 20)" "take off buf2 = ?h @ ?sets"
    using wrote_header [of buf ?h ?sets buf' off] w h assms(7) by auto
  have off: "off = 20 + length ?sets" "off \<le> NF_MAX_PACKET" using w assms(7) by (simp_all add: wrote_def)
  have T: "t \<or> T 256 = Some (nat_template tmpl_v4_fields) \<and> (any6 \<longrightarrow> T 257 = Some (nat_template tmpl_v6_fields))"
    using need_template_knows [OF assms(6)] assms(5) by (auto simp: v9_knows_def)
  have f6: "take k6 v6 \<noteq> [] \<longrightarrow> any6" using assms(4) by auto
  have lens: "length (v9_data (v9_v4_enc exp) TEMPLATE_ID_V4 (take k4 v4)) < 65536" "length (v9_data (v9_v6_enc exp) TEMPLATE_ID_V6 (take k6 v6)) < 65536"
    using off by simp_all
  obtain T' where read: "read_sets 0 T ?sets = Some (T', map (\<lambda>f. (256, v9_v4_vals exp f)) (take k4 v4) @ map (\<lambda>f. (257, v9_v6_vals exp f)) (take k6 v6))"
    "\<forall>exp'. v9_knows T' any6 exp'"
    using read_v9_sets [OF list_all_take [OF assms(1)] list_all_take [OF assms(2)] f6 T lens] by blast
  have parts: "num (take 2 (?h @ ?sets)) = 9" "drop 20 (?h @ ?sets) = ?sets" by simp_all
  have "v9_read T (take off buf2) = read_sets 0 T ?sets" unfolding buf2(2) v9_read_def parts by simp
  moreover have "length (take off buf2) \<le> NF_MAX_PACKET" using off by simp
  ultimately show thesis using that [OF packet, of buf2 T'] buf2(1) read by (simp add: write_v9_header_put)
qed

lemma v9_vals_boot:
  "boot_time_sec exp = boot_time_sec exp' \<Longrightarrow> v9_v4_vals exp = v9_v4_vals exp' \<and> v9_v6_vals exp = v9_v6_vals exp'"
  by (intro conjI ext) (simp_all add: v9_v4_vals_def v9_v6_vals_def flow_ts_to_uptime_def Let_def)

definition v9_outcome ::
  "ps_nf_exporter \<Rightarrow> templates \<Rightarrow> bool \<Rightarrow> nf_world \<Rightarrow> int \<Rightarrow> ps_flow list \<Rightarrow> ps_flow list \<Rightarrow> int \<times> ps_nf_exporter \<times> nf_world \<Rightarrow> bool" where
  "v9_outcome e T any6 w n v4 v6 res \<longleftrightarrow>
     (case res of (m, exp', w') \<Rightarrow>
        w_up w' = w_up w \<and> (\<exists>out T' recs. w_out w' = w_out w @ out \<and> list_all (\<lambda>p. length p \<le> NF_MAX_PACKET) out \<and>
          collect v9_read T out = Some (T', recs) \<and> v9_knows T' any6 exp' \<and> m = n + int (length out) \<and>
          of_template 256 recs = map (v9_v4_vals e) v4 \<and> of_template 257 recs = map (v9_v6_vals e) v6))"

lemma v9_outcome_step:
  assumes "v9_outcome e T1 any6 w1 (n + 1) (drop k4 v4) (drop k6 v6) res"
    and "w_up w1 = w_up w" "w_out w1 = w_out w @ [p]" "length p \<le> NF_MAX_PACKET"
    and "v9_read T p = Some (T1, map (\<lambda>f. (256, v9_v4_vals e f)) (take k4 v4) @ map (\<lambda>f. (257, v9_v6_vals e f)) (take k6 v6))"
  shows "v9_outcome e T any6 w n v4 v6 res"
proof -
  obtain m exp' w' where res: "res = (m, exp', w')" by (cases res)
  from assms(1) obtain out T' recs where
    up: "w_up w' = w_up w1" and out: "w_out w' = w_out w1 @ out" "list_all (\<lambda>p. length p \<le> NF_MAX_PACKET) out"
    and read: "collect v9_read T1 out = Some (T', recs)" "v9_knows T' any6 exp'" "m = n + 1 + int (length out)"
    and recs: "of_template 256 recs = map (v9_v4_vals e) (drop k4 v4)" "of_template 257 recs = map (v9_v6_vals e) (drop k6 v6)"
    unfolding v9_outcome_def res by auto
  let ?recs = "(map (\<lambda>f. (256, v9_v4_vals e f)) (take k4 v4) @ map (\<lambda>f. (257, v9_v6_vals e f)) (take k6 v6)) @ recs"
  have "collect v9_read T (p # out) = Some (T', ?recs)" using assms(5) read(1) by simp
  moreover have "of_template 256 ?recs = map (v9_v4_vals e) v4" "of_template 257 ?recs = map (v9_v6_vals e) v6"
    using recs by (simp_all flip: map_append)
  moreover have "w_out w' = w_out w @ (p # out)" "list_all (\<lambda>p. length p \<le> NF_MAX_PACKET) (p # out)" "m = n + int (length (p # out))"
    using out assms(3,4) read(3) by simp_all
  moreover have "w_up w' = w_up w" using up assms(2) by simp
  ultimately show ?thesis unfolding v9_outcome_def res prod.case using read(2) by blast
qed

lemma export_v9_loop_collected:
  assumes "list_all flow_wf v4" "list_all flow_wf v6" "v6 \<noteq> [] \<longrightarrow> any6" "v9_knows T any6 exp" "\<forall>i. w_up w i"
    and "boot_time_sec exp = boot_time_sec e"
  shows "\<exists>res. export_v9_loop exp w uptime secs any6 n v4 v6 = Some res \<and> v9_outcome e T any6 w n v4 v6 res \<and>
    nf_version (fst (snd res)) = nf_version exp \<and> boot_time_sec (fst (snd res)) = boot_time_sec e"
  using assms
proof (induction "length v4 + length v6" arbitrary: exp w n v4 v6 T rule: less_induct)
  case less
  show ?case
  proof (cases "v4 = [] \<and> v6 = []")
    case True
    then show ?thesis using less.prems(4,6) by (auto simp: export_v9_loop.simps v9_outcome_def intro!: exI [of _ "[]"])
  next
    case False
    then have some: "v4 \<noteq> [] \<or> v6 \<noteq> []" by blast
    obtain t w1 where t: "need_template exp w = (t, w1)" by fastforce
    define exp1 where "exp1 = (if t then exp\<lparr>v9_pkts_since_template := 0, v9_last_template_sec := ucast secs\<rparr> else exp)"
    obtain m buf' off buf2 k4 k6 T1 where
      packet: "v9_packet exp t any6 (fresh_buf w1 NF_MAX_PACKET) v4 v6 = Some (m, (buf', off), drop k4 v4, drop k6 v6)" "0 < m"
        "k4 \<le> length v4" "k6 \<le> length v6"
      and hdr: "write_v9_header buf' (of_nat m) uptime secs (v9_pkt_sequence exp1) (source_id exp1) = Some (buf2, 20)"
      and size: "length (take off buf2) \<le> NF_MAX_PACKET"
      and read: "v9_read T (take off buf2) =
         Some (T1, map (\<lambda>f. (256, v9_v4_vals exp f)) (take k4 v4) @ map (\<lambda>f. (257, v9_v6_vals exp f)) (take k6 v6))"
      and T1: "\<forall>exp'. v9_knows T1 any6 exp'"
      by (rule v9_message [OF less.prems(1,2) some less.prems(3,4) t length_fresh_buf])
    have w1: "w_up w1 = w_up w" "w_out w1 = w_out w" using need_template_knows [OF t] by simp_all
    have smaller: "length (drop k4 v4) + length (drop k6 v6) < length v4 + length v6"
      by (rule v9_packet_rest [OF packet(1) some])
    define exp2 where "exp2 = exp1\<lparr>v9_pkt_sequence := v9_pkt_sequence exp1 + 1, v9_pkts_since_template := v9_pkts_since_template exp1 + 1\<rparr>"
    define w2 where "w2 = w1\<lparr>w_sends := w_sends w1 + 1, w_out := w_out w1 @ [take off buf2]\<rparr>"
    have step: "export_v9_loop exp w uptime secs any6 n v4 v6 = export_v9_loop exp2 w2 uptime secs any6 (n + 1) (drop k4 v4) (drop k6 v6)"
      using False t packet(1,2) hdr less.prems(5) w1(1)
      by (subst export_v9_loop.simps) (auto simp: send_udp_def exp1_def exp2_def w2_def Let_def)
    have w2: "w_up w2 = w_up w" "w_out w2 = w_out w @ [take off buf2]" using w1 by (simp_all add: w2_def)
    have same: "nf_version exp2 = nf_version exp" "boot_time_sec exp2 = boot_time_sec e"
      using less.prems(6) by (simp_all add: exp2_def exp1_def)
    have up: "\<forall>i. w_up w2 i" using w2(1) less.prems(5) by simp
    have any: "drop k6 v6 \<noteq> [] \<longrightarrow> any6" using less.prems(3) by auto
    from less.hyps [OF smaller list_all_drop [OF less.prems(1)] list_all_drop [OF less.prems(2)] any T1 [rule_format] up same(2), of "n + 1"]
    obtain res where res: "export_v9_loop exp2 w2 uptime secs any6 (n + 1) (drop k4 v4) (drop k6 v6) = Some res"
      "v9_outcome e T1 any6 w2 (n + 1) (drop k4 v4) (drop k6 v6) res" "nf_version (fst (snd res)) = nf_version exp2"
      "boot_time_sec (fst (snd res)) = boot_time_sec e" by blast
    have "v9_outcome e T any6 w n v4 v6 res"
      by (rule v9_outcome_step [OF res(2) w2 size]) (use read v9_vals_boot [OF less.prems(6)] in simp)
    with res step same(1) show ?thesis by auto
  qed
qed

lemma v9_send_collected:
  assumes "list_all flow_wf flows" "v9_knows T (\<exists>f \<in> set flows. v6_flow f) exp" "nf_version exp = 9" "\<forall>i. w_up w i"
  shows "\<exists>rc exp' w' out T' recs. ps_nf_exporter_send exp w flows = Some (rc, exp', w') \<and> w_out w' = w_out w @ out \<and>
    list_all (\<lambda>p. length p \<le> NF_MAX_PACKET) out \<and> rc = int (length out) \<and>
    collect v9_read T out = Some (T', recs) \<and> v9_knows T' (\<exists>f \<in> set flows. v6_flow f) exp' \<and>
    of_template 256 recs = map (v9_v4_vals exp) (filter is_v4 flows) \<and> of_template 257 recs = map (v9_v6_vals exp) (filter v6_flow flows)"
proof (cases "flows = []")
  case True
  then show ?thesis using assms(2) by (auto simp: ps_nf_exporter_send_def intro!: exI [of _ "[]"])
next
  case False
  let ?v4 = "filter is_v4 flows" and ?v6 = "filter v6_flow flows"
  have wf: "list_all flow_wf ?v4" "list_all flow_wf ?v6" using assms(1) by (simp_all add: list_all_iff)
  have any: "(\<exists>f \<in> set flows. v6_flow f) \<longleftrightarrow> ?v6 \<noteq> []" by (simp add: filter_empty_conv)
  have v6: "filter (\<lambda>f. \<not> is_v4 f \<and> is_v6 f) flows = ?v6" by (simp add: v6_flow_def [abs_def])
  obtain uptime w1 where u: "sys_uptime_ms exp w = (uptime, w1)" by fastforce
  obtain secs w2 where n: "now_sec w1 = (secs, w2)" by fastforce
  have w2: "w_up w2 = w_up w" "w_out w2 = w_out w"
    using u n by (auto simp: sys_uptime_ms_def now_sec_def Let_def)
  from export_v9_loop_collected [OF wf, of "?v6 \<noteq> []" T exp w2 exp uptime secs 0] assms(2,4) w2 any
  obtain m exp1 w3 where loop: "export_v9_loop exp w2 uptime secs (?v6 \<noteq> []) 0 ?v4 ?v6 = Some (m, exp1, w3)"
    and out: "v9_outcome exp T (?v6 \<noteq> []) w2 0 ?v4 ?v6 (m, exp1, w3)" by auto
  let ?exp = "exp1\<lparr>flow_sequence := flow_sequence exp1 + of_nat (length flows)\<rparr>"
  have send: "ps_nf_exporter_send exp w flows = Some (m, ?exp, w3)"
    using False assms(3) u n loop v6 by (simp add: ps_nf_exporter_send_def export_v9_def)
  from out obtain ps T' recs where *: "w_out w3 = w_out w @ ps" "list_all (\<lambda>p. length p \<le> NF_MAX_PACKET) ps"
    "collect v9_read T ps = Some (T', recs)" "v9_knows T' (?v6 \<noteq> []) exp1" "m = int (length ps)"
    "of_template 256 recs = map (v9_v4_vals exp) ?v4" "of_template 257 recs = map (v9_v6_vals exp) ?v6"
    unfolding v9_outcome_def prod.case w2 by auto
  have "v9_knows T' (\<exists>f \<in> set flows. v6_flow f) ?exp" using *(4) unfolding any by (simp add: v9_knows_def)
  with send * show ?thesis by blast
qed

text \<open>When the templates are not due, a datagram has none, also when the collector never got the one for IPv6, since an earlier
  batch without IPv6 flows sent the other one only.\<close>

lemma v9_template_missing:
  assumes "list_all flow_wf v6" "v6 \<noteq> []" "length buf = NF_MAX_PACKET" "T 257 = None"
    and "v9_packet exp False True buf [] v6 = Some (n, (buf', off), v4', v6')"
    and "write_v9_header buf' m uptime secs seq src = Some (buf2, k)"
  shows "v9_read T (take off buf2) = None"
proof -
  obtain k6 where k6: "v6' = drop k6 v6" "k6 \<le> length v6" "v4' = []"
    and w: "wrote (buf, NFV9_HEADER_LEN) (v9_data (v9_v6_enc exp) TEMPLATE_ID_V6 (take k6 v6)) (buf', off)" (is "wrote _ ?sets _")
    using v9_packet_wrote [OF _ assms(1,3), of "[]" exp False True] assms(2,5) by (auto simp: v9_tmpl_def v9_data_def)
  have "k6 \<noteq> 0" using v9_packet_rest [OF assms(5)] assms(2) k6 by auto
  then have some: "take k6 v6 \<noteq> []" using assms(2) by simp
  let ?h = "be16 9 @ be16 m @ be32 uptime @ be32 secs @ be32 seq @ be32 src"
  have h: "length ?h = 20" by simp
  have buf2: "take off buf2 = ?h @ ?sets"
    using wrote_header [of buf ?h ?sets buf' off] w h assms(3,6) by (auto simp: write_v9_header_put)
  have len: "length ?sets < 65536" using w assms(3) by (simp add: wrote_def)
  obtain body pad where body: "?sets = set_bytes TEMPLATE_ID_V6 body pad" using some by (auto simp: v9_data_def Let_def)
  have "read_sets 0 T (?sets @ []) = None"
    unfolding body by (subst read_set [OF _ refl]) (use len body assms(4) in simp_all)
  then show ?thesis unfolding buf2 v9_read_def by simp
qed

section \<open>NetFlow version 5: every flow arrives\<close>

definition v5_layout :: nf9_template where
  \<comment> \<open>the fixed record: a number for each field, and its size\<close>
  "v5_layout = [(1, 4), (2, 4), (3, 4), (4, 2), (5, 2), (6, 4), (7, 4), (8, 4), (9, 4), (10, 2), (11, 2), (12, 1), (13, 1), (14, 1), (15, 1), (16, 2), (17, 2), (18, 1), (19, 1), (20, 2)]"

definition v5_enc :: "ps_nf_exporter \<Rightarrow> ps_flow \<Rightarrow> bytes" where
  "v5_enc exp f = addr4 k_src_addr f @ addr4 k_dst_addr f @ be32 0 @ be16 0 @ be16 0 @ be32 (ucast (both_packets f)) @
     be32 (ucast (both_octets f)) @ be32 (flow_ts_to_uptime exp (flow_start f)) @ be32 (flow_ts_to_uptime exp (flow_last f)) @
     be16 (k_src_port (f_key f)) @ be16 (k_dst_port (f_key f)) @ [0] @ [both_flags f] @ [k_proto (f_key f)] @ [k_tos (f_key f)] @
     be16 0 @ be16 0 @ [0] @ [0] @ be16 0"

definition v5_vals :: "ps_nf_exporter \<Rightarrow> ps_flow \<Rightarrow> (nat \<times> nat) list" where
  "v5_vals exp f =
     [(1, num (addr4 k_src_addr f)), (2, num (addr4 k_dst_addr f)), (3, 0), (4, 0), (5, 0),
      (6, unat (both_packets f) mod 2 ^ 32), (7, unat (both_octets f) mod 2 ^ 32),
      (8, unat (flow_ts_to_uptime exp (flow_start f))), (9, unat (flow_ts_to_uptime exp (flow_last f))),
      (10, unat (k_src_port (f_key f))), (11, unat (k_dst_port (f_key f))), (12, 0),
      (13, unat (both_flags f)), (14, unat (k_proto (f_key f))), (15, unat (k_tos (f_key f))),
      (16, 0), (17, 0), (18, 0), (19, 0), (20, 0)]"

interpretation v5: record_format "v5_record exp" "v5_enc exp" 48 v5_layout "v5_vals exp" for exp
  by unfold_locales
    (simp_all add: v5_record_def v5_enc_def flow_wf_def puts rec_len_def nat_template_def v5_layout_def v5_vals_def unat_low32)

definition v5_read :: "bytes \<Rightarrow> (nat \<times> (nat \<times> nat) list list) option" where
  \<comment> \<open>the sequence number and the records of a datagram\<close>
  "v5_read p =
     (if 24 \<le> length p \<and> num (take 2 p) = 5 \<and> length p = 24 + 48 * num (take 2 (drop 2 p))
      then Some (num (take 4 (drop 16 p)), cut_all (nat_template v5_layout) (drop 24 p)) else None)"

fun v5_collect :: "32 word \<Rightarrow> bytes list \<Rightarrow> (nat \<times> nat) list list option" where
  \<comment> \<open>a gap in the sequence numbers is an error\<close>
  "v5_collect s [] = Some []"
| "v5_collect s (p # ps) = do {
     (q, rs) \<leftarrow> v5_read p;
     if q = unat s then map_option ((@) rs) (v5_collect (s + of_nat (length rs)) ps) else None
   }"

lemma v5_scan_count:
  "b < NFV5_MAX_RECORDS \<Longrightarrow> fst (v5_scan flows b) = min NFV5_MAX_RECORDS (b + length (filter is_v4 flows)) \<and>
     (fst (v5_scan flows b) < NFV5_MAX_RECORDS \<longrightarrow> snd (v5_scan flows b) = [])"
  by (induction flows b rule: v5_scan.induct) (auto simp: Let_def)

lemma v5_fill_put:
  assumes "list_all flow_wf flows" "written \<le> batch" "batch - written \<le> length (filter is_v4 flows)"
    and "snd c + 48 * (batch - written) \<le> length (fst c)"
  shows "\<exists>c' rest. v5_fill exp batch written flows c = Some (batch, c', rest) \<and>
    put c (concat (map (v5_enc exp) (take (batch - written) (filter is_v4 flows)))) = Some c' \<and>
    filter is_v4 rest = drop (batch - written) (filter is_v4 flows) \<and> list_all flow_wf rest"
  using assms
proof (induction flows arbitrary: written c)
  case (Cons f fs)
  show ?case
  proof (cases "written < batch \<and> is_v4 f")
    case True
    obtain d where d: "put c (v5_enc exp f) = Some d" "v5_record exp f c = Some d"
      using put_Some [of c "v5_enc exp f"] v5.enc_len [of f exp] v5.writes [of f exp c] True Cons.prems by auto
    have snd: "snd d = snd c + 48" "length (fst d) = length (fst c)"
      using put_snd [OF d(1)] v5.enc_len [of f exp] Cons.prems(1) by simp_all
    have less: "batch - written = Suc (batch - (written + 1))" using True by linarith
    obtain c' rest where *: "v5_fill exp batch (written + 1) fs d = Some (batch, c', rest)"
      "put d (concat (map (v5_enc exp) (take (batch - (written + 1)) (filter is_v4 fs)))) = Some c'"
      "filter is_v4 rest = drop (batch - (written + 1)) (filter is_v4 fs)" "list_all flow_wf rest"
      using Cons.IH [of "written + 1" d] Cons.prems True snd less by auto
    have "put c (v5_enc exp f @ concat (map (v5_enc exp) (take (batch - (written + 1)) (filter is_v4 fs)))) = Some c'"
      using d(1) *(2) by (simp flip: put_put)
    with True d(2) * less show ?thesis by simp
  next
    case False
    then show ?thesis using Cons.IH [of written c] Cons.prems by (cases "written < batch") auto
  qed
qed auto

lemma v5_header_put:
  "v5_header exp batch uptime secs c = put c (be16 5 @ be16 (of_nat batch) @ be32 uptime @ be32 secs @ be32 0 @ be32 (flow_sequence exp) @
     [0] @ [ucast (source_id exp AND 0xFF)] @ be16 0)"
  by (simp add: v5_header_def puts)

lemma v5_message:
  assumes "list_all flow_wf flows" "batch = min NFV5_MAX_RECORDS (length (filter is_v4 flows))" "length buf = NFV5_BUF"
  obtains c buf' off rest where
    "v5_header exp batch uptime secs (buf, 0) = Some c" "v5_fill exp batch 0 flows c = Some (batch, (buf', off), rest)"
    "length (take off buf') \<le> NFV5_BUF" "list_all flow_wf rest" "filter is_v4 rest = drop batch (filter is_v4 flows)"
    "v5_read (take off buf') = Some (unat (flow_sequence exp), map (v5_vals exp) (take batch (filter is_v4 flows)))"
proof -
  let ?h = "be16 5 @ be16 (of_nat batch) @ be32 uptime @ be32 secs @ be32 0 @ be32 (flow_sequence exp) @
     [0] @ [ucast (source_id exp AND 0xFF)] @ be16 0"
  let ?v4 = "filter is_v4 flows"
  have wf: "list_all flow_wf (take batch ?v4)" using assms(1) by (auto simp: list_all_iff dest: in_set_takeD)
  have batch: "batch \<le> 30" "batch \<le> length ?v4" "length (take batch ?v4) = batch" using assms(2) by simp_all
  have h: "length ?h = 24" by simp
  obtain c where c: "put (buf, 0) ?h = Some c" using put_Some [of "(buf, 0)" ?h] assms(3) by simp
  have snd: "snd c = 24" "length (fst c) = NFV5_BUF" "take (snd c) (fst c) = ?h"
    using put_wrote [OF c] assms(3) by (auto simp: wrote_def)
  obtain buf' off rest where fill: "v5_fill exp batch 0 flows c = Some (batch, (buf', off), rest)"
    "put c (concat (map (v5_enc exp) (take batch ?v4))) = Some (buf', off)"
    "filter is_v4 rest = drop batch ?v4" "list_all flow_wf rest"
    using v5_fill_put [OF assms(1), of 0 batch c exp] batch snd by auto
  have data: "length (concat (map (v5_enc exp) (take batch ?v4))) = batch * 48" using v5.length_records [OF wf] batch(3) by simp
  have out: "take off buf' = ?h @ concat (map (v5_enc exp) (take batch ?v4))" "off \<le> NFV5_BUF"
    using put_wrote [OF fill(2)] snd by (auto simp: wrote_def)
  have n: "unat (of_nat batch :: 16 word) = batch" using batch(1) by (simp add: unat_of_nat)
  have "v5_read (take off buf') = Some (unat (flow_sequence exp), cut_all (nat_template v5_layout) (concat (map (v5_enc exp) (take batch ?v4)) @ []))"
    unfolding out v5_read_def using data n by simp
  then have "v5_read (take off buf') = Some (unat (flow_sequence exp), map (v5_vals exp) (take batch ?v4))"
    using v5.cut_records [OF wf, of "[]" exp] by simp
  then show thesis using that [OF _ fill(1) _ fill(4,3)] c out(2) by (simp add: v5_header_put)
qed

definition v5_outcome ::
  "ps_nf_exporter \<Rightarrow> ps_nf_exporter \<Rightarrow> nf_world \<Rightarrow> int \<Rightarrow> ps_flow list \<Rightarrow> int \<times> ps_nf_exporter \<times> nf_world \<Rightarrow> bool" where
  "v5_outcome e exp w n v4 res \<longleftrightarrow>
     (case res of (m, exp', w') \<Rightarrow>
        \<exists>out recs. w_out w' = w_out w @ out \<and> list_all (\<lambda>p. length p \<le> NFV5_BUF) out \<and> m = n + int (length out) \<and>
          v5_collect (flow_sequence exp) out = Some recs \<and> flow_sequence exp' = flow_sequence exp + of_nat (length recs) \<and>
          subseq recs (map (v5_vals e) v4) \<and> ((\<forall>i. w_up w i) \<longrightarrow> recs = map (v5_vals e) v4))"

lemma v5_vals_boot: "boot_time_sec exp = boot_time_sec exp' \<Longrightarrow> v5_vals exp = v5_vals exp'"
  by (intro ext) (simp add: v5_vals_def flow_ts_to_uptime_def Let_def)

lemma v5_outcome_sent:
  assumes "v5_outcome e exp1 w1 (n + 1) (drop k v4) res" "k \<le> length v4"
    and "w_up w1 = w_up w" "w_out w1 = w_out w @ [p]" "length p \<le> NFV5_BUF"
    and "v5_read p = Some (unat (flow_sequence exp), map (v5_vals e) (take k v4))"
    and "flow_sequence exp1 = flow_sequence exp + of_nat k"
  shows "v5_outcome e exp w n v4 res"
proof -
  obtain m exp' w' where res: "res = (m, exp', w')" by (cases res)
  from assms(1) obtain out recs where *: "w_out w' = w_out w1 @ out" "list_all (\<lambda>p. length p \<le> NFV5_BUF) out" "m = n + 1 + int (length out)"
    "v5_collect (flow_sequence exp1) out = Some recs" "flow_sequence exp' = flow_sequence exp1 + of_nat (length recs)"
    "subseq recs (map (v5_vals e) (drop k v4))" "(\<forall>i. w_up w1 i) \<longrightarrow> recs = map (v5_vals e) (drop k v4)"
    unfolding v5_outcome_def res by auto
  let ?recs = "map (v5_vals e) (take k v4) @ recs"
  have len: "length (take k v4) = k" using assms(2) by simp
  have whole: "map (v5_vals e) (take k v4) @ map (v5_vals e) (drop k v4) = map (v5_vals e) v4" by (simp flip: map_append)
  have "v5_collect (flow_sequence exp) (p # out) = Some ?recs" using assms(6,7) *(4) len by simp
  moreover have "subseq ?recs (map (v5_vals e) v4)" using list_emb_append_mono [OF subseq_order.refl *(6)] unfolding whole [symmetric] by blast
  moreover have "(\<forall>i. w_up w i) \<longrightarrow> ?recs = map (v5_vals e) v4" using *(7) assms(3) whole by auto
  moreover have "flow_sequence exp' = flow_sequence exp + of_nat (length ?recs)" using *(5) assms(7) len by simp
  moreover have "w_out w' = w_out w @ (p # out)" "list_all (\<lambda>p. length p \<le> NFV5_BUF) (p # out)" "m = n + int (length (p # out))"
    using *(1-3) assms(4,5) by simp_all
  ultimately show ?thesis unfolding v5_outcome_def res prod.case by blast
qed

lemma v5_outcome_lost:
  assumes "v5_outcome e exp w1 n (drop k v4) res" "w_up w1 = w_up w" "w_out w1 = w_out w" "\<not> (\<forall>i. w_up w i)"
  shows "v5_outcome e exp w n v4 res"
proof -
  have "subseq (map (v5_vals e) (drop k v4)) (map (v5_vals e) v4)" by (intro subseq_map suffix_imp_subseq suffix_drop)
  with assms show ?thesis unfolding v5_outcome_def by (fastforce intro: subseq_order.trans)
qed

lemma export_v5_loop_collected:
  assumes "list_all flow_wf flows" "boot_time_sec exp = boot_time_sec e"
  shows "\<exists>res. export_v5_loop exp w n flows = Some res \<and> v5_outcome e exp w n (filter is_v4 flows) res"
  using assms
proof (induction "length flows" arbitrary: exp w n flows rule: less_induct)
  case less
  obtain batch scanned where scan: "v5_scan flows 0 = (batch, scanned)" by fastforce
  have batch: "batch = min NFV5_MAX_RECORDS (length (filter is_v4 flows))" "batch < NFV5_MAX_RECORDS \<longrightarrow> scanned = []"
    using v5_scan_count [of 0 flows] scan by simp_all
  show ?case
  proof (cases "flows = [] \<or> batch = 0")
    case True
    then have none: "filter is_v4 flows = []" using batch(1) by (auto simp: min_def split: if_splits)
    have "export_v5_loop exp w n flows = Some (n, exp, w)"
      using True scan batch(2) by (subst export_v5_loop.simps) (auto simp: export_v5_loop.simps [of exp w n "[]"])
    then show ?thesis unfolding none by (auto simp: v5_outcome_def intro!: exI [of _ "[]"])
  next
    case False
    obtain uptime w1 where u: "sys_uptime_ms exp w = (uptime, w1)" by fastforce
    obtain secs w2 where s: "now_sec w1 = (secs, w2)" by fastforce
    have w2: "w_up w2 = w_up w" "w_out w2 = w_out w" using u s by (auto simp: sys_uptime_ms_def now_sec_def Let_def)
    obtain c buf' off rest where msg: "v5_header exp batch uptime secs (fresh_buf w2 NFV5_BUF, 0) = Some c"
      "v5_fill exp batch 0 flows c = Some (batch, (buf', off), rest)" "length (take off buf') \<le> NFV5_BUF" "list_all flow_wf rest"
      "filter is_v4 rest = drop batch (filter is_v4 flows)"
      "v5_read (take off buf') = Some (unat (flow_sequence exp), map (v5_vals exp) (take batch (filter is_v4 flows)))"
      by (rule v5_message [OF less.prems(1) batch(1) length_fresh_buf])
    have smaller: "length rest < length flows" using v5_fill_rest [OF msg(2)] False by simp
    have vals: "v5_vals exp = v5_vals e" by (rule v5_vals_boot [OF less.prems(2)])
    show ?thesis
    proof (cases "w_up w2 (w_sends w2)")
      case up: True
      define exp1 where "exp1 = exp\<lparr>flow_sequence := flow_sequence exp + of_nat batch\<rparr>"
      define w3 where "w3 = w2\<lparr>w_sends := w_sends w2 + 1, w_out := w_out w2 @ [take off buf']\<rparr>"
      have step: "export_v5_loop exp w n flows = export_v5_loop exp1 w3 (n + 1) rest"
        using False scan u s msg(1,2) up by (subst export_v5_loop.simps) (simp add: send_udp_def exp1_def w3_def)
      have "boot_time_sec exp1 = boot_time_sec e" using less.prems(2) by (simp add: exp1_def)
      from less.hyps [OF smaller msg(4) this, of w3 "n + 1"] obtain res where
        res: "export_v5_loop exp1 w3 (n + 1) rest = Some res" "v5_outcome e exp1 w3 (n + 1) (drop batch (filter is_v4 flows)) res"
        unfolding msg(5) by blast
      have "v5_outcome e exp w n (filter is_v4 flows) res"
        by (rule v5_outcome_sent [OF res(2) _ _ _ msg(3)]) (use batch(1) w2 msg(6) vals in \<open>simp_all add: w3_def exp1_def\<close>)
      with res(1) step show ?thesis by simp
    next
      case down: False
      define w3 where "w3 = w2\<lparr>w_sends := w_sends w2 + 1\<rparr>"
      have step: "export_v5_loop exp w n flows = export_v5_loop exp w3 n rest"
        using False scan u s msg(1,2) down by (subst export_v5_loop.simps) (simp add: send_udp_def w3_def)
      from less.hyps [OF smaller msg(4) less.prems(2), of w3 n] obtain res where
        res: "export_v5_loop exp w3 n rest = Some res" "v5_outcome e exp w3 n (drop batch (filter is_v4 flows)) res"
        unfolding msg(5) by blast
      have "v5_outcome e exp w n (filter is_v4 flows) res"
        by (rule v5_outcome_lost [OF res(2)]) (use w2 down in \<open>auto simp: w3_def\<close>)
      with res(1) step show ?thesis by simp
    qed
  qed
qed

section \<open>No call writes behind a buffer\<close>

lemma export_v9_loop_total:
  assumes "list_all flow_wf v4" "list_all flow_wf v6"
  shows "export_v9_loop exp w uptime secs any6 n v4 v6 \<noteq> None"
  using assms
proof (induction "length v4 + length v6" arbitrary: exp w n v4 v6 rule: less_induct)
  case less
  show ?case
  proof (cases "v4 = [] \<and> v6 = []")
    case True
    then show ?thesis by (simp add: export_v9_loop.simps)
  next
    case False
    then have some: "v4 \<noteq> [] \<or> v6 \<noteq> []" by blast
    obtain t w1 where t: "need_template exp w = (t, w1)" by fastforce
    obtain m buf' off k4 k6 where packet: "v9_packet exp t any6 (fresh_buf w1 NF_MAX_PACKET) v4 v6 = Some (m, (buf', off), drop k4 v4, drop k6 v6)"
      and w: "wrote (fresh_buf w1 NF_MAX_PACKET, NFV9_HEADER_LEN) (v9_tmpl t any6 @ v9_data (v9_v4_enc exp) TEMPLATE_ID_V4 (take k4 v4) @
        v9_data (v9_v6_enc exp) TEMPLATE_ID_V6 (take k6 v6)) (buf', off)"
      using v9_packet_wrote [OF less.prems length_fresh_buf some, of exp t any6 w1] by auto
    have "length buf' = NF_MAX_PACKET" using w by (simp add: wrote_def)
    then have hdr: "(write_v9_header buf' n' uptime secs seq src = None) = False" for n' seq src
      by (simp add: write_v9_header_put put_def)
    have "length (drop k4 v4) + length (drop k6 v6) < length v4 + length v6" by (rule v9_packet_rest [OF packet some])
    note ih = less.hyps [OF this list_all_drop [OF less.prems(1)] list_all_drop [OF less.prems(2)]]
    show ?thesis
      using t packet ih by (subst export_v9_loop.simps) (auto simp: hdr Let_def split: option.split prod.split)
  qed
qed

lemma ipfix_split_wf: "list_all P flows \<Longrightarrow> list_all P (fst (ipfix_split room flows)) \<and> list_all P (snd (ipfix_split room flows))"
  by (induction room flows rule: ipfix_split.induct) (auto simp: split_def Let_def)

lemma export_ipfix_loop_total:
  assumes "list_all flow_wf v4" "list_all flow_wf v6"
  shows "export_ipfix_loop exp w n v4 v6 \<noteq> None"
proof -
  have "knows [256 \<mapsto> nat_template ipfix_v4_fields, 257 \<mapsto> nat_template ipfix_v6_fields] exp" by (simp add: knows_def)
  from export_ipfix_loop_collected [OF assms this] show ?thesis by fastforce
qed

lemma exporter_send_total: "list_all flow_wf flows \<Longrightarrow> ps_nf_exporter_send exp w flows \<noteq> None"
proof -
  assume wf: "list_all flow_wf flows"
  have "export_v5_loop exp w 0 flows \<noteq> None" using export_v5_loop_collected [OF wf refl, of exp w 0] by auto
  moreover have "export_ipfix exp w flows \<noteq> None"
    using export_ipfix_loop_total [OF ipfix_split_wf [OF wf, THEN conjunct1] ipfix_split_wf [OF wf, THEN conjunct2], of exp w 0 IPFIX_MAX_FLOWS IPFIX_MAX_FLOWS]
    by (auto simp: export_ipfix_def split_def split: option.splits)
  moreover have "export_v9 exp w flows \<noteq> None"
  proof -
    have "list_all flow_wf (filter is_v4 flows)" "list_all flow_wf (filter (\<lambda>f. \<not> is_v4 f \<and> is_v6 f) flows)"
      using wf by (simp_all add: list_all_iff)
    from export_v9_loop_total [OF this] have "export_v9_loop exp w' u t a 0 (filter is_v4 flows) (filter (\<lambda>f. \<not> is_v4 f \<and> is_v6 f) flows) = None \<longleftrightarrow> False" for w' u t a
      by simp
    then show ?thesis by (simp add: export_v9_def Let_def split_def del: not_None_eq split: option.split)
  qed
  ultimately show ?thesis by (simp add: ps_nf_exporter_send_def export_v5_def)
qed

section \<open>Properties\<close>

definition sample_flow :: "byte \<Rightarrow> byte \<Rightarrow> ps_flow" where
  \<comment> \<open>a flow of a family, with an address that starts with a byte\<close>
  "sample_flow af a = new_flow \<lparr>k_af = af, k_proto = 17, k_src_addr = a # replicate 15 0, k_dst_addr = replicate 16 1, k_src_port = 53,
     k_dst_port = 1000, k_vlan_id = 0, k_tos = 0\<rparr> 0 zero_packet 5000000"

definition sample_world :: nf_world where
  \<comment> \<open>a network that takes every datagram\<close>
  "sample_world = \<lparr>w_time = (\<lambda>n. 1000 + of_nat n), w_up = (\<lambda>_. True), w_stack = (\<lambda>_. 0xAA), w_reads = 0, w_sends = 0, w_out = []\<rparr>"

definition sample_exporter :: "int \<Rightarrow> ps_nf_exporter" where
  "sample_exporter v = \<lparr>nf_version = v, source_id = 7, flow_sequence = 0, v9_pkt_sequence = 0, boot_time_sec = 1000,
     v9_pkts_since_template = 0, v9_last_template_sec = 0\<rparr>"

lemma sample_create:
  "v = 5 \<or> v = 9 \<or> v = 10 \<Longrightarrow>
   ps_nf_exporter_create (\<lambda>_. True) sample_world (Some ''c'') 7 v = (Some (sample_exporter v), sample_world\<lparr>w_reads := 1\<rparr>)"
  by (auto simp: ps_nf_exporter_create_def sample_world_def sample_exporter_def)

lemma sample_flow_simps [simp]:
  "flow_wf (sample_flow af a)" "is_v4 (sample_flow af a) \<longleftrightarrow> af = AF_INET" "v6_flow (sample_flow af a) \<longleftrightarrow> af = AF_INET6"
  by (auto simp: flow_wf_def is_v4_def v6_flow_def is_v6_def sample_flow_def new_flow_def)



text \<open>C18. One call of the version 9 exporter on a network that takes every datagram delivers every flow: no write leaves a buffer,
  the call returns the number of datagrams, none is longer than 1400 bytes, and the collector reads every IPv4 and IPv6 flow
  of the batch once and in order, if it has the templates of the families in the batch or the exporter never sent any; afterwards
  it has them.\<close>

theorem netflow9_collected:
  assumes "list_all flow_wf flows" "v9_knows T (\<exists>f \<in> set flows. v6_flow f) exp" "nf_version exp = 9" "\<forall>i. w_up w i"
  shows "\<exists>rc exp' w' out T' recs. ps_nf_exporter_send exp w flows = Some (rc, exp', w') \<and> w_out w' = w_out w @ out \<and>
    list_all (\<lambda>p. length p \<le> NF_MAX_PACKET) out \<and> rc = int (length out) \<and>
    collect v9_read T out = Some (T', recs) \<and> v9_knows T' (\<exists>f \<in> set flows. v6_flow f) exp' \<and>
    of_template 256 recs = map (v9_v4_vals exp) (filter is_v4 flows) \<and> of_template 257 recs = map (v9_v6_vals exp) (filter v6_flow flows)"
  using assms by (rule v9_send_collected)

theorem netflow9_collected_witness:
  "\<exists>rc exp' w' T recs. ps_nf_exporter_send (sample_exporter 9) sample_world [sample_flow 10 32, sample_flow 2 10] = Some (rc, exp', w') \<and>
    collect v9_read (\<lambda>_. None) (w_out w') = Some (T, recs) \<and>
    of_template 256 recs = [v9_v4_vals (sample_exporter 9) (sample_flow 2 10)] \<and>
    of_template 257 recs = [v9_v6_vals (sample_exporter 9) (sample_flow 10 32)]"
  using netflow9_collected [of "[sample_flow 10 32, sample_flow 2 10]" "\<lambda>_. None" "sample_exporter 9" sample_world]
  by (auto simp: sample_world_def sample_exporter_def v9_knows_def)

text \<open>C20. One call of the version 5 exporter writes datagrams that fit their buffer, each with the number of its records in the
  header, and whose sequence numbers count the flows that left, so that a collector sees no gap. What arrives is a
  subsequence of the IPv4 flows of the batch, and all of them on a network that takes every datagram.\<close>

theorem netflow5_collected:
  assumes "list_all flow_wf flows" "nf_version exp = 5"
  shows "\<exists>exp' w' out recs. ps_nf_exporter_send exp w flows = Some (int (length out), exp', w') \<and> w_out w' = w_out w @ out \<and>
    list_all (\<lambda>p. length p \<le> NFV5_BUF) out \<and> v5_collect (flow_sequence exp) out = Some recs \<and>
    flow_sequence exp' = flow_sequence exp + of_nat (length recs) \<and>
    subseq recs (map (v5_vals exp) (filter is_v4 flows)) \<and> ((\<forall>i. w_up w i) \<longrightarrow> recs = map (v5_vals exp) (filter is_v4 flows))"
proof -
  obtain m exp' w' where loop: "export_v5_loop exp w 0 flows = Some (m, exp', w')" and out: "v5_outcome exp exp w 0 (filter is_v4 flows) (m, exp', w')"
    using export_v5_loop_collected [OF assms(1) refl, of exp w 0] by auto
  have "ps_nf_exporter_send exp w flows = Some (m, exp', w')"
    using loop assms(2) by (auto simp: ps_nf_exporter_send_def export_v5_def export_v5_loop.simps [of _ _ _ "[]"])
  with out show ?thesis by (auto simp: v5_outcome_def)
qed

theorem netflow5_collected_witness:
  "\<exists>exp' w'. ps_nf_exporter_send (sample_exporter 5) sample_world [sample_flow 2 10, sample_flow 10 32, sample_flow 2 11] =
      Some (int (length (w_out w')), exp', w') \<and>
    v5_collect 0 (w_out w') = Some (map (v5_vals (sample_exporter 5)) [sample_flow 2 10, sample_flow 2 11])"
  using netflow5_collected [of "[sample_flow 2 10, sample_flow 10 32, sample_flow 2 11]" "sample_exporter 5" sample_world]
  by (auto simp: sample_world_def sample_exporter_def)

end
