(* ===== verification/Inet_Text.thy ===== *)
theory Inet_Text
  imports Packet_Parse Json_Extract
begin

text \<open>
  The text of an address as \<open>inet_ntop\<close> of the C library prints it: decimal numbers between dots, or
  groups of hexadecimal digits between colons with the first longest run of at least two zero
  groups left out; an address that embeds one of IPv4 ends in the dotted form.
\<close>

definition inet_ntop4 :: "bytes \<Rightarrow> string" where
  "inet_ntop4 a =
     show_nat (unat (a ! 0)) @ ''.'' @ show_nat (unat (a ! 1)) @ ''.'' @ show_nat (unat (a ! 2)) @ ''.'' @ show_nat (unat (a ! 3))"

fun show_hex :: "nat \<Rightarrow> string" where
  "show_hex n = (if n < 16 then [hex_digit n] else show_hex (n div 16) @ [hex_digit (n mod 16)])"

declare show_hex.simps [simp del]

definition groups :: "bytes \<Rightarrow> nat list" where
  "groups a = map (\<lambda>i. 256 * unat (a ! (2 * i)) + unat (a ! (2 * i + 1))) [0..<8]"

definition zero_run :: "nat list \<Rightarrow> nat \<Rightarrow> nat" where
  \<comment> \<open>the number of zero groups from an index on\<close>
  "zero_run ws i = length (takeWhile (\<lambda>w. w = 0) (drop i ws))"

definition best_run :: "nat list \<Rightarrow> (nat \<times> nat) option" where
  \<comment> \<open>the first longest run of zeros of length two or more: its start and its length\<close>
  "best_run ws =
     (let best = fold (\<lambda>i (b, n). if zero_run ws i > n then (i, zero_run ws i) else (b, n)) [0..<8] (0, 0)
      in if snd best < 2 then None else Some best)"

fun print_groups :: "bytes \<Rightarrow> nat list \<Rightarrow> (nat \<times> nat) option \<Rightarrow> nat list \<Rightarrow> string" where
  \<comment> \<open>the loop over the indices of the groups\<close>
  "print_groups a ws best [] = (case best of Some (b, n) \<Rightarrow> if b + n = 8 then '':'' else [] | None \<Rightarrow> [])"
| "print_groups a ws best (i # is) =
     (case best of
        Some (b, n) \<Rightarrow>
          (if b \<le> i \<and> i < b + n then (if i = b then '':'' else []) @ print_groups a ws best is
           else if i = 6 \<and> b = 0 \<and> (n = 6 \<or> n = 5 \<and> ws ! 5 = 0xFFFF) then '':'' @ inet_ntop4 (drop 12 a)
           else (if i \<noteq> 0 then '':'' else []) @ show_hex (ws ! i) @ print_groups a ws best is)
      | None \<Rightarrow> (if i \<noteq> 0 then '':'' else []) @ show_hex (ws ! i) @ print_groups a ws best is)"

definition inet_ntop6 :: "bytes \<Rightarrow> string" where
  "inet_ntop6 a = print_groups a (groups a) (best_run (groups a)) [0..<8]"

definition address_char :: "char \<Rightarrow> bool" where
  \<comment> \<open>the characters of an address: hexadecimal digits, a dot and a colon\<close>
  "address_char c \<longleftrightarrow> 0 \<le> hexval c \<or> c = CHR ''.'' \<or> c = CHR '':''"

lemma show_nat_address: "list_all address_char (show_nat n)"
proof -
  have "0 \<le> hexval c" if "is_digit c" for c using that by (auto simp: hexval_def is_digit_def Let_def)
  then show ?thesis using show_nat_digits [of n] by (auto simp: list_all_iff address_char_def)
qed

lemma hex_digit_address: "n < 16 \<Longrightarrow> address_char (hex_digit n)"
  by (simp add: address_char_def hexval_hex_digit)

lemma show_hex_address: "list_all address_char (show_hex n)"
  by (induction n rule: show_hex.induct) (subst show_hex.simps, simp add: hex_digit_address)

lemma inet_ntop4_address: "list_all address_char (inet_ntop4 a)"
  by (simp add: inet_ntop4_def show_nat_address) (simp add: address_char_def)

lemma inet_ntop6_address: "list_all address_char (inet_ntop6 a)"
proof -
  have "list_all address_char (print_groups a ws best is)" for ws best "is"
    by (induction a ws best "is" rule: print_groups.induct)
       (auto simp: inet_ntop4_address show_hex_address address_char_def [of "CHR '':''"] split: option.split)
  then show ?thesis by (simp add: inet_ntop6_def)
qed

end
