(* ===== verification/Flow_Module.thy ===== *)
theory Flow_Module
  imports Netflow_Collect Inet_Text
begin

text \<open>
  The module of the agent around the flow table (\<open>agent/src/modules/flow_tracker_mod.c\<close>): capture slots
  that are switched by jobs, packets that go into the table, a periodic export of flows that are due
  or have changed, the flush at the end, and the answer to a query as JSON text. It composes the table
  (\<open>Flow_Table\<close>) and the exporter (\<open>Netflow_Export\<close>).

  The environment, the capture library (\<open>open_pcap\<close>), \<open>qsort\<close> and the world of the exporter are arguments.
\<close>

section \<open>State\<close>

abbreviation FT_MOD_MAX_INTERFACES :: nat where "FT_MOD_MAX_INTERFACES \<equiv> 8"
abbreviation FT_MOD_EXPIRE_BATCH :: int where "FT_MOD_EXPIRE_BATCH \<equiv> 256"

record ft_capture_slot =
  pcap_handle :: int
  slot_interface :: string

record flow_mod_state =
  fm_table :: ps_flow_table
  fm_exporter :: ps_nf_exporter
  last_expire_time :: "64 word"
  last_snapshot_time :: "64 word"
  fm_slots :: "ft_capture_slot list"
  active_count :: int

text \<open>Of a job the module reads three fields.\<close>

record ps_job =
  job_id :: string
  job_destination :: string
  job_method :: string

fun slot_index :: "(ft_capture_slot \<Rightarrow> bool) \<Rightarrow> ft_capture_slot list \<Rightarrow> nat option" where
  \<comment> \<open>the loops over the slots: the first that qualifies\<close>
  "slot_index P [] = None"
| "slot_index P (s # ss) = (if P s then Some 0 else map_option Suc (slot_index P ss))"

definition find_slot_by_iface :: "flow_mod_state \<Rightarrow> string \<Rightarrow> nat option" where
  "find_slot_by_iface st iface = slot_index (\<lambda>s. pcap_handle s \<ge> 0 \<and> slot_interface s = iface) (fm_slots st)"

definition find_free_slot :: "flow_mod_state \<Rightarrow> nat option" where
  "find_free_slot st = slot_index (\<lambda>s. pcap_handle s < 0) (fm_slots st)"

fun status_slots :: "bool \<Rightarrow> ft_capture_slot list \<Rightarrow> string" where
  "status_slots first [] = []"
| "status_slots first (s # ss) =
     (if pcap_handle s < 0 then status_slots first ss
      else (if first then [] else '','') @ CHR 0x22 # slot_interface s @ CHR 0x22 # status_slots False ss)"

definition publish_status :: "flow_mod_state \<Rightarrow> string \<times> string" where
  \<comment> \<open>channel and message; see \<open>status_fits\<close> for the buffer of 1024 bytes\<close>
  "publish_status st =
     (''flow.status'', ''{'' @ CHR 0x22 # ''interfaces'' @ CHR 0x22 # '':['' @ status_slots True (fm_slots st) @ ''],'' @
        CHR 0x22 # ''active_count'' @ CHR 0x22 # '':'' @ show_int (active_count st) @ ''}'')"

section \<open>Start\<close>

definition digit_in :: "nat \<Rightarrow> char \<Rightarrow> bool" where
  "digit_in base c \<longleftrightarrow> 0 \<le> hexval c \<and> hexval c < int base"

fun base_val :: "nat \<Rightarrow> nat \<Rightarrow> string \<Rightarrow> nat" where
  "base_val base v [] = v"
| "base_val base v (c # cs) = (if digit_in base c then base_val base (v * base + nat (hexval c)) cs else v)"

definition strtoul0 :: "string \<Rightarrow> 64 word" where
  \<comment> \<open>\<open>strtoul(s, NULL, 0)\<close>: blanks, a sign, a prefix that selects the base, digits; saturating\<close>
  "strtoul0 s =
     (let p = dropWhile is_space s;
          neg = (cur p = CHR ''-'');
          q = (if cur p = CHR ''-'' \<or> cur p = CHR ''+'' then tl p else p);
          hex = (cur q = CHR ''0'' \<and> (char_at q 1 = CHR ''x'' \<or> char_at q 1 = CHR ''X'') \<and> digit_in 16 (char_at q 2));
          v = (if hex then base_val 16 0 (drop 2 q) else if cur q = CHR ''0'' then base_val 8 0 q else base_val 10 0 q)
      in if v \<ge> 2 ^ 64 then - 1 else if neg then - of_nat v else of_nat v)"

definition collector_address :: "(string \<Rightarrow> string option) \<Rightarrow> string \<times> int" where
  "collector_address getenv =
     (case getenv ''PS_NETFLOW_COLLECTOR'' of
        None \<Rightarrow> (''127.0.0.1'', 2055)
      | Some coll \<Rightarrow>
          (if coll = [] then (''127.0.0.1'', 2055)
           else case strrchr coll (CHR '':'') of
                  Some colon \<Rightarrow>
                    (let hl = ptr_off colon coll
                     in if hl < 256 then (take hl coll, atoi (tl colon)) else (''127.0.0.1'', 2055))
                | None \<Rightarrow> (snprintf_s 256 coll, 2055)))"

definition ft_mod_init ::
  "(string \<Rightarrow> string option) \<Rightarrow> (string \<Rightarrow> int \<Rightarrow> bool) \<Rightarrow> nf_world \<Rightarrow> flow_mod_state option \<times> nf_world" where
  \<comment> \<open>\<open>reach host port\<close>: the collector can be reached; the allocations succeed\<close>
  "ft_mod_init getenv reach w =
     (let (host, port) = collector_address getenv;
          version = (case getenv ''PS_NETFLOW_VERSION'' of Some v \<Rightarrow> if v \<noteq> [] then atoi v else 9 | None \<Rightarrow> 9);
          src_id = (case getenv ''PS_NETFLOW_SOURCE_ID'' of Some v \<Rightarrow> if v \<noteq> [] then ucast (strtoul0 v) else 0x5053 | None \<Rightarrow> 0x5053)
      in case ps_nf_exporter_create (\<lambda>h. reach h port) w (Some host) src_id version of
           (None, w) \<Rightarrow> (None, w)
         | (Some exp, w) \<Rightarrow>
             (Some \<lparr>fm_table = ps_flow_table_create 65536 2, fm_exporter = exp, last_expire_time = 0, last_snapshot_time = 0,
                fm_slots = replicate FT_MOD_MAX_INTERFACES \<lparr>pcap_handle = - 1, slot_interface = []\<rparr>, active_count = 0\<rparr>, w))"

section \<open>Callbacks\<close>

definition ft_mod_on_job ::
  "(string \<Rightarrow> int) \<Rightarrow> flow_mod_state \<Rightarrow> ps_job \<Rightarrow> int \<times> (string \<times> string) list \<times> flow_mod_state" where
  \<comment> \<open>\<open>open_pcap iface\<close>: the handle of a capture, negative when it cannot be opened. The result, what is published, the state.\<close>
  "ft_mod_on_job open_pcap st job =
     (if job_method job \<noteq> ''flow_control'' then (0, [], st)
      else let action = job_id job; iface = job_destination job
      in if action = ''start'' \<and> iface \<noteq> []
      then (if find_slot_by_iface st iface \<noteq> None then (0, [publish_status st], st)
            else case find_free_slot st of
                   None \<Rightarrow> (- 1, [], st)
                 | Some i \<Rightarrow>
                     (let handle = open_pcap iface
                      in if handle < 0 then (- 1, [], st)
                         else let st = st\<lparr>fm_slots := (fm_slots st)[i := \<lparr>pcap_handle = handle, slot_interface = take 63 iface\<rparr>],
                                    active_count := active_count st + 1\<rparr>
                              in (0, [publish_status st], st)))
      else if action = ''stop'' \<and> iface \<noteq> []
      then (case find_slot_by_iface st iface of
              None \<Rightarrow> (0, [], st)
            | Some i \<Rightarrow>
                (let st = st\<lparr>fm_slots := (fm_slots st)[i := \<lparr>pcap_handle = - 1, slot_interface = []\<rparr>],
                       active_count := active_count st - 1\<rparr>
                 in (0, [publish_status st], st)))
      else if action = ''stop_all''
      then (let st = st\<lparr>fm_slots := map (\<lambda>s. if pcap_handle s \<ge> 0 then \<lparr>pcap_handle = - 1, slot_interface = []\<rparr> else s) (fm_slots st),
                  active_count := 0\<rparr>
            in (0, [publish_status st], st))
      else if action = ''status'' then (0, [publish_status st], st)
      else (- 1, [], st))"

definition ft_mod_on_packet :: "bool \<Rightarrow> flow_mod_state \<Rightarrow> bytes \<Rightarrow> 64 word \<Rightarrow> int \<Rightarrow> flow_mod_state option" where
  \<comment> \<open>\<open>mem\<close>: the allocation of a flow succeeds; \<open>None\<close> is a read behind the frame\<close>
  "ft_mod_on_packet mem st pkt ts_usec handle_id =
     (if \<not> list_ex (\<lambda>s. pcap_handle s = handle_id) (fm_slots st) then Some st
      else map_option (\<lambda>(rc, ft). st\<lparr>fm_table := ft\<rparr>) (ps_flow_table_process_packet mem (fm_table st) pkt ts_usec))"

definition export_if_any :: "ps_nf_exporter \<Rightarrow> nf_world \<Rightarrow> ps_flow list \<Rightarrow> (ps_nf_exporter \<times> nf_world) option" where
  "export_if_any exp w flows =
     (if flows \<noteq> [] then map_option (\<lambda>(sent, exp, w). (exp, w)) (ps_nf_exporter_send exp w flows) else Some (exp, w))"

definition ft_mod_tick :: "flow_mod_state \<Rightarrow> nf_world \<Rightarrow> 64 word \<Rightarrow> (flow_mod_state \<times> nf_world) option" where
  "ft_mod_tick st w now_usec =
     (if last_expire_time st \<noteq> 0 \<and> now_usec - last_expire_time st < 10 * 1000000 then Some (st, w)
      else let (expired, ft) = ps_flow_table_expire (fm_table st) now_usec FT_MOD_EXPIRE_BATCH
      in do {
        (exp, w) \<leftarrow> export_if_any (fm_exporter st) w expired;
        (exp, w) \<leftarrow> export_if_any exp w (ps_flow_table_snapshot ft (last_snapshot_time st) FT_MOD_EXPIRE_BATCH);
        Some (st\<lparr>last_expire_time := now_usec, fm_table := ft, last_snapshot_time := now_usec, fm_exporter := exp\<rparr>, w)
      })"

lemma expire_shrinks: "ps_flow_table_expire ft now m = (out, ft') \<Longrightarrow> length (ft_tree ft') + length out = length (ft_tree ft)"
  by (auto simp: ps_flow_table_expire_def split: prod.splits dest!: expire_scan_set(3))

function flush_flows :: "ps_nf_exporter \<Rightarrow> nf_world \<Rightarrow> ps_flow_table \<Rightarrow> nat \<Rightarrow> (nat \<times> ps_nf_exporter \<times> nf_world \<times> ps_flow_table) option" where
  \<comment> \<open>the loop of the flush, with the number of flows flushed\<close>
  "flush_flows exp w ft flushed =
     (let (expired, ft') = ps_flow_table_expire ft (- 1) FT_MOD_EXPIRE_BATCH
      in case export_if_any exp w expired of
           None \<Rightarrow> None
         | Some (exp, w) \<Rightarrow>
             (let flushed = flushed + length expired
              in if length expired = 256 then flush_flows exp w ft' flushed else Some (flushed, exp, w, ft')))"
  by pat_completeness auto
termination
  by (relation "measure (\<lambda>(exp, w, ft, flushed). length (ft_tree ft))") (auto dest: expire_shrinks [OF sym])

declare flush_flows.simps [simp del]

definition ft_mod_shutdown :: "flow_mod_state \<Rightarrow> nf_world \<Rightarrow> nf_world option" where
  \<comment> \<open>the exporter, the table and the state are freed\<close>
  "ft_mod_shutdown st w = map_option (\<lambda>(flushed, exp, w, ft). w) (flush_flows (fm_exporter st) w (fm_table st) 0)"

section \<open>The answer to a query\<close>

definition flow_cmp_bytes_desc :: "ps_flow \<Rightarrow> ps_flow \<Rightarrow> int" where
  "flow_cmp_bytes_desc a b = (if both_octets b > both_octets a then 1 else if both_octets b < both_octets a then - 1 else 0)"

definition ip_text :: "ps_flow \<Rightarrow> bytes \<Rightarrow> string" where
  "ip_text f a = (if k_af (f_key f) = AF_INET6 then inet_ntop6 a else inet_ntop4 a)"

definition flow_text :: "ps_flow \<Rightarrow> string" where
  \<comment> \<open>the format of one flow\<close>
  "flow_text f =
     (let dur = (if flow_last f > flow_start f then unat ((flow_last f - flow_start f) div 1000000) else 0)
      in ''{'' @ key_text ''src_ip'' @ CHR 0x22 # ip_text f (k_src_addr (f_key f)) @ CHR 0x22 # '','' @
         key_text ''dst_ip'' @ CHR 0x22 # ip_text f (k_dst_addr (f_key f)) @ CHR 0x22 # '','' @
         key_text ''proto'' @ show_nat (unat (k_proto (f_key f))) @ '','' @
         key_text ''src_port'' @ show_nat (unat (k_src_port (f_key f))) @ '','' @
         key_text ''dst_port'' @ show_nat (unat (k_dst_port (f_key f))) @ '','' @
         key_text ''packets_fwd'' @ show_nat (unat (f_packets f ! 0)) @ '','' @
         key_text ''packets_rev'' @ show_nat (unat (f_packets f ! 1)) @ '','' @
         key_text ''bytes_fwd'' @ show_nat (unat (f_octets f ! 0)) @ '','' @
         key_text ''bytes_rev'' @ show_nat (unat (f_octets f ! 1)) @ '','' @
         key_text ''duration_sec'' @ show_nat dur @ ''}'')"

fun snapshot_rows :: "nat \<Rightarrow> string \<Rightarrow> bool \<Rightarrow> ps_flow list \<Rightarrow> string" where
  \<comment> \<open>the loop over the flows; the text so far is the buffer up to \<open>pos\<close>\<close>
  "snapshot_rows bufsz buf first [] = buf"
| "snapshot_rows bufsz buf first (f # fs) =
     (if length buf < bufsz - 2
      then let buf = (if \<not> first \<and> length buf < bufsz - 1 then buf @ '','' else buf)
           in if length (flow_text f) \<ge> bufsz - length buf then buf
              else snapshot_rows bufsz (buf @ flow_text f) False fs
      else buf)"

definition ps_flow_tracker_snapshot_json ::
  "(ps_flow list \<Rightarrow> ps_flow list) \<Rightarrow> ps_flow_table option \<Rightarrow> nat \<Rightarrow> string option" where
  \<comment> \<open>\<open>qsort\<close>: what the library makes of the array; \<open>None\<close> is the result 0\<close>
  "ps_flow_tracker_snapshot_json qsort table bufsz =
     (if bufsz < 64 then None
      else case table of
             None \<Rightarrow> (let t = ''{'' @ key_text ''flow_count'' @ ''0,'' @ key_text ''flows'' @ ''[]}''
                     in if length t < bufsz then Some t else None)
           | Some ft \<Rightarrow>
               (let flows = ps_flow_table_snapshot ft 0 65536;
                    flows = (if length flows > 1 then qsort flows else flows);
                    head = ''{'' @ key_text ''flow_count'' @ show_nat (length flows) @ '','' @ key_text ''flows'' @ ''[''
                in if length head \<ge> bufsz then None
                   else let buf = snapshot_rows bufsz head True (take 500 flows)
                        in if 2 \<ge> bufsz - length buf then None else Some (buf @ '']}'')))"

section \<open>The invariant\<close>

definition open_slots :: "ft_capture_slot list \<Rightarrow> nat" where
  "open_slots ss = length (filter (\<lambda>s. pcap_handle s \<ge> 0) ss)"

definition timeouts :: "ps_flow_table \<Rightarrow> 64 word list" where
  "timeouts ft = [timeout_tcp_est ft, timeout_tcp_short ft, timeout_udp ft, timeout_icmp ft, timeout_general ft, timeout_max_lifetime ft]"

definition fm_inv :: "flow_mod_state \<Rightarrow> bool" where
  "fm_inv st \<longleftrightarrow> ft_inv (fm_table st) \<and> list_all flow_wf (ft_tree (fm_table st)) \<and>
     timeouts (fm_table st) = timeouts (ps_flow_table_create 65536 2) \<and> length (fm_slots st) = FT_MOD_MAX_INTERFACES \<and>
     list_all (\<lambda>s. length (slot_interface s) < 64) (fm_slots st) \<and> active_count st = int (open_slots (fm_slots st))"

datatype callback = On_job ps_job | On_packet bool bytes "64 word" int | On_tick "64 word"

fun callback_step :: "(string \<Rightarrow> int) \<Rightarrow> flow_mod_state \<times> nf_world \<Rightarrow> callback \<Rightarrow> (flow_mod_state \<times> nf_world) option" where
  "callback_step open_pcap (st, w) (On_job job) = Some (snd (snd (ft_mod_on_job open_pcap st job)), w)"
| "callback_step open_pcap (st, w) (On_packet mem pkt ts h) = map_option (\<lambda>st. (st, w)) (ft_mod_on_packet mem st pkt ts h)"
| "callback_step open_pcap (st, w) (On_tick now) = ft_mod_tick st w now"

fun run_callbacks :: "(string \<Rightarrow> int) \<Rightarrow> flow_mod_state \<times> nf_world \<Rightarrow> callback list \<Rightarrow> (flow_mod_state \<times> nf_world) option" where
  "run_callbacks open_pcap x [] = Some x"
| "run_callbacks open_pcap x (c # cs) = do { x \<leftarrow> callback_step open_pcap x c; run_callbacks open_pcap x cs }"

lemma slot_index_Some: "slot_index P ss = Some i \<Longrightarrow> i < length ss \<and> P (ss ! i)"
  by (induction ss arbitrary: i) (auto split: if_splits)

lemma open_slots_Cons: "int (open_slots (a # ss)) = (if pcap_handle a \<ge> 0 then 1 else 0) + int (open_slots ss)"
  by (simp add: open_slots_def)

lemma open_slots_update:
  "i < length ss \<Longrightarrow> int (open_slots (ss[i := s])) =
     int (open_slots ss) - (if pcap_handle (ss ! i) \<ge> 0 then 1 else 0) + (if pcap_handle s \<ge> 0 then 1 else 0)"
proof (induction ss arbitrary: i)
  case (Cons a ss)
  then show ?case by (cases i) (simp_all add: open_slots_Cons del: of_nat_eq_iff)
qed simp

lemma list_all_update: "list_all P xs \<Longrightarrow> P x \<Longrightarrow> list_all P (xs[i := x])"
  using set_update_subset_insert [of xs i x] by (auto simp: list_all_iff)

lemma set_slot_inv:
  assumes "fm_inv st" "i < length (fm_slots st)" "length (slot_interface s) < 64"
    "n = active_count st - (if pcap_handle (fm_slots st ! i) \<ge> 0 then 1 else 0) + (if pcap_handle s \<ge> 0 then 1 else 0)"
  shows "fm_inv (st\<lparr>fm_slots := (fm_slots st)[i := s], active_count := n\<rparr>)"
  using assms open_slots_update [OF assms(2), of s] by (simp add: fm_inv_def list_all_update)

lemma stop_all_inv:
  "fm_inv st \<Longrightarrow> fm_inv (st\<lparr>fm_slots := map (\<lambda>s. if pcap_handle s \<ge> 0 then \<lparr>pcap_handle = - 1, slot_interface = []\<rparr> else s) (fm_slots st),
     active_count := 0\<rparr>)"
  by (auto simp: fm_inv_def list_all_iff open_slots_def)

lemma on_job_inv: "fm_inv st \<Longrightarrow> fm_inv (snd (snd (ft_mod_on_job open_pcap st job)))"
  by (auto simp: ft_mod_on_job_def Let_def find_slot_by_iface_def find_free_slot_def stop_all_inv
      split: option.split dest!: slot_index_Some intro!: set_slot_inv)

lemma make_flow_key_wf:
  assumes "pp_wf pp" "make_flow_key pp lvl = (dir, key)"
  shows "length (k_src_addr key) = 16 \<and> length (k_dst_addr key) = 16"
  using assms by (auto simp: make_flow_key_def Let_def pp_wf_def put16_def split: if_splits)

lemma process_wf:
  assumes "list_all flow_wf (ft_tree ft)" "ps_flow_table_process_packet mem ft pkt ts = Some (r, ft')"
  shows "list_all flow_wf (ft_tree ft')"
proof (cases "pkt = []")
  case True
  with assms show ?thesis by (simp add: ps_flow_table_process_packet_def)
next
  case False
  from assms(2) False show ?thesis
  proof (cases rule: process_cases)
    case (hit pp dir key f)
    then show ?thesis
      using assms(1) flows.update_set [of "key_bytes key" "count_packet dir pp ts" "ft_tree ft"]
      by (fastforce simp: list_all_iff flow_wf_def)
  next
    case (new pp dir key)
    have "key_bytes key \<notin> node_key ` set (ft_tree ft)" using new(3) flows.find_None by blast
    then have "set (ft_tree ft') = insert (new_flow key dir pp ts) (set (ft_tree ft))" using new(7) flows.insert_set by simp
    moreover have "flow_wf (new_flow key dir pp ts)"
      using make_flow_key_wf [OF _ new(2)] parse_ethernet_ok [OF new(1)] by (simp add: flow_wf_def)
    ultimately show ?thesis using assms(1) by (simp add: list_all_iff)
  qed (use assms(1) in simp_all)
qed

lemma process_timeouts: "ps_flow_table_process_packet mem ft pkt ts = Some (r, ft') \<Longrightarrow> timeouts ft' = timeouts ft"
  by (auto simp: ps_flow_table_process_packet_def timeouts_def Let_def split: option.splits if_splits prod.splits)

lemma expire_timeouts: "ps_flow_table_expire ft now m = (out, ft') \<Longrightarrow> timeouts ft' = timeouts ft"
  by (auto simp: ps_flow_table_expire_def timeouts_def Let_def split: prod.splits)

lemma on_packet_inv: "fm_inv st \<Longrightarrow> \<exists>st'. ft_mod_on_packet mem st pkt ts h = Some st' \<and> fm_inv st'"
proof -
  assume inv: "fm_inv st"
  obtain r ft where p: "ps_flow_table_process_packet mem (fm_table st) pkt ts = Some (r, ft)" using process_total by blast
  have "ft_inv ft" "list_all flow_wf (ft_tree ft)" "timeouts ft = timeouts (fm_table st)"
    using process_inv [OF _ p] process_wf [OF _ p] process_timeouts [OF p] inv by (simp_all add: fm_inv_def)
  then have "fm_inv (st\<lparr>fm_table := ft\<rparr>)" using inv by (simp add: fm_inv_def)
  then show ?thesis using p inv by (simp add: ft_mod_on_packet_def)
qed

lemma expire_wf:
  assumes "list_all P (ft_tree ft)" "ps_flow_table_expire ft now m = (out, ft')"
  shows "list_all P out \<and> list_all P (ft_tree ft')"
  using assms by (auto simp: ps_flow_table_expire_def list_all_iff split: prod.splits dest!: expire_scan_set(1))

lemma snapshot_sub: "set (ps_flow_table_snapshot ft since m) \<subseteq> set (ft_tree ft)"
proof -
  have "set (snapshot_scan since m n fs) \<subseteq> set fs" for n fs
    by (induction since m n fs rule: snapshot_scan.induct) auto
  then show ?thesis by (simp add: ps_flow_table_snapshot_def)
qed

lemma export_if_any_total: "list_all flow_wf flows \<Longrightarrow> \<exists>exp' w'. export_if_any exp w flows = Some (exp', w')"
  using exporter_send_total [of flows exp w] by (auto simp: export_if_any_def)

lemma tick_inv:
  assumes "fm_inv st"
  shows "\<exists>st' w'. ft_mod_tick st w now = Some (st', w') \<and> fm_inv st'"
proof -
  obtain out ft where e: "ps_flow_table_expire (fm_table st) now FT_MOD_EXPIRE_BATCH = (out, ft)" by fastforce
  have wf: "list_all flow_wf out" "list_all flow_wf (ft_tree ft)" "ft_inv ft" "timeouts ft = timeouts (fm_table st)"
    using expire_timeouts [OF e] expire_wf [OF _ e] expire_inv [OF _ e] assms by (simp_all add: fm_inv_def)
  have "list_all flow_wf (ps_flow_table_snapshot ft (last_snapshot_time st) FT_MOD_EXPIRE_BATCH)"
    using wf(2) snapshot_sub by (fastforce simp: list_all_iff)
  with export_if_any_total [OF wf(1)] export_if_any_total [OF this] obtain exp1 w1 exp2 w2 where
    "export_if_any (fm_exporter st) w out = Some (exp1, w1)"
    "export_if_any exp1 w1 (ps_flow_table_snapshot ft (last_snapshot_time st) FT_MOD_EXPIRE_BATCH) = Some (exp2, w2)" by meson
  with e wf(2-4) assms show ?thesis by (auto simp: ft_mod_tick_def fm_inv_def)
qed

lemma callback_total: "fm_inv st \<Longrightarrow> \<exists>st' w'. callback_step open_pcap (st, w) c = Some (st', w') \<and> fm_inv st'"
  using on_job_inv on_packet_inv tick_inv by (cases c) auto

lemma run_callbacks_inv: "fm_inv st \<Longrightarrow> \<exists>st' w'. run_callbacks open_pcap (st, w) cs = Some (st', w') \<and> fm_inv st'"
proof (induction cs arbitrary: st w)
  case (Cons c cs)
  with callback_total [OF Cons.prems, of open_pcap w c] show ?case by auto
qed simp

lemma flush_total:
  "list_all flow_wf (ft_tree ft) \<Longrightarrow> flush_flows exp w ft k \<noteq> None"
proof (induction exp w ft k rule: flush_flows.induct)
  case (1 exp w ft k)
  obtain out ft' where e: "ps_flow_table_expire ft (- 1) FT_MOD_EXPIRE_BATCH = (out, ft')" by fastforce
  have wf: "list_all flow_wf out" "list_all flow_wf (ft_tree ft')" using expire_wf [OF 1(2) e] by simp_all
  obtain exp' w' where x: "export_if_any exp w out = Some (exp', w')" using export_if_any_total [OF wf(1)] by blast
  show ?case
    using 1(1) [OF e [symmetric] refl x refl refl] wf(2) e x by (subst flush_flows.simps) (simp add: Let_def)
qed

lemma status_slots_length:
  "list_all (\<lambda>s. length (slot_interface s) < 64) ss \<Longrightarrow> length (status_slots first ss) \<le> 66 * length ss"
  by (induction first ss rule: status_slots.induct) auto

lemma status_fits:
  assumes "fm_inv st"
  shows "length (snd (publish_status st)) < 1024"
proof -
  have "open_slots (fm_slots st) \<le> length (fm_slots st)" by (simp add: open_slots_def)
  then have "active_count st \<in> set [0, 1, 2, 3, 4, 5, 6, 7, 8]" using assms by (auto simp: fm_inv_def)
  moreover have "list_all (\<lambda>n. length (show_int n) = 1) [0, 1, 2, 3, 4, 5, 6, 7, 8]" by code_simp
  ultimately have "length (show_int (active_count st)) = 1" by (simp only: list_all_iff)
  moreover have "length (status_slots True (fm_slots st)) \<le> 66 * 8"
    using assms status_slots_length [of "fm_slots st" True] by (simp add: fm_inv_def)
  ultimately show ?thesis by (simp add: publish_status_def)
qed

lemma mod_init_inv:
  assumes "ft_mod_init getenv reach w = (Some st, w0)"
  shows "fm_inv st"
proof -
  have "fm_inv \<lparr>fm_table = ps_flow_table_create 65536 2, fm_exporter = exp, last_expire_time = 0, last_snapshot_time = 0,
    fm_slots = replicate FT_MOD_MAX_INTERFACES \<lparr>pcap_handle = - 1, slot_interface = []\<rparr>, active_count = 0\<rparr>" for exp
    by (simp add: fm_inv_def ft_inv_def ps_flow_table_create_def open_slots_def list_all_iff)
  then show ?thesis using assms by (auto simp: ft_mod_init_def Let_def split_def split: option.splits prod.splits)
qed

section \<open>What a collector sees\<close>

lemma snapshot_length: "0 \<le> m \<Longrightarrow> length (ps_flow_table_snapshot ft since m) \<le> nat m"
proof -
  have "int n \<le> m \<Longrightarrow> length (snapshot_scan since m (int n) fs) + n \<le> nat m" for n fs
  proof (induction fs arbitrary: n)
    case (Cons f fs)
    then show ?case using Cons.IH [of "Suc n"] Cons.IH [of n] by (auto simp: add.commute)
  qed simp
  from this [of 0] show "0 \<le> m \<Longrightarrow> ?thesis" by (simp add: ps_flow_table_snapshot_def)
qed

definition arrived :: "templates \<Rightarrow> nf_world \<Rightarrow> ps_flow list \<Rightarrow> ps_nf_exporter \<Rightarrow> nf_world \<Rightarrow> templates \<Rightarrow> bool" where
  \<comment> \<open>between two states of the world a collector read the datagrams, and all the flows when none was lost\<close>
  "arrived T w flows exp' w' T' \<longleftrightarrow> nf_version exp' = 10 \<and> knows T' exp' \<and> w_up w' = w_up w \<and>
     (\<exists>out recs. w_out w' = w_out w @ out \<and> collect ipfix_read T out = Some (T', recs) \<and>
        ((\<forall>i. w_up w i) \<longrightarrow> of_template 256 recs = map ipfix_v4_vals (filter is_v4 flows) \<and>
                            of_template 257 recs = map ipfix_v6_vals (filter v6_flow flows)))"

lemma arrived_none: "nf_version exp = 10 \<Longrightarrow> knows T exp \<Longrightarrow> arrived T w [] exp w T"
  by (auto simp: arrived_def)

lemma arrivedD: "arrived T w fs exp' w' T' \<Longrightarrow> nf_version exp' = 10 \<and> knows T' exp' \<and> w_up w' = w_up w"
  by (simp add: arrived_def)

lemma arrived_trans:
  assumes "arrived T w fs exp1 w1 T1" "arrived T1 w1 gs exp2 w2 T2"
  shows "arrived T w (fs @ gs) exp2 w2 T2"
proof -
  obtain out1 recs1 where 1: "w_out w1 = w_out w @ out1" "collect ipfix_read T out1 = Some (T1, recs1)" "w_up w1 = w_up w"
    "(\<forall>i. w_up w i) \<longrightarrow> of_template 256 recs1 = map ipfix_v4_vals (filter is_v4 fs) \<and> of_template 257 recs1 = map ipfix_v6_vals (filter v6_flow fs)"
    using assms(1) unfolding arrived_def by blast
  obtain out2 recs2 where 2: "w_out w2 = w_out w1 @ out2" "collect ipfix_read T1 out2 = Some (T2, recs2)"
    "(\<forall>i. w_up w1 i) \<longrightarrow> of_template 256 recs2 = map ipfix_v4_vals (filter is_v4 gs) \<and> of_template 257 recs2 = map ipfix_v6_vals (filter v6_flow gs)"
    using assms(2) unfolding arrived_def by blast
  have "nf_version exp2 = 10" "knows T2 exp2" "w_up w2 = w_up w" using assms by (simp_all add: arrived_def)
  then show ?thesis using 1 2 collect_append [OF 1(2) 2(2)] unfolding arrived_def by auto
qed

lemma export_if_any_arrived:
  assumes "list_all flow_wf flows" "length flows \<le> IPFIX_MAX_FLOWS" "knows T exp" "nf_version exp = 10"
  shows "\<exists>exp' w' T'. export_if_any exp w flows = Some (exp', w') \<and> arrived T w flows exp' w' T'"
proof (cases "flows = []")
  case True
  then show ?thesis using arrived_none assms by (auto simp: export_if_any_def)
next
  case False
  obtain rc exp' w' out T' recs where *: "ps_nf_exporter_send exp w flows = Some (rc, exp', w')" "nf_version exp' = 10" "knows T' exp'"
    "w_up w' = w_up w" "w_out w' = w_out w @ out" "collect ipfix_read T out = Some (T', recs)" "(\<forall>i. w_up w i) \<longrightarrow> 0 \<le> rc"
    "0 \<le> rc \<longrightarrow> of_template 256 recs = map ipfix_v4_vals (filter is_v4 flows) \<and> of_template 257 recs = map ipfix_v6_vals (filter v6_flow flows)"
    using ipfix_send_collected [OF assms, of w] by blast
  then have "arrived T w flows exp' w' T'" unfolding arrived_def by blast
  with *(1) False show ?thesis by (auto simp: export_if_any_def)
qed

lemma expire_length: "ps_flow_table_expire ft now m = (out, ft') \<Longrightarrow> length out \<le> nat m"
  by (auto simp: ps_flow_table_expire_def split: prod.splits dest!: expire_scan_spec)

lemma tick_arrived:
  assumes "fm_inv st" "nf_version (fm_exporter st) = 10" "knows T (fm_exporter st)"
  shows "\<exists>st' w' T' flows. ft_mod_tick st w now = Some (st', w') \<and> arrived T w flows (fm_exporter st') w' T'"
proof (cases "last_expire_time st \<noteq> 0 \<and> now - last_expire_time st < 10 * 1000000")
  case True
  then show ?thesis using arrived_none [OF assms(2,3), of w] by (auto simp: ft_mod_tick_def)
next
  case False
  obtain out ft where e: "ps_flow_table_expire (fm_table st) now FT_MOD_EXPIRE_BATCH = (out, ft)" by fastforce
  let ?snap = "ps_flow_table_snapshot ft (last_snapshot_time st) FT_MOD_EXPIRE_BATCH"
  have wf: "list_all flow_wf out" "list_all flow_wf (ft_tree ft)" using expire_wf [OF _ e] assms by (simp_all add: fm_inv_def)
  have snap: "list_all flow_wf ?snap" "length ?snap \<le> IPFIX_MAX_FLOWS" "length out \<le> IPFIX_MAX_FLOWS"
    using wf(2) snapshot_sub [of ft] snapshot_length [of FT_MOD_EXPIRE_BATCH ft "last_snapshot_time st"] expire_length [OF e]
    by (fastforce simp: list_all_iff)+
  obtain exp1 w1 T1 where 1: "export_if_any (fm_exporter st) w out = Some (exp1, w1)" "arrived T w out exp1 w1 T1"
    using export_if_any_arrived [OF wf(1) snap(3) assms(3,2)] by blast
  then obtain exp2 w2 T2 where 2: "export_if_any exp1 w1 ?snap = Some (exp2, w2)" "arrived T1 w1 ?snap exp2 w2 T2"
    using export_if_any_arrived [OF snap(1,2), of T1 exp1 w1] arrivedD [OF 1(2)] by blast
  from arrived_trans [OF 1(2) 2(2)] 1(1) 2(1) e False show ?thesis by (fastforce simp: ft_mod_tick_def)
qed

lemma job_exporter: "fm_exporter (snd (snd (ft_mod_on_job open_pcap st job))) = fm_exporter st"
  by (simp add: ft_mod_on_job_def Let_def split: option.split)

lemma run_arrived:
  assumes "fm_inv st" "nf_version (fm_exporter st) = 10" "knows T (fm_exporter st)" "run_callbacks open_pcap (st, w) cs = Some (st', w')"
  shows "\<exists>T' flows. arrived T w flows (fm_exporter st') w' T'"
  using assms
proof (induction cs arbitrary: st w T)
  case Nil
  then show ?case using arrived_none [OF Nil.prems(2,3), of w] by auto
next
  case (Cons c cs)
  obtain st1 w1 where 1: "callback_step open_pcap (st, w) c = Some (st1, w1)" "fm_inv st1"
    using callback_total [OF Cons.prems(1)] by blast
  then have run: "run_callbacks open_pcap (st1, w1) cs = Some (st', w')" using Cons.prems(4) by simp
  obtain T1 fs where a: "arrived T w fs (fm_exporter st1) w1 T1"
  proof (cases c)
    case (On_job job)
    then show ?thesis using that arrived_none [OF Cons.prems(2,3), of w] 1(1) by (auto simp: job_exporter)
  next
    case (On_packet mem pkt ts h)
    then show ?thesis
      using that arrived_none [OF Cons.prems(2,3), of w] 1(1) by (auto simp: ft_mod_on_packet_def split: if_splits)
  next
    case (On_tick now)
    then show ?thesis using that tick_arrived [OF Cons.prems(1-3), of w now] 1(1) by auto
  qed
  obtain T2 gs where "arrived T1 w1 gs (fm_exporter st') w' T2"
    using Cons.IH [OF 1(2) _ _ run] arrivedD [OF a] by blast
  with arrived_trans [OF a] show ?case by blast
qed

lemma expire_all:
  assumes "list_all (timed_out ft now) (ft_tree ft)" "ps_flow_table_expire ft now m = (out, ft')"
  shows "out = take (nat m) (ft_tree ft) \<and> ft_tree ft' = drop (nat m) (ft_tree ft) \<and> timed_out ft' = timed_out ft"
proof -
  have r: "expire_scan ft now m 0 (ft_tree ft) = (out, ft_tree ft')"
    using assms(2) by (auto simp: ps_flow_table_expire_def split: prod.splits)
  have all: "filter (timed_out ft now) fs = fs" if "set fs \<subseteq> set (ft_tree ft)" for fs
    using that assms(1) by (induction fs) (auto simp: list_all_iff)
  have "set (ft_tree ft') \<subseteq> set (ft_tree ft)" using expire_scan_set(1) [OF r] by blast
  then show ?thesis using expire_scan_spec [OF r] all timed_out_expire [of ft now m] assms(2) by simp
qed

lemma flush_arrived:
  assumes "list_all flow_wf (ft_tree ft)" "list_all (timed_out ft (- 1)) (ft_tree ft)" "knows T exp" "nf_version exp = 10"
  shows "\<exists>exp' w' ft' T'. flush_flows exp w ft k = Some (k + length (ft_tree ft), exp', w', ft') \<and> ft_tree ft' = [] \<and>
    arrived T w (ft_tree ft) exp' w' T'"
  using assms
proof (induction exp w ft k arbitrary: T rule: flush_flows.induct)
  case (1 exp w ft k)
  obtain out ft' where e: "ps_flow_table_expire ft (- 1) FT_MOD_EXPIRE_BATCH = (out, ft')" by fastforce
  note all = expire_all [OF 1(3) e]
  have wf: "list_all flow_wf out" "list_all flow_wf (ft_tree ft')" "list_all (timed_out ft' (- 1)) (ft_tree ft')" "length out \<le> IPFIX_MAX_FLOWS"
    using expire_wf [OF 1(2) e] expire_wf [OF 1(3) e] all expire_length [OF e] by simp_all
  obtain exp1 w1 T1 where x: "export_if_any exp w out = Some (exp1, w1)" "arrived T w out exp1 w1 T1"
    using export_if_any_arrived [OF wf(1,4) 1(4,5)] by blast
  have parts: "out @ ft_tree ft' = ft_tree ft" using all by simp
  show ?case
  proof (cases "length out = 256")
    case True
    have "knows T1 exp1" "nf_version exp1 = 10" using x(2) by (simp_all add: arrived_def)
    from 1(1) [OF e [symmetric] refl x(1) refl refl True wf(2,3) this] obtain exp2 w2 ft2 T2 where
      2: "flush_flows exp1 w1 ft' (k + length out) = Some (k + length out + length (ft_tree ft'), exp2, w2, ft2)" "ft_tree ft2 = []"
        "arrived T1 w1 (ft_tree ft') exp2 w2 T2" by blast
    have "k + length out + length (ft_tree ft') = k + length (ft_tree ft)" using parts [symmetric] by simp
    then have "flush_flows exp w ft k = Some (k + length (ft_tree ft), exp2, w2, ft2)"
      using e x(1) True 2(1) by (subst flush_flows.simps) simp
    moreover have "arrived T w (ft_tree ft) exp2 w2 T2" using arrived_trans [OF x(2) 2(3)] parts by simp
    ultimately show ?thesis using 2(2) by blast
  next
    case False
    then have "ft_tree ft' = []" "out = ft_tree ft" using all by auto
    moreover have "flush_flows exp w ft k = Some (k + length out, exp1, w1, ft')"
      using e x(1) False by (subst flush_flows.simps) simp
    ultimately show ?thesis using x(2) by auto
  qed
qed

lemma less_minus_one_sub:
  fixes x t :: "64 word"
  assumes "x < - 1 - t"
  shows "x < - 1" "t < - 1 - x"
proof -
  have sub: "unat (- 1 - y) = unat (- 1 :: 64 word) - unat y" "unat y \<le> unat (- 1 :: 64 word)" for y :: "64 word"
    using word_order.extremum [of y] by (simp_all only: unat_sub word_le_nat_alt)
  show "x < - 1" using assms word_order.extremum [of "- 1 - t"] by (rule less_le_trans)
  show "t < - 1 - x" using assms sub(1) [of t] sub(1) [of x] sub(2) [of t] by (simp only: word_less_nat_alt)
qed

lemma old_timed_out:
  assumes "timeouts ft = timeouts (ps_flow_table_create 65536 2)" "flow_last f < - 1 - 3600 * 1000000"
  shows "timed_out ft (- 1) f"
proof -
  have "flow_idle_timeout ft f \<le> 3600 * 1000000"
    using assms(1) by (simp add: flow_idle_timeout_def timeouts_def ps_flow_table_create_def Let_def)
  moreover have "flow_last f < - 1" "3600 * 1000000 < - 1 - flow_last f" using assms(2) by (rule less_minus_one_sub)+
  ultimately have "flow_last f < - 1" "flow_idle_timeout ft f < - 1 - flow_last f" by (blast intro: le_less_trans)+
  then show ?thesis by (simp add: timed_out_def Let_def)
qed

section \<open>The text of an answer\<close>

definition flow_doc :: "ps_flow \<Rightarrow> json" where
  "flow_doc f = JObj [(''src_ip'', JStr (ip_text f (k_src_addr (f_key f)))), (''dst_ip'', JStr (ip_text f (k_dst_addr (f_key f)))),
     (''proto'', JInt (uint (k_proto (f_key f)))), (''src_port'', JInt (uint (k_src_port (f_key f)))), (''dst_port'', JInt (uint (k_dst_port (f_key f)))),
     (''packets_fwd'', JInt (uint (f_packets f ! 0))), (''packets_rev'', JInt (uint (f_packets f ! 1))),
     (''bytes_fwd'', JInt (uint (f_octets f ! 0))), (''bytes_rev'', JInt (uint (f_octets f ! 1))),
     (''duration_sec'', JInt (if flow_last f > flow_start f then uint ((flow_last f - flow_start f) div 1000000) else 0))]"

definition flows_doc :: "ps_flow list \<Rightarrow> json" where
  "flows_doc flows = JObj [(''flow_count'', JInt (int (length flows))), (''flows'', JArr (map flow_doc (take 500 flows)))]"

lemma escape_address: "list_all address_char s \<Longrightarrow> escape s = s"
  by (induction s) (auto simp: escape_def escape_char_def address_char_def hexval_def Let_def)

lemma quoted_address: "list_all address_char s \<Longrightarrow> quoted s = CHR 0x22 # s @ [CHR 0x22]"
  by (simp add: quoted_def escape_address)

lemma show_int_uint: "show_int (uint x) = show_nat (unat x)"
  by (simp add: show_int_def)

lemma flow_text_doc: "flow_text f = show_json (flow_doc f)"
proof -
  have "quoted (ip_text f a) = CHR 0x22 # ip_text f a @ [CHR 0x22]" for a
    by (simp add: quoted_address ip_text_def inet_ntop4_address inet_ntop6_address)
  moreover have "show_int (if flow_last f > flow_start f then uint ((flow_last f - flow_start f) div 1000000) else 0) =
    show_nat (if flow_last f > flow_start f then unat ((flow_last f - flow_start f) div 1000000) else 0)"
    by (simp add: show_int_uint) (simp add: show_int_def)
  ultimately show ?thesis
    by (simp add: flow_text_def flow_doc_def Let_def show_int_uint key_text_def quoted_def escape_def escape_char_def)
qed

lemma show_flows_doc:
  "show_json (flows_doc flows) =
     (''{'' @ key_text ''flow_count'' @ show_nat (length flows) @ '','' @ key_text ''flows'' @ ''['') @
     join (map flow_text (take 500 flows)) @ '']}''"
proof -
  have "flow_text = (\<lambda>f. show_json (flow_doc f))" using flow_text_doc by blast
  then show ?thesis by (simp add: flows_doc_def o_def show_int_def key_text_def quoted_def escape_def escape_char_def)
qed

lemma join_Cons: "join (x # xs) = x @ (if xs = [] then [] else CHR '','' # join xs)"
  by (cases xs) simp_all

lemma snapshot_rows_fit:
  assumes "length (buf @ (if first \<or> fs = [] then [] else '','') @ join (map flow_text fs)) + 2 < bufsz"
  shows "snapshot_rows bufsz buf first fs = buf @ (if first \<or> fs = [] then [] else '','') @ join (map flow_text fs)"
  using assms
proof (induction fs arbitrary: buf first)
  case (Cons f fs)
  let ?buf = "(if first then buf else buf @ '','') @ flow_text f"
  have "length (?buf @ (if False \<or> fs = [] then [] else '','') @ join (map flow_text fs)) + 2 < bufsz"
    using Cons.prems by (auto simp: join_Cons split: if_splits)
  from Cons.IH [OF this] Cons.prems show ?case by (auto simp: join_Cons Let_def split: if_splits)
qed simp

lemma snapshot_rows_cut:
  \<comment> \<open>a row that does not fit leaves the comma in front of it\<close>
  "length buf < bufsz - 2 \<Longrightarrow> bufsz \<le> length buf + 1 + length (flow_text f) \<Longrightarrow> snapshot_rows bufsz buf False (f # fs) = buf @ '',''"
  by (auto simp: Let_def)

lemma snapshot_rows_bound: "length buf < bufsz \<Longrightarrow> length (snapshot_rows bufsz buf first fs) < bufsz"
  by (induction bufsz buf first fs rule: snapshot_rows.induct) (auto simp: Let_def)

lemma snapshot_all: "int n + int (length fs) \<le> m \<Longrightarrow> snapshot_scan since m (int n) fs = filter (\<lambda>f. flow_last f > since) fs"
proof (induction fs arbitrary: n)
  case (Cons f fs)
  then show ?case using Cons.IH [of "Suc n"] Cons.IH [of n] by (auto simp: add.commute)
qed simp

section \<open>Properties\<close>

lemma init_exporter:
  assumes "ft_mod_init getenv reach w = (Some st, w0)" "getenv ''PS_NETFLOW_VERSION'' = Some ''10''"
  shows "nf_version (fm_exporter st) = 10 \<and> knows (\<lambda>_. None) (fm_exporter st) \<and> w_up w0 = w_up w \<and> w_out w0 = w_out w"
proof -
  have "atoi ''10'' = 10" by code_simp
  moreover have "nf_version exp = 10 \<and> knows (\<lambda>_. None) exp \<and>
      w_up (snd (ps_nf_exporter_create r w h src 10)) = w_up w \<and> w_out (snd (ps_nf_exporter_create r w h src 10)) = w_out w"
    if "fst (ps_nf_exporter_create r w h src 10) = Some exp" for r h src exp
    using that by (auto simp: ps_nf_exporter_create_def knows_def Let_def split: option.splits if_splits)
  ultimately show ?thesis using assms by (auto simp: ft_mod_init_def Let_def split_def split: option.splits prod.splits)
qed

definition sample_env :: "string \<Rightarrow> string option" where
  "sample_env = [''PS_NETFLOW_COLLECTOR'' \<mapsto> ''10.0.0.9:4739'', ''PS_NETFLOW_VERSION'' \<mapsto> ''10'']"

definition sample_start :: flow_mod_state where
  "sample_start = \<lparr>fm_table = ps_flow_table_create 65536 2, fm_exporter = (sample_exporter 10)\<lparr>source_id := 0x5053\<rparr>, last_expire_time = 0,
     last_snapshot_time = 0, fm_slots = replicate 8 \<lparr>pcap_handle = - 1, slot_interface = []\<rparr>, active_count = 0\<rparr>"

definition sample_calls :: "callback list" where
  \<comment> \<open>a capture starts and sees a packet, a clock tick exports the flow\<close>
  "sample_calls = [On_job \<lparr>job_id = ''start'', job_destination = ''eth0'', job_method = ''flow_control''\<rparr>,
     On_packet True example_frame 2000000 3, On_packet True example_frame 2500000 4, On_tick 3000000]"

lemma sample_init: "ft_mod_init sample_env (\<lambda>_ _. True) sample_world = (Some sample_start, sample_world\<lparr>w_reads := 1\<rparr>)"
proof -
  have "collector_address sample_env = (''10.0.0.9'', 4739)" "atoi ''10'' = 10" by code_simp+
  then show ?thesis
    by (simp add: sample_start_def ft_mod_init_def ps_nf_exporter_create_def sample_world_def sample_exporter_def) (simp add: sample_env_def)
qed

text \<open>C7. The flow module is safe from its start to its end. For any environment, any network and any version of the protocol, and for
  every sequence of jobs, packets and clock ticks, no callback reads behind a frame or writes behind a buffer, the table stays
  an ordered tree of well-formed flows within its limit, the slots agree with the number of captures, the status message fits
  its buffer, and the shutdown ends.\<close>

theorem flow_module_safe:
  assumes "ft_mod_init getenv reach w = (Some st, w0)"
  shows "\<exists>st' w1 w2. run_callbacks open_pcap (st, w0) cs = Some (st', w1) \<and> fm_inv st' \<and>
    length (snd (publish_status st')) < 1024 \<and> ft_mod_shutdown st' w1 = Some w2"
proof -
  obtain st' w1 where 1: "run_callbacks open_pcap (st, w0) cs = Some (st', w1)" "fm_inv st'"
    using run_callbacks_inv [OF mod_init_inv [OF assms]] by blast
  moreover have "ft_mod_shutdown st' w1 \<noteq> None"
    using flush_total [of "fm_table st'" "fm_exporter st'" w1 0] 1(2) by (auto simp: ft_mod_shutdown_def fm_inv_def)
  ultimately show ?thesis using status_fits [OF 1(2)] by blast
qed

theorem flow_module_safe_witness:
  "\<exists>st' w1 w2. run_callbacks (\<lambda>_. 3) (sample_start, sample_world\<lparr>w_reads := 1\<rparr>) sample_calls = Some (st', w1) \<and> fm_inv st' \<and>
    length (snd (publish_status st')) < 1024 \<and> ft_mod_shutdown st' w1 = Some w2"
  by (rule flow_module_safe [OF sample_init])

text \<open>C9. The end of the module loses no flow. With IPFIX on a network that takes every datagram, after any sequence of callbacks,
  the shutdown ends, and a collector that read all the datagrams from the start reads those of the shutdown as exactly
  the IPv4 and the IPv6 flows of the table, each once and in the order of the tree, if the clock of the packets is an hour or
  more away from its end.\<close>

theorem flow_shutdown_delivers:
  assumes "ft_mod_init getenv reach w = (Some st, w0)" "getenv ''PS_NETFLOW_VERSION'' = Some ''10''" "\<forall>i. w_up w i"
    and "run_callbacks open_pcap (st, w0) cs = Some (st', w1)"
    and "list_all (\<lambda>f. flow_last f < - 1 - 3600 * 1000000) (ft_tree (fm_table st'))"
  shows "\<exists>w2 sent flushed T T' recs recs'. ft_mod_shutdown st' w1 = Some w2 \<and> w_out w1 = w_out w @ sent \<and> w_out w2 = w_out w1 @ flushed \<and>
    collect ipfix_read (\<lambda>_. None) sent = Some (T, recs) \<and> collect ipfix_read T flushed = Some (T', recs') \<and>
    of_template 256 recs' = map ipfix_v4_vals (filter is_v4 (ft_tree (fm_table st'))) \<and>
    of_template 257 recs' = map ipfix_v6_vals (filter v6_flow (ft_tree (fm_table st')))"
proof -
  note init = init_exporter [OF assms(1,2)]
  obtain T flows where run: "arrived (\<lambda>_. None) w0 flows (fm_exporter st') w1 T"
    using run_arrived [OF mod_init_inv [OF assms(1)] _ _ assms(4)] init by blast
  have inv: "fm_inv st'" using run_callbacks_inv [OF mod_init_inv [OF assms(1)], of open_pcap w0 cs] assms(4) by auto
  then have "list_all flow_wf (ft_tree (fm_table st'))" "list_all (timed_out (fm_table st') (- 1)) (ft_tree (fm_table st'))"
    using old_timed_out assms(5) by (auto simp: fm_inv_def list_all_iff)
  from flush_arrived [OF this] obtain exp' w2 ft' T' where
    flush: "flush_flows (fm_exporter st') w1 (fm_table st') 0 = Some (0 + length (ft_tree (fm_table st')), exp', w2, ft')"
      "arrived T w1 (ft_tree (fm_table st')) exp' w2 T'"
    using arrivedD [OF run] by blast
  have up: "\<forall>i. w_up w1 i" using assms(3) init arrivedD [OF run] by simp
  have "ft_mod_shutdown st' w1 = Some w2" using flush(1) by (simp add: ft_mod_shutdown_def)
  moreover obtain sent recs where "w_out w1 = w_out w @ sent" "collect ipfix_read (\<lambda>_. None) sent = Some (T, recs)"
    using run init unfolding arrived_def by auto
  moreover obtain flushed recs' where "w_out w2 = w_out w1 @ flushed" "collect ipfix_read T flushed = Some (T', recs')"
    "of_template 256 recs' = map ipfix_v4_vals (filter is_v4 (ft_tree (fm_table st')))"
    "of_template 257 recs' = map ipfix_v6_vals (filter v6_flow (ft_tree (fm_table st')))"
    using flush(2) up unfolding arrived_def by blast
  ultimately show ?thesis by blast
qed

theorem flow_shutdown_delivers_witness:
  "\<exists>st' w1 w2 flushed T T' recs'. run_callbacks (\<lambda>_. 3) (sample_start, sample_world\<lparr>w_reads := 1\<rparr>) (take 3 sample_calls) = Some (st', w1) \<and>
    length (ft_tree (fm_table st')) = 1 \<and> ft_mod_shutdown st' w1 = Some w2 \<and> w_out w2 = w_out w1 @ flushed \<and>
    collect ipfix_read T flushed = Some (T', recs') \<and>
    of_template 256 recs' = map ipfix_v4_vals (filter is_v4 (ft_tree (fm_table st')))"
proof -
  have "case run_callbacks (\<lambda>_. 3) (sample_start, sample_world\<lparr>w_reads := 1\<rparr>) (take 3 sample_calls) of None \<Rightarrow> False
    | Some (st', w1) \<Rightarrow> length (ft_tree (fm_table st')) = 1 \<and> list_all (\<lambda>f. flow_last f < - 1 - 3600 * 1000000) (ft_tree (fm_table st'))"
    by code_simp
  then obtain st' w1 where run: "run_callbacks (\<lambda>_. 3) (sample_start, sample_world\<lparr>w_reads := 1\<rparr>) (take 3 sample_calls) = Some (st', w1)"
    "length (ft_tree (fm_table st')) = 1" "list_all (\<lambda>f. flow_last f < - 1 - 3600 * 1000000) (ft_tree (fm_table st'))"
    by (auto split: option.splits)
  have "sample_env ''PS_NETFLOW_VERSION'' = Some ''10''" "\<forall>i. w_up sample_world i" by (simp_all add: sample_env_def sample_world_def)
  from flow_shutdown_delivers [OF sample_init this run(1,3)] run(1,2) show ?thesis by blast
qed

text \<open>C35. A query of the flows is answered by a JSON document. If the document of the flows seen since the start of the
  clock, with their number and the 500 with most bytes in descending order, is shorter than the buffer, then the answer is its
  text, with addresses in text form and nothing that needs an escape.\<close>

theorem flow_snapshot_document:
  assumes "\<And>fs. mset (qsort fs) = mset fs" "\<And>fs. sorted_wrt (\<lambda>a b. flow_cmp_bytes_desc a b \<le> 0) (qsort fs)"
    and "length (ft_tree ft) \<le> 65536" "64 \<le> bufsz"
  shows "\<exists>fs. mset fs = mset (filter (\<lambda>f. flow_last f > 0) (ft_tree ft)) \<and> sorted_wrt (\<lambda>a b. both_octets a \<ge> both_octets b) fs \<and>
    (length (show_json (flows_doc fs)) < bufsz \<longrightarrow> ps_flow_tracker_snapshot_json qsort (Some ft) bufsz = Some (show_json (flows_doc fs)))"
proof -
  let ?seen = "filter (\<lambda>f. flow_last f > 0) (ft_tree ft)"
  let ?fs = "if length ?seen > 1 then qsort ?seen else ?seen"
  let ?head = "''{'' @ key_text ''flow_count'' @ show_nat (length ?fs) @ '','' @ key_text ''flows'' @ ''[''"
  have snap: "ps_flow_table_snapshot ft 0 65536 = ?seen"
    using snapshot_all [of 0 "ft_tree ft" 65536 0] assms(3) by (simp add: ps_flow_table_snapshot_def)
  note doc = show_flows_doc [of ?fs]
  have "sorted_wrt (\<lambda>a b. both_octets a \<ge> both_octets b) (qsort ?seen)"
    by (rule sorted_wrt_mono_rel [OF _ assms(2)]) (auto simp: flow_cmp_bytes_desc_def split: if_splits)
  moreover have "sorted_wrt R ?seen" if "\<not> length ?seen > 1" for R using that by (cases ?seen) auto
  ultimately have "sorted_wrt (\<lambda>a b. both_octets a \<ge> both_octets b) ?fs" by simp
  moreover have "mset ?fs = mset ?seen" using assms(1) by simp
  moreover have "ps_flow_tracker_snapshot_json qsort (Some ft) bufsz = Some (show_json (flows_doc ?fs))"
    if fits: "length (show_json (flows_doc ?fs)) < bufsz"
  proof -
    have "length (?head @ (if True \<or> take 500 ?fs = [] then [] else '','') @ join (map flow_text (take 500 ?fs))) + 2 < bufsz"
      using fits unfolding doc by simp
    from snapshot_rows_fit [OF this] fits assms(4) show ?thesis
      unfolding doc ps_flow_tracker_snapshot_json_def snap option.case Let_def by simp
  qed
  ultimately show ?thesis by blast
qed

lemma sorting_qsort: "sorted_wrt (\<lambda>a b. flow_cmp_bytes_desc a b \<le> 0) (rev (sort_key both_octets fs))"
proof -
  have "sorted_wrt (\<lambda>a b. both_octets a \<le> both_octets b) (sort_key both_octets fs)"
    using sorted_sort_key [of both_octets fs] by (simp add: sorted_map)
  then show ?thesis unfolding sorted_wrt_rev by (rule sorted_wrt_mono_rel [rotated]) (auto simp: flow_cmp_bytes_desc_def)
qed

theorem flow_snapshot_document_witness:
  "ps_flow_tracker_snapshot_json (\<lambda>fs. rev (sort_key both_octets fs)) (Some example_ft) 4096 = Some (show_json (flows_doc (ft_tree example_ft)))"
proof -
  have tree: "ft_tree example_ft = [hd (ft_tree example_ft)]" "filter (\<lambda>f. flow_last f > 0) (ft_tree example_ft) = [hd (ft_tree example_ft)]"
    by code_simp+
  have "int (length (show_json (flows_doc (ft_tree example_ft)))) < 4096" by code_simp
  then have fits: "length (show_json (flows_doc (ft_tree example_ft))) < 4096" by simp
  have "length (ft_tree example_ft) = 1" by (subst tree(1)) simp
  then have len: "length (ft_tree example_ft) \<le> 65536" by simp
  have "mset (rev (sort_key both_octets fs)) = mset fs" for fs by simp
  from flow_snapshot_document [OF this sorting_qsort len, of 4096] obtain fs where
    fs: "mset fs = mset [hd (ft_tree example_ft)]" "length (show_json (flows_doc fs)) < 4096 \<longrightarrow>
      ps_flow_tracker_snapshot_json (\<lambda>fs. rev (sort_key both_octets fs)) (Some example_ft) 4096 = Some (show_json (flows_doc fs))"
    unfolding tree(2) by auto
  have "fs = ft_tree example_ft" using fs(1) by (subst tree(1)) simp
  with fs(2) fits show ?thesis by blast
qed

end
