(* ===== verification/Ring_Queues.thy ===== *)
theory Ring_Queues
  imports Prelude
begin

text \<open>
  The two ring buffers that carry JSON lines between threads: the activity ring of the kernel monitor
  (\<open>activity_ring.c\<close>, one sub-ring per consumer) and the queue of observations of the agent
  (\<open>obs_queue.c\<close>). Each operation runs under the buffer's mutex and is one step here. A slot is the
  memory of one item up to the last byte ever written to it; the bytes behind are zero.

  The locale \<open>bounded_queue\<close> is the contract of both: a queue that holds at most \<open>cap\<close> items, drops
  the oldest one when it is full, and hands its items out in the order they came.
\<close>

section \<open>Slots\<close>

definition slot_write :: "string \<Rightarrow> string \<Rightarrow> string" where
  \<comment> \<open>\<open>memcpy(slot, s, len); slot[len] = 0\<close>\<close>
  "slot_write s slot = s @ [CHR 0x00] @ drop (Suc (length s)) slot"

lemma take_slot_write: "take (length s) (slot_write s slot) = s"
  "take (Suc (length s)) (slot_write s slot) = s @ [CHR 0x00]"
  by (simp_all add: slot_write_def)

section \<open>The activity ring\<close>

abbreviation PS_ACT_RING_CAP :: nat where "PS_ACT_RING_CAP \<equiv> 256"
abbreviation PS_ACT_ITEM_MAX :: nat where "PS_ACT_ITEM_MAX \<equiv> 8192"
abbreviation PS_ACT_MAX_CONSUMERS :: nat where "PS_ACT_MAX_CONSUMERS \<equiv> 8"

record subring =
  sr_buf :: "string list"
  sr_len :: "nat list"
  sr_head :: nat
  sr_count :: nat

definition zero_subring :: subring where
  "zero_subring = \<lparr>sr_buf = replicate PS_ACT_RING_CAP [], sr_len = replicate PS_ACT_RING_CAP 0, sr_head = 0, sr_count = 0\<rparr>"

record act_ring =
  g_sub :: "subring list"
  g_n :: nat

definition ps_act_ring_init :: act_ring where
  "ps_act_ring_init = \<lparr>g_sub = replicate PS_ACT_MAX_CONSUMERS zero_subring, g_n = 0\<rparr>"

definition ps_act_ring_register :: "act_ring \<Rightarrow> int \<times> act_ring" where
  "ps_act_ring_register r =
     (if g_n r < PS_ACT_MAX_CONSUMERS then (int (g_n r), r\<lparr>g_n := g_n r + 1\<rparr>) else (- 1, r))"

definition sub_push :: "subring \<Rightarrow> string \<Rightarrow> subring" where
  "sub_push s json =
     (let tail = (sr_head s + sr_count s) mod PS_ACT_RING_CAP;
          (s, tail) =
            (if sr_count s = PS_ACT_RING_CAP
             then let h = (sr_head s + 1) mod PS_ACT_RING_CAP
                  in (s\<lparr>sr_head := h\<rparr>, (h + sr_count s - 1) mod PS_ACT_RING_CAP)
             else (s\<lparr>sr_count := sr_count s + 1\<rparr>, tail))
      in s\<lparr>sr_buf := (sr_buf s)[tail := slot_write json (sr_buf s ! tail)],
           sr_len := (sr_len s)[tail := length json]\<rparr>)"

fun push_all :: "nat \<Rightarrow> string \<Rightarrow> subring list \<Rightarrow> subring list" where
  \<comment> \<open>the loop over the registered consumers\<close>
  "push_all n json [] = []"
| "push_all n json (s # ss) = (if n = 0 then s # ss else sub_push s json # push_all (n - 1) json ss)"

definition ps_act_ring_push :: "act_ring \<Rightarrow> string \<Rightarrow> act_ring" where
  "ps_act_ring_push r json =
     (if json = [] \<or> length json \<ge> PS_ACT_ITEM_MAX then r else r\<lparr>g_sub := push_all (g_n r) json (g_sub r)\<rparr>)"

function sub_drain :: "int \<Rightarrow> int \<Rightarrow> subring \<Rightarrow> string list \<times> subring" where
  \<comment> \<open>the loop of \<open>ps_act_ring_drain\<close>: the bytes copied to each item\<close>
  "sub_drain n maxn s =
     (if n < maxn \<and> sr_count s > 0
      then let item = take (sr_len s ! sr_head s + 1) (sr_buf s ! sr_head s);
               (items, s') = sub_drain (n + 1) maxn
                 (s\<lparr>sr_head := (sr_head s + 1) mod PS_ACT_RING_CAP, sr_count := sr_count s - 1\<rparr>)
           in (item # items, s')
      else ([], s))"
  by pat_completeness auto
termination by (relation "measure (\<lambda>(n, maxn, s). sr_count s)") auto

declare sub_drain.simps [simp del]

definition ps_act_ring_drain :: "act_ring \<Rightarrow> int \<Rightarrow> int \<Rightarrow> string list \<times> act_ring" where
  "ps_act_ring_drain r consumer maxn =
     (if consumer < 0 \<or> consumer \<ge> int PS_ACT_MAX_CONSUMERS then ([], r)
      else let (items, s) = sub_drain 0 maxn (g_sub r ! nat consumer)
           in (items, r\<lparr>g_sub := (g_sub r)[nat consumer := s]\<rparr>))"

definition ps_act_ring_count :: "act_ring \<Rightarrow> int \<Rightarrow> int" where
  "ps_act_ring_count r consumer =
     (if consumer < 0 \<or> consumer \<ge> int PS_ACT_MAX_CONSUMERS then 0 else int (sr_count (g_sub r ! nat consumer)))"

section \<open>The queue of observations\<close>

abbreviation PS_OBS_QUEUE_CAP :: nat where "PS_OBS_QUEUE_CAP \<equiv> 256"
abbreviation PS_OBS_ITEM_MAX :: nat where "PS_OBS_ITEM_MAX \<equiv> 4096"

record obs_item =
  oi_data :: string
  oi_len :: nat

record obs_queue =
  g_ring :: "obs_item list"
  g_head :: nat
  g_tail :: nat
  g_count :: nat

definition obs_fields :: "string \<Rightarrow> string \<Rightarrow> string \<Rightarrow> string" where
  "obs_fields channel ts_iso obs =
     ''{\"kind\":\"'' @ channel @ ''\",\"ts\":\"'' @ ts_iso @ ''\",\"observation\":'' @ obs @ ''}''"

definition ps_obs_build_event :: "nat \<Rightarrow> string \<Rightarrow> string \<Rightarrow> string \<Rightarrow> nat \<Rightarrow> string \<times> nat" where
  \<comment> \<open>the text left in the buffer of \<open>cap\<close> bytes and the returned length\<close>
  "ps_obs_build_event cap channel ts_iso observation_json obs_len =
     (let s = obs_fields channel ts_iso (take obs_len observation_json)
      in if length s \<ge> cap then ([], 0) else (s, length s))"

definition obs_memory :: obs_queue where
  \<comment> \<open>the static variables when the program starts\<close>
  "obs_memory = \<lparr>g_ring = replicate PS_OBS_QUEUE_CAP \<lparr>oi_data = [], oi_len = 0\<rparr>, g_head = 0, g_tail = 0, g_count = 0\<rparr>"

definition ps_obs_queue_init :: "obs_queue \<Rightarrow> obs_queue" where
  "ps_obs_queue_init q = q\<lparr>g_head := 0, g_tail := 0, g_count := 0\<rparr>"

definition obs_push :: "obs_queue \<Rightarrow> string \<Rightarrow> obs_queue" where
  \<comment> \<open>the critical section of \<open>ps_obs_queue_push\<close>\<close>
  "obs_push q json =
     (let q = (if g_count q = PS_OBS_QUEUE_CAP
               then q\<lparr>g_head := (g_head q + 1) mod PS_OBS_QUEUE_CAP, g_count := g_count q - 1\<rparr> else q);
          it = g_ring q ! g_tail q
      in q\<lparr>g_ring := (g_ring q)[g_tail q := \<lparr>oi_data = slot_write json (oi_data it), oi_len = length json\<rparr>],
           g_tail := (g_tail q + 1) mod PS_OBS_QUEUE_CAP, g_count := g_count q + 1\<rparr>)"

definition ps_obs_queue_push :: "obs_queue \<Rightarrow> string \<Rightarrow> obs_queue" where
  "ps_obs_queue_push q json =
     (if json = [] \<or> length json \<ge> PS_OBS_ITEM_MAX then q else obs_push q json)"

function obs_drain :: "int \<Rightarrow> int \<Rightarrow> obs_queue \<Rightarrow> string list \<times> obs_queue" where
  "obs_drain n maxn q =
     (if n < maxn \<and> g_count q > 0
      then let it = g_ring q ! g_head q;
               (items, q') = obs_drain (n + 1) maxn
                 (q\<lparr>g_head := (g_head q + 1) mod PS_OBS_QUEUE_CAP, g_count := g_count q - 1\<rparr>)
           in (take (oi_len it + 1) (oi_data it) # items, q')
      else ([], q))"
  by pat_completeness auto
termination by (relation "measure (\<lambda>(n, maxn, q). g_count q)") auto

declare obs_drain.simps [simp del]

definition ps_obs_queue_drain :: "obs_queue \<Rightarrow> int \<Rightarrow> string list \<times> obs_queue" where
  "ps_obs_queue_drain q maxn = obs_drain 0 maxn q"

definition ps_obs_queue_count :: "obs_queue \<Rightarrow> int" where
  "ps_obs_queue_count q = int (g_count q)"

section \<open>The contract of a bounded queue\<close>

definition lastn :: "nat \<Rightarrow> 'a list \<Rightarrow> 'a list" where
  "lastn n xs = drop (length xs - n) xs"

lemma lastn_id [simp]: "length xs \<le> n \<Longrightarrow> lastn n xs = xs"
  by (simp add: lastn_def)

lemma length_lastn [simp]: "length (lastn n xs) = min n (length xs)"
  by (simp add: lastn_def)

lemma lastn_lastn_app: "lastn n (lastn n xs @ ys) = lastn n (xs @ ys)"
  by (cases "length xs \<le> n") (simp_all add: lastn_def add.commute)

locale bounded_queue =
  fixes push :: "'s \<Rightarrow> 'a \<Rightarrow> 's"
    and pop :: "'s \<Rightarrow> 's"
    and items :: "'s \<Rightarrow> 'a list"
    and inv :: "'s \<Rightarrow> bool"
    and cap :: nat
  assumes cap_pos: "0 < cap"
    and items_le: "inv s \<Longrightarrow> length (items s) \<le> cap"
    and push_inv: "inv s \<Longrightarrow> inv (push s x)"
    and push_items: "inv s \<Longrightarrow> items (push s x) = (if length (items s) = cap then tl (items s) else items s) @ [x]"
    and pop_inv: "inv s \<Longrightarrow> items s \<noteq> [] \<Longrightarrow> inv (pop s)"
    and pop_items: "inv s \<Longrightarrow> items s \<noteq> [] \<Longrightarrow> items (pop s) = tl (items s)"
begin

lemma push_lastn: "inv s \<Longrightarrow> items (push s x) = lastn cap (items s @ [x])"
  using items_le [of s] cap_pos by (cases cap) (auto simp: push_items lastn_def drop_Suc)

lemma foldl_push: "inv s \<Longrightarrow> inv (foldl push s xs) \<and> items (foldl push s xs) = lastn cap (items s @ xs)"
proof (induction xs arbitrary: s)
  case Nil
  then show ?case using items_le by simp
next
  case (Cons x xs)
  then show ?case
    using push_inv [of s x] push_lastn [of s x] lastn_lastn_app [of cap "items s @ [x]" xs] by simp
qed

lemma funpow_pop: "inv s \<Longrightarrow> n \<le> length (items s) \<Longrightarrow> inv ((pop ^^ n) s) \<and> items ((pop ^^ n) s) = drop n (items s)"
proof (induction n)
  case (Suc n)
  then have ih: "inv ((pop ^^ n) s)" "items ((pop ^^ n) s) = drop n (items s)" by simp_all
  then have "items ((pop ^^ n) s) \<noteq> []" using Suc.prems by simp
  with ih pop_inv pop_items show ?case by (simp add: drop_Suc tl_drop)
qed simp

end

section \<open>Ring arithmetic\<close>

definition ring_items :: "nat \<Rightarrow> nat \<Rightarrow> 'a list \<Rightarrow> 'a list" where
  "ring_items h c xs = map (\<lambda>i. xs ! ((h + i) mod length xs)) [0..<c]"

lemma length_ring_items [simp]: "length (ring_items h c xs) = c"
  by (simp add: ring_items_def)

lemma ring_index_inj:
  fixes h i c N :: nat
  assumes "i < c" "c < N"
  shows "(h + i) mod N \<noteq> (h + c) mod N"
proof
  assume "(h + i) mod N = (h + c) mod N"
  then have "N dvd (h + c) - (h + i)" using assms by (metis add_left_mono less_imp_le mod_eq_dvd_iff_nat)
  then show False using assms by (auto dest: dvd_imp_le)
qed

lemma ring_push:
  assumes "c < length xs"
  shows "ring_items h (Suc c) (xs[(h + c) mod length xs := x]) = ring_items h c xs @ [x]"
proof -
  have "(h + c) mod length xs < length xs" using assms by (intro mod_less_divisor) linarith
  moreover have "(h + c) mod length xs \<noteq> (h + i) mod length xs" if "i < c" for i
    using ring_index_inj [OF that assms, of h] by simp
  ultimately show ?thesis by (simp add: ring_items_def)
qed

lemma ring_pop: "ring_items ((h + 1) mod length xs) (c - 1) xs = tl (ring_items h c xs)"
proof (cases c)
  case (Suc d)
  have "((h + 1) mod length xs + i) mod length xs = (h + Suc i) mod length xs" for i
    by (simp add: mod_add_left_eq)
  then show ?thesis by (intro nth_equalityI) (simp_all add: ring_items_def Suc nth_tl del: upt_Suc)
qed (simp add: ring_items_def)

lemma ring_push_full:
  assumes "h < length xs"
  shows "ring_items ((h + 1) mod length xs) (length xs) (xs[h := x]) = tl (ring_items h (length xs) xs) @ [x]"
proof -
  let ?n = "length xs" and ?h = "(h + 1) mod length xs"
  have n: "0 < ?n" using assms by linarith
  have "(?h + (?n - 1)) mod ?n = (h + 1 + (?n - 1)) mod ?n" by (rule mod_add_left_eq)
  then have tail: "(?h + (?n - 1)) mod ?n = h" using assms n by simp
  have "ring_items ?h (Suc (?n - 1)) (xs[(?h + (?n - 1)) mod ?n := x]) = ring_items ?h (?n - 1) xs @ [x]"
    by (rule ring_push) (use n in simp)
  with n show ?thesis by (simp only: tail ring_pop Suc_diff_1)
qed

section \<open>Both rings are bounded queues\<close>

definition slot_ok :: "string \<times> nat \<Rightarrow> bool" where
  "slot_ok = (\<lambda>(b, l). take (Suc l) b = take l b @ [CHR 0x00])"

definition slot_item :: "string \<times> nat \<Rightarrow> string" where
  "slot_item = (\<lambda>(b, l). take l b)"

lemma slot_write_ok [simp]: "slot_ok (slot_write s b, length s)" "slot_item (slot_write s b, length s) = s"
  by (simp_all add: slot_ok_def slot_item_def take_slot_write)

definition sub_slots :: "subring \<Rightarrow> (string \<times> nat) list" where
  "sub_slots s = ring_items (sr_head s) (sr_count s) (zip (sr_buf s) (sr_len s))"

definition sub_items :: "subring \<Rightarrow> string list" where
  "sub_items s = map slot_item (sub_slots s)"

definition sub_inv :: "subring \<Rightarrow> bool" where
  "sub_inv s \<longleftrightarrow> length (sr_buf s) = PS_ACT_RING_CAP \<and> length (sr_len s) = PS_ACT_RING_CAP \<and>
     sr_head s < PS_ACT_RING_CAP \<and> sr_count s \<le> PS_ACT_RING_CAP \<and> list_all slot_ok (sub_slots s)"

definition sub_pop :: "subring \<Rightarrow> subring" where
  "sub_pop s = s\<lparr>sr_head := (sr_head s + 1) mod PS_ACT_RING_CAP, sr_count := sr_count s - 1\<rparr>"

definition push_at :: "subring \<Rightarrow> nat" where
  \<comment> \<open>the slot that the next item is written to\<close>
  "push_at s = (sr_head s + sr_count s) mod PS_ACT_RING_CAP"

lemma sub_push_alt:
  assumes "sub_inv s"
  shows "sub_push s x =
    s\<lparr>sr_buf := (sr_buf s)[push_at s := slot_write x (sr_buf s ! push_at s)],
      sr_len := (sr_len s)[push_at s := length x],
      sr_head := (if sr_count s = PS_ACT_RING_CAP then (sr_head s + 1) mod PS_ACT_RING_CAP else sr_head s),
      sr_count := (if sr_count s = PS_ACT_RING_CAP then PS_ACT_RING_CAP else sr_count s + 1)\<rparr>"
proof -
  have "sr_head s < 256" using assms by (simp add: sub_inv_def)
  then have "((sr_head s + 1) mod 256 + 256 - 1) mod 256 = (sr_head s + 256) mod 256"
    by (cases "sr_head s = 255") simp_all
  then show ?thesis by (cases "sr_count s = PS_ACT_RING_CAP") (simp_all add: sub_push_def push_at_def Let_def)
qed

lemma sub_push_slots:
  assumes "sub_inv s"
  shows "sub_slots (sub_push s x) = (if sr_count s = PS_ACT_RING_CAP then tl (sub_slots s) else sub_slots s) @
    [(slot_write x (sr_buf s ! push_at s), length x)]"
proof -
  let ?z = "zip (sr_buf s) (sr_len s)" and ?e = "(slot_write x (sr_buf s ! push_at s), length x)"
  have z: "length ?z = PS_ACT_RING_CAP" and h: "sr_head s < PS_ACT_RING_CAP" and c: "sr_count s \<le> PS_ACT_RING_CAP"
    using assms by (simp_all add: sub_inv_def)
  have upd: "zip (sr_buf (sub_push s x)) (sr_len (sub_push s x)) = ?z[push_at s := ?e]"
    by (simp add: sub_push_alt [OF assms] zip_update)
  show ?thesis
  proof (cases "sr_count s = PS_ACT_RING_CAP")
    case True
    then have "push_at s = sr_head s" using h by (simp add: push_at_def)
    with True upd ring_push_full [of "sr_head s" ?z ?e, unfolded z, OF h] show ?thesis
      by (simp add: sub_slots_def sub_push_alt [OF assms] zip_update)
  next
    case False
    with c have "sr_count s < length ?z" using z by linarith
    from ring_push [OF this, of "sr_head s" ?e] upd z False show ?thesis
      by (simp add: sub_slots_def sub_push_alt [OF assms] zip_update push_at_def)
  qed
qed

lemma sub_pop_slots: "sub_inv s \<Longrightarrow> sub_slots (sub_pop s) = tl (sub_slots s)"
  using ring_pop [of "sr_head s" "zip (sr_buf s) (sr_len s)" "sr_count s"]
  by (simp add: sub_slots_def sub_pop_def sub_inv_def)

lemma list_all_tl: "list_all P xs \<Longrightarrow> list_all P (tl xs)"
  by (cases xs) auto

lemma sub_push_inv:
  assumes "sub_inv s"
  shows "sub_inv (sub_push s x)"
proof -
  have "list_all slot_ok (sub_slots s)" using assms by (simp only: sub_inv_def)
  then have "list_all slot_ok (sub_slots (sub_push s x))"
    using list_all_tl [of slot_ok "sub_slots s"] by (simp add: sub_push_slots [OF assms])
  moreover have "length (sr_buf s) = PS_ACT_RING_CAP" "length (sr_len s) = PS_ACT_RING_CAP" "sr_head s < PS_ACT_RING_CAP"
    "sr_count s \<le> PS_ACT_RING_CAP" using assms by (simp_all only: sub_inv_def)
  ultimately show ?thesis unfolding sub_inv_def by (simp add: sub_push_alt [OF assms])
qed

interpretation subq: bounded_queue sub_push sub_pop sub_items sub_inv PS_ACT_RING_CAP
proof
  fix s x
  assume inv: "sub_inv s"
  show "length (sub_items s) \<le> PS_ACT_RING_CAP" using inv by (simp add: sub_items_def sub_slots_def sub_inv_def)
  show "sub_inv (sub_push s x)" by (rule sub_push_inv [OF inv])
  show "sub_items (sub_push s x) = (if length (sub_items s) = PS_ACT_RING_CAP then tl (sub_items s) else sub_items s) @ [x]"
    using sub_push_slots [OF inv, of x] by (simp add: sub_items_def map_tl) (simp add: sub_slots_def)
next
  fix s
  assume inv: "sub_inv s"
  show "sub_items (sub_pop s) = tl (sub_items s)" using sub_pop_slots [OF inv] by (simp add: sub_items_def map_tl)
  show "sub_inv (sub_pop s)"
    using inv sub_pop_slots [OF inv] list_all_tl [of slot_ok "sub_slots s"] by (auto simp: sub_inv_def sub_pop_def)
qed simp

definition obs_slots :: "obs_queue \<Rightarrow> (string \<times> nat) list" where
  "obs_slots q = ring_items (g_head q) (g_count q) (map (\<lambda>it. (oi_data it, oi_len it)) (g_ring q))"

definition obs_items :: "obs_queue \<Rightarrow> string list" where
  "obs_items q = map slot_item (obs_slots q)"

definition obs_inv :: "obs_queue \<Rightarrow> bool" where
  "obs_inv q \<longleftrightarrow> length (g_ring q) = PS_OBS_QUEUE_CAP \<and> g_head q < PS_OBS_QUEUE_CAP \<and> g_count q \<le> PS_OBS_QUEUE_CAP \<and>
     g_tail q = (g_head q + g_count q) mod PS_OBS_QUEUE_CAP \<and> list_all slot_ok (obs_slots q)"

definition obs_pop :: "obs_queue \<Rightarrow> obs_queue" where
  "obs_pop q = q\<lparr>g_head := (g_head q + 1) mod PS_OBS_QUEUE_CAP, g_count := g_count q - 1\<rparr>"

definition obs_put :: "obs_queue \<Rightarrow> string \<Rightarrow> obs_queue" where
  \<comment> \<open>a push into a queue that has room\<close>
  "obs_put q json = q\<lparr>g_ring := (g_ring q)[g_tail q := \<lparr>oi_data = slot_write json (oi_data (g_ring q ! g_tail q)), oi_len = length json\<rparr>],
     g_tail := (g_tail q + 1) mod PS_OBS_QUEUE_CAP, g_count := g_count q + 1\<rparr>"

lemma obs_push_alt: "obs_push q x = obs_put (if g_count q = PS_OBS_QUEUE_CAP then obs_pop q else q) x"
  by (simp add: obs_push_def obs_put_def obs_pop_def Let_def)

lemma obs_pop_slots: "obs_inv q \<Longrightarrow> obs_slots (obs_pop q) = tl (obs_slots q)"
  using ring_pop [of "g_head q" "map (\<lambda>it. (oi_data it, oi_len it)) (g_ring q)" "g_count q"]
  by (simp add: obs_slots_def obs_pop_def obs_inv_def)

lemma obs_pop_inv:
  assumes "obs_inv q" "0 < g_count q"
  shows "obs_inv (obs_pop q)"
proof -
  have "list_all slot_ok (obs_slots q)" using assms(1) by (simp only: obs_inv_def)
  then have "list_all slot_ok (obs_slots (obs_pop q))" using obs_pop_slots [OF assms(1)] list_all_tl by simp
  moreover have "(g_head q + g_count q) mod 256 = ((g_head q + 1) mod 256 + (g_count q - 1)) mod 256"
  proof -
    have "((g_head q + 1) mod 256 + (g_count q - 1)) mod 256 = (g_head q + 1 + (g_count q - 1)) mod 256" by (rule mod_add_left_eq)
    then show ?thesis using assms(2) by simp
  qed
  moreover have "g_count q - 1 \<le> 256" using assms(1) unfolding obs_inv_def by linarith
  ultimately show ?thesis using assms unfolding obs_inv_def by (simp add: obs_pop_def)
qed

lemma obs_put_slots:
  assumes "obs_inv q" "g_count q < PS_OBS_QUEUE_CAP"
  shows "obs_slots (obs_put q x) = obs_slots q @ [(slot_write x (oi_data (g_ring q ! g_tail q)), length x)]"
proof -
  let ?z = "map (\<lambda>it. (oi_data it, oi_len it)) (g_ring q)"
  have z: "length ?z = PS_OBS_QUEUE_CAP" using assms(1) by (simp add: obs_inv_def)
  have "g_tail q = (g_head q + g_count q) mod PS_OBS_QUEUE_CAP" using assms(1) by (simp add: obs_inv_def)
  with ring_push [of "g_count q" ?z "g_head q", unfolded z, OF assms(2)] show ?thesis
    by (simp add: obs_slots_def obs_put_def map_update)
qed

lemma obs_put_inv:
  assumes "obs_inv q" "g_count q < PS_OBS_QUEUE_CAP"
  shows "obs_inv (obs_put q x)"
proof -
  have "list_all slot_ok (obs_slots (obs_put q x))"
    using assms(1) by (simp add: obs_put_slots [OF assms] obs_inv_def)
  moreover have "(Suc ((g_head q + g_count q) mod 256)) mod 256 = Suc (g_head q + g_count q) mod 256"
    by (rule mod_Suc_eq)
  ultimately show ?thesis using assms by (simp add: obs_inv_def obs_put_def)
qed

interpretation obsq: bounded_queue obs_push obs_pop obs_items obs_inv PS_OBS_QUEUE_CAP
proof
  fix q x
  assume inv: "obs_inv q"
  then have c: "g_count q \<le> PS_OBS_QUEUE_CAP" by (simp only: obs_inv_def)
  have inv': "obs_inv (if g_count q = PS_OBS_QUEUE_CAP then obs_pop q else q)" using inv obs_pop_inv [OF inv] by simp
  have room: "g_count (if g_count q = PS_OBS_QUEUE_CAP then obs_pop q else q) < PS_OBS_QUEUE_CAP"
    using c by (simp add: obs_pop_def)
  show "length (obs_items q) \<le> PS_OBS_QUEUE_CAP" using c by (simp add: obs_items_def obs_slots_def)
  show "obs_inv (obs_push q x)" unfolding obs_push_alt by (rule obs_put_inv [OF inv' room])
  have len: "length (obs_items q) = g_count q" by (simp add: obs_items_def obs_slots_def)
  show "obs_items (obs_push q x) = (if length (obs_items q) = PS_OBS_QUEUE_CAP then tl (obs_items q) else obs_items q) @ [x]"
    unfolding obs_push_alt obs_items_def [of "obs_put _ _"] obs_put_slots [OF inv' room] len
    using obs_pop_slots [OF inv] by (simp add: obs_items_def map_tl)
next
  fix q
  assume inv: "obs_inv q" and ne: "obs_items q \<noteq> []"
  then have "0 < g_count q" by (auto simp: obs_items_def obs_slots_def ring_items_def)
  then show "obs_inv (obs_pop q)" by (rule obs_pop_inv [OF inv])
  show "obs_items (obs_pop q) = tl (obs_items q)" using obs_pop_slots [OF inv] by (simp add: obs_items_def map_tl)
qed simp

section \<open>Draining\<close>

lemma ring_items_hd:
  "0 < c \<Longrightarrow> h < length xs \<Longrightarrow> ring_items h c xs = xs ! h # tl (ring_items h c xs)"
  by (cases c) (simp_all add: ring_items_def upt_conv_Cons del: upt_Suc)

lemma sub_drain_items:
  assumes "sub_inv s"
  shows "sub_inv (snd (sub_drain n m s)) \<and> fst (sub_drain n m s) = map (\<lambda>x. x @ [CHR 0x00]) (take (nat (m - n)) (sub_items s)) \<and>
    sub_items (snd (sub_drain n m s)) = drop (nat (m - n)) (sub_items s)"
  using assms
proof (induction n m s rule: sub_drain.induct)
  case (1 n m s)
  show ?case
  proof (cases "n < m \<and> sr_count s > 0")
    case True
    let ?b = "(sr_buf s ! sr_head s, sr_len s ! sr_head s)"
    have hd: "sub_slots s = ?b # tl (sub_slots s)"
      using ring_items_hd [of "sr_count s" "sr_head s" "zip (sr_buf s) (sr_len s)"] True 1(2)
      by (simp add: sub_slots_def sub_inv_def)
    have ok: "slot_ok ?b" using 1(2) unfolding sub_inv_def by (subst (asm) hd) simp
    have items: "sub_items s = slot_item ?b # sub_items (sub_pop s)"
      unfolding sub_items_def sub_pop_slots [OF 1(2)] by (subst hd) simp
    have inv: "sub_inv (sub_pop s)" using subq.pop_inv [OF 1(2)] items by simp
    have n: "nat (m - n) = Suc (nat (m - (n + 1)))" using True by auto
    have "sub_drain n m s = ((slot_item ?b @ [CHR 0x00]) # fst (sub_drain (n + 1) m (sub_pop s)), snd (sub_drain (n + 1) m (sub_pop s)))"
      using True ok by (subst sub_drain.simps) (simp add: sub_pop_def slot_ok_def slot_item_def split: prod.split)
    with 1(1) [OF True refl, folded sub_pop_def, OF inv] items show ?thesis by (simp add: n)
  next
    case False
    then have "nat (m - n) = 0 \<or> sub_items s = []" by (auto simp: sub_items_def sub_slots_def ring_items_def)
    moreover have "sub_drain n m s = ([], s)" using False by (subst sub_drain.simps) auto
    ultimately show ?thesis using 1(2) by auto
  qed
qed

lemma obs_drain_items:
  assumes "obs_inv q"
  shows "obs_inv (snd (obs_drain n m q)) \<and> fst (obs_drain n m q) = map (\<lambda>x. x @ [CHR 0x00]) (take (nat (m - n)) (obs_items q)) \<and>
    obs_items (snd (obs_drain n m q)) = drop (nat (m - n)) (obs_items q)"
  using assms
proof (induction n m q rule: obs_drain.induct)
  case (1 n m q)
  show ?case
  proof (cases "n < m \<and> g_count q > 0")
    case True
    let ?b = "(oi_data (g_ring q ! g_head q), oi_len (g_ring q ! g_head q))"
    have hd: "obs_slots q = ?b # tl (obs_slots q)"
      using ring_items_hd [of "g_count q" "g_head q" "map (\<lambda>it. (oi_data it, oi_len it)) (g_ring q)"] True 1(2)
      by (simp add: obs_slots_def obs_inv_def)
    have ok: "slot_ok ?b" using 1(2) unfolding obs_inv_def by (subst (asm) hd) simp
    have items: "obs_items q = slot_item ?b # obs_items (obs_pop q)"
      unfolding obs_items_def obs_pop_slots [OF 1(2)] by (subst hd) simp
    have inv: "obs_inv (obs_pop q)" using obsq.pop_inv [OF 1(2)] items by simp
    have n: "nat (m - n) = Suc (nat (m - (n + 1)))" using True by auto
    have "obs_drain n m q = ((slot_item ?b @ [CHR 0x00]) # fst (obs_drain (n + 1) m (obs_pop q)), snd (obs_drain (n + 1) m (obs_pop q)))"
      using True ok by (subst obs_drain.simps) (simp add: Let_def obs_pop_def slot_ok_def slot_item_def split: prod.split)
    with 1(1) [OF True refl, folded obs_pop_def, OF inv] items show ?thesis by (simp add: n)
  next
    case False
    then have "nat (m - n) = 0 \<or> obs_items q = []" by (auto simp: obs_items_def obs_slots_def ring_items_def)
    moreover have "obs_drain n m q = ([], q)" using False by (subst obs_drain.simps) auto
    ultimately show ?thesis using 1(2) by auto
  qed
qed

lemma obs_init_inv: "obs_inv (ps_obs_queue_init obs_memory) \<and> obs_items (ps_obs_queue_init obs_memory) = []"
  by (simp add: ps_obs_queue_init_def obs_memory_def obs_inv_def obs_items_def obs_slots_def ring_items_def)

section \<open>The activity ring as a family of queues\<close>

datatype ring_op = Register | Push string | Drain int int | Count int

datatype ring_obs = Got_id int | Pushed | Items "string list" | Number int

fun ring_step :: "act_ring \<Rightarrow> ring_op \<Rightarrow> ring_obs \<times> act_ring" where
  "ring_step r Register = (let (i, r) = ps_act_ring_register r in (Got_id i, r))"
| "ring_step r (Push json) = (Pushed, ps_act_ring_push r json)"
| "ring_step r (Drain c m) = (let (items, r) = ps_act_ring_drain r c m in (Items items, r))"
| "ring_step r (Count c) = (Number (ps_act_ring_count r c), r)"

fun run_ops :: "('s \<Rightarrow> ring_op \<Rightarrow> ring_obs \<times> 's) \<Rightarrow> 's \<Rightarrow> ring_op list \<Rightarrow> ring_obs list" where
  "run_ops step s [] = []"
| "run_ops step s (p # ps) = (let (b, s') = step s p in b # run_ops step s' ps)"

record fan_spec =
  sp_queues :: "string list list"
  sp_n :: nat

definition fan_init :: fan_spec where
  "fan_init = \<lparr>sp_queues = replicate 8 [], sp_n = 0\<rparr>"

fun fan_step :: "fan_spec \<Rightarrow> ring_op \<Rightarrow> ring_obs \<times> fan_spec" where
  \<comment> \<open>specification: one list of pending items per consumer\<close>
  "fan_step a Register = (if sp_n a < 8 then (Got_id (int (sp_n a)), a\<lparr>sp_n := sp_n a + 1\<rparr>) else (Got_id (- 1), a))"
| "fan_step a (Push x) =
     (Pushed, if x = [] \<or> length x \<ge> 8192 then a
              else a\<lparr>sp_queues := map (\<lambda>q. lastn 256 (q @ [x])) (take (sp_n a) (sp_queues a)) @ drop (sp_n a) (sp_queues a)\<rparr>)"
| "fan_step a (Drain c m) =
     (if c < 0 \<or> c \<ge> 8 then (Items [], a)
      else (Items (map (\<lambda>x. x @ [CHR 0x00]) (take (nat m) (sp_queues a ! nat c))),
            a\<lparr>sp_queues := (sp_queues a)[nat c := drop (nat m) (sp_queues a ! nat c)]\<rparr>))"
| "fan_step a (Count c) = (Number (if c < 0 \<or> c \<ge> 8 then 0 else int (length (sp_queues a ! nat c))), a)"

definition ring_abs :: "act_ring \<Rightarrow> fan_spec" where
  "ring_abs r = \<lparr>sp_queues = map sub_items (g_sub r), sp_n = g_n r\<rparr>"

definition ring_inv :: "act_ring \<Rightarrow> bool" where
  "ring_inv r \<longleftrightarrow> length (g_sub r) = PS_ACT_MAX_CONSUMERS \<and> g_n r \<le> PS_ACT_MAX_CONSUMERS \<and> list_all sub_inv (g_sub r)"

lemma push_all_items:
  "list_all sub_inv ss \<Longrightarrow> list_all sub_inv (push_all n x ss) \<and> length (push_all n x ss) = length ss \<and>
     map sub_items (push_all n x ss) =
       map (\<lambda>q. lastn 256 (q @ [x])) (take n (map sub_items ss)) @ drop n (map sub_items ss)"
proof (induction n x ss rule: push_all.induct)
  case (2 n x s ss)
  then show ?case using subq.push_inv [of s x] subq.push_lastn [of s x] by (cases n) auto
qed simp

lemma ring_init_inv: "ring_inv ps_act_ring_init \<and> ring_abs ps_act_ring_init = fan_init"
proof -
  have "sub_inv zero_subring" "sub_items zero_subring = []"
    by (simp_all add: zero_subring_def sub_inv_def sub_slots_def sub_items_def ring_items_def)
  then show ?thesis by (simp add: ring_inv_def ring_abs_def fan_init_def ps_act_ring_init_def list_all_length)
qed

lemma ring_step_refines:
  assumes "ring_inv r"
  shows "ring_inv (snd (ring_step r p)) \<and> fst (ring_step r p) = fst (fan_step (ring_abs r) p) \<and>
    ring_abs (snd (ring_step r p)) = snd (fan_step (ring_abs r) p)"
proof (cases p)
  case Register
  with assms show ?thesis by (auto simp: ps_act_ring_register_def ring_inv_def ring_abs_def)
next
  case (Push x)
  have "list_all sub_inv (g_sub r)" using assms by (simp only: ring_inv_def)
  from push_all_items [OF this, of "g_n r" x] assms Push show ?thesis
    by (simp add: ps_act_ring_push_def ring_inv_def ring_abs_def)
next
  case (Drain c m)
  show ?thesis
  proof (cases "c < 0 \<or> c \<ge> 8")
    case True
    with Drain assms show ?thesis by (auto simp: ps_act_ring_drain_def)
  next
    case False
    then have n: "nat c < length (g_sub r)" using assms by (auto simp: ring_inv_def)
    then have "sub_inv (g_sub r ! nat c)" using assms by (simp add: ring_inv_def list_all_length)
    from sub_drain_items [OF this, of 0 m] n assms False Drain show ?thesis
      by (auto simp: ps_act_ring_drain_def ring_inv_def ring_abs_def list_all_length nth_list_update map_update split: prod.splits)
  qed
next
  case (Count c)
  have "0 \<le> c \<Longrightarrow> c < 8 \<Longrightarrow> nat c < length (g_sub r)" using assms by (auto simp: ring_inv_def)
  with Count assms show ?thesis by (auto simp: ps_act_ring_count_def ring_abs_def sub_items_def sub_slots_def)
qed

text \<open>What a batch of pushes and one drain do to the queue of a consumer.\<close>

definition pushable :: "string \<Rightarrow> bool" where
  "pushable x \<longleftrightarrow> x \<noteq> [] \<and> length x < PS_ACT_ITEM_MAX"

definition queue_of :: "act_ring \<Rightarrow> nat \<Rightarrow> string list" where
  "queue_of r c = sub_items (g_sub r ! c)"

lemma queue_of_abs: "ring_inv r \<Longrightarrow> c < 8 \<Longrightarrow> queue_of r c = sp_queues (ring_abs r) ! c"
  by (simp add: queue_of_def ring_abs_def ring_inv_def)

lemma pushes_queue:
  assumes "ring_inv r" "list_all pushable rs"
  shows "ring_inv (foldl ps_act_ring_push r rs) \<and> g_n (foldl ps_act_ring_push r rs) = g_n r \<and>
    (\<forall>c < g_n r. queue_of (foldl ps_act_ring_push r rs) c = (if rs = [] then queue_of r c else lastn 256 (queue_of r c @ rs)))"
  using assms
proof (induction rs rule: rev_induct)
  case (snoc x rs)
  let ?r = "foldl ps_act_ring_push r rs"
  have ih: "ring_inv ?r" "g_n ?r = g_n r"
    "\<And>c. c < g_n r \<Longrightarrow> queue_of ?r c = (if rs = [] then queue_of r c else lastn 256 (queue_of r c @ rs))"
    using snoc by simp_all
  have n: "g_n r \<le> 8" using snoc.prems(1) by (simp add: ring_inv_def)
  have x: "x \<noteq> []" "length x < 8192" using snoc.prems(2) by (simp_all add: pushable_def)
  note step = ring_step_refines [OF ih(1), of "Push x"]
  have inv: "ring_inv (ps_act_ring_push ?r x)" using step by simp
  have abs: "ring_abs (ps_act_ring_push ?r x) = snd (fan_step (ring_abs ?r) (Push x))" using step by simp
  have same: "g_n (ps_act_ring_push ?r x) = g_n r" using ih(2) by (simp add: ps_act_ring_push_def)
  have sp_n: "sp_n (ring_abs ?r) = g_n r" using ih(2) by (simp add: ring_abs_def)
  have len: "length (sp_queues (ring_abs ?r)) = 8" using ih(1) by (simp add: ring_abs_def ring_inv_def)
  have "queue_of (ps_act_ring_push ?r x) c = lastn 256 (queue_of ?r c @ [x])" if "c < g_n r" for c
    using that n x len ih(2) queue_of_abs [OF inv, of c] queue_of_abs [OF ih(1), of c]
    unfolding abs by (simp add: sp_n nth_append)
  with ih(3) have "queue_of (ps_act_ring_push ?r x) c = lastn 256 (queue_of r c @ rs @ [x])" if "c < g_n r" for c
    using that lastn_lastn_app [of 256 "queue_of r c @ rs" "[x]"] by simp
  with inv same show ?case by simp
qed simp

lemma drain_queue:
  assumes "ring_inv r" "c < 8"
  shows "fst (ps_act_ring_drain r (int c) m) = map (\<lambda>x. x @ [CHR 0x00]) (take (nat m) (queue_of r c)) \<and>
    ring_inv (snd (ps_act_ring_drain r (int c) m)) \<and> g_n (snd (ps_act_ring_drain r (int c) m)) = g_n r \<and>
    (\<forall>d < 8. d \<noteq> c \<longrightarrow> queue_of (snd (ps_act_ring_drain r (int c) m)) d = queue_of r d)"
proof -
  obtain items r' where d: "ps_act_ring_drain r (int c) m = (items, r')" by fastforce
  note step = ring_step_refines [OF assms(1), of "Drain (int c) m"]
  have inv: "ring_inv r'" using step d by simp
  have abs: "ring_abs r' = snd (fan_step (ring_abs r) (Drain (int c) m))" "Items items = fst (fan_step (ring_abs r) (Drain (int c) m))"
    using step d by simp_all
  have "sp_n (ring_abs r') = sp_n (ring_abs r)" using abs(1) assms(2) by simp
  then have "g_n r' = g_n r" by (simp add: ring_abs_def)
  moreover have "queue_of r' e = queue_of r e" if "e < 8" "e \<noteq> c" for e
    using that assms queue_of_abs [OF inv, of e] queue_of_abs [OF assms(1), of e] abs(1) by simp
  ultimately show ?thesis using abs(2) assms d inv queue_of_abs [OF assms(1), of c] by simp
qed

section \<open>Properties\<close>

lemma run_refines: "ring_inv r \<Longrightarrow> run_ops ring_step r ps = run_ops fan_step (ring_abs r) ps"
proof (induction ps arbitrary: r)
  case (Cons p ps)
  then show ?case using ring_step_refines [of r p] by (simp split: prod.split) (metis fst_conv snd_conv)
qed simp

text \<open>C22. The activity ring, with its arrays of slots and its indices modulo the capacity, is indistinguishable from a family of
  lists: for every sequence of registrations, pushes, drains and counts after \<open>ps_act_ring_init\<close> (each of them atomic under the
  mutex), every call returns what it returns when each consumer has its own queue that keeps the last 256 lines pushed since it
  registered and hands them out, byte for byte, in the order they were pushed.\<close>

theorem act_ring_refines_queues:
  "run_ops ring_step ps_act_ring_init ops = run_ops fan_step fan_init ops"
  using run_refines ring_init_inv by metis

end
