(* ===== verification/Activity.thy ===== *)
theory Activity
  imports Json_Extract Paths
begin

text \<open>
  Records of file activity: what a record holds and its JSON form (\<open>activity_record.c\<close>), and the
  provenance triggers and the observation that is built from a record (\<open>provenance.c\<close>).

  As in \<open>Json_Extract\<close>, a buffer that a failed extraction leaves without a terminator reads as the value
  of a parameter, here per array index and key.
\<close>

unbundle bit_operations_syntax

section \<open>The record\<close>

abbreviation PS_ACT_MAX_ANC :: nat where "PS_ACT_MAX_ANC \<equiv> 16"
abbreviation PS_ACT_MAX_SOCK :: nat where "PS_ACT_MAX_SOCK \<equiv> 32"

record ps_act_proc =
  a_pid :: int
  a_ppid :: int
  a_uid :: int
  a_sid :: int
  start_time :: "64 word"
  a_comm :: string
  a_exe :: string
  a_cmdline :: string
  a_cgroup :: string
  mac_label :: string
  mac_mode :: string

record ps_act_ancestor =
  anc_pid :: int
  anc_depth :: int
  anc_start :: "64 word"
  anc_comm :: string

record ps_act_socket =
  owner_pid :: int
  s_depth :: int
  owner_comm :: string
  s_proto :: string
  s_laddr :: string
  s_raddr :: string
  s_state :: string

record ps_activity =
  a_ts :: string
  a_event :: string
  a_path :: string
  a_partial :: bool
  prov_trigger :: string
  a_proc :: ps_act_proc
  a_anc :: "ps_act_ancestor list"
  a_sock :: "ps_act_socket list"

definition zero_proc :: ps_act_proc where
  "zero_proc = \<lparr>a_pid = 0, a_ppid = 0, a_uid = 0, a_sid = 0, start_time = 0, a_comm = [], a_exe = [], a_cmdline = [],
     a_cgroup = [], mac_label = [], mac_mode = []\<rparr>"

section \<open>Writing a record\<close>

definition wr_ancestor :: "ps_json \<Rightarrow> ps_act_ancestor \<Rightarrow> ps_json" where
  "wr_ancestor j x =
     (let j = ps_json_object_begin j;
          j = ps_json_key_int j ''pid'' (anc_pid x);
          j = ps_json_key_string j ''comm'' (anc_comm x);
          j = ps_json_key_int j ''depth'' (anc_depth x);
          j = ps_json_key_int j ''start_ticks'' (sint (anc_start x))
      in ps_json_object_end j)"

definition wr_socket :: "ps_json \<Rightarrow> ps_act_socket \<Rightarrow> ps_json" where
  "wr_socket j x =
     (let j = ps_json_object_begin j;
          j = ps_json_key_int j ''owner_pid'' (owner_pid x);
          j = ps_json_key_string j ''owner_comm'' (owner_comm x);
          j = ps_json_key_int j ''depth'' (s_depth x);
          j = ps_json_key_string j ''proto'' (s_proto x);
          j = ps_json_key_string j ''laddr'' (s_laddr x);
          j = ps_json_key_string j ''raddr'' (s_raddr x);
          j = ps_json_key_string j ''state'' (s_state x)
      in ps_json_object_end j)"

definition ps_activity_to_json :: "ps_activity \<Rightarrow> nat \<Rightarrow> string option" where
  "ps_activity_to_json a cap =
     (let j = ps_json_object_begin (ps_json_init cap);
          j = ps_json_key_int j ''v'' 1;
          j = ps_json_key_string j ''ts'' (a_ts a);
          j = ps_json_key_string j ''event'' (a_event a);
          j = ps_json_key_string j ''path'' (a_path a);
          j = ps_json_key_bool j ''partial'' (a_partial a);
          j = (if prov_trigger a \<noteq> [] then ps_json_key_string j ''prov_trigger'' (prov_trigger a) else j);
          p = a_proc a;
          j = ps_json_key_object_begin j ''process'';
          j = ps_json_key_int j ''pid'' (a_pid p);
          j = ps_json_key_int j ''ppid'' (a_ppid p);
          j = ps_json_key_int j ''uid'' (a_uid p);
          j = ps_json_key_int j ''sid'' (a_sid p);
          j = ps_json_key_int j ''start_ticks'' (sint (start_time p));
          j = ps_json_key_string j ''comm'' (a_comm p);
          j = ps_json_key_string j ''exe'' (a_exe p);
          j = ps_json_key_string j ''cmdline'' (a_cmdline p);
          j = ps_json_key_string j ''cgroup'' (a_cgroup p);
          j = ps_json_key_object_begin j ''mac'';
          j = ps_json_key_string j ''label'' (mac_label p);
          j = ps_json_key_string j ''mode'' (mac_mode p);
          j = ps_json_object_end j;
          j = ps_json_object_end j;
          j = ps_json_array_begin j ''ancestry'';
          j = foldl wr_ancestor j (a_anc a);
          j = ps_json_array_end j;
          j = ps_json_array_begin j ''sockets'';
          j = foldl wr_socket j (a_sock a);
          j = ps_json_array_end j;
          j = ps_json_object_end j
      in ps_json_finish j)"

section \<open>Reading a record\<close>

function obj_scan :: "string \<Rightarrow> int \<Rightarrow> bool \<Rightarrow> string" where
  \<comment> \<open>the loop of \<open>next_json_object\<close>: the pointer behind the balanced object\<close>
  "obj_scan [] depth instr = []"
| "obj_scan (ch # s) depth instr =
     (if instr
      then (if ch = CHR 0x5C \<and> s \<noteq> [] then obj_scan (tl s) depth True
            else if ch = CHR 0x22 then obj_scan s depth False
            else obj_scan s depth True)
      else if ch = CHR 0x22 then obj_scan s depth True
      else if ch = CHR ''{'' then obj_scan s (depth + 1) False
      else if ch = CHR ''}'' then (if depth - 1 = 0 then s else obj_scan s (depth - 1) False)
      else obj_scan s depth False)"
  by pat_completeness auto
termination by (relation "measure (\<lambda>(s, _, _). length s)") auto

definition next_json_object :: "string \<Rightarrow> nat \<Rightarrow> (string \<times> string) option" where
  \<comment> \<open>the object and the pointer behind it\<close>
  "next_json_object p cap =
     (let s = dropWhile (\<lambda>c. c \<noteq> CHR ''{'' \<and> c \<noteq> CHR '']'') p
      in if cur s \<noteq> CHR ''{'' then None
         else let e = obj_scan s 0 False; len = ptr_off e s
              in if len = 0 \<or> len \<ge> cap then None else Some (take len s, e))"

definition int_or :: "int \<Rightarrow> string \<Rightarrow> string \<Rightarrow> int" where
  \<comment> \<open>\<open>if (ps_json_extract_int(json, key, &iv) == 0) field = (int)iv;\<close>\<close>
  "int_or old json key = (case ps_json_extract_int json key of Some iv \<Rightarrow> cast_int iv | None \<Rightarrow> old)"

definition u64_or :: "64 word \<Rightarrow> string \<Rightarrow> string \<Rightarrow> 64 word" where
  "u64_or old json key = (case ps_json_extract_int json key of Some iv \<Rightarrow> word_of_int iv | None \<Rightarrow> old)"

fun anc_scan :: "(nat \<Rightarrow> string \<Rightarrow> string) \<Rightarrow> nat \<Rightarrow> string \<Rightarrow> ps_act_ancestor list" where
  \<comment> \<open>the loop over the array of ancestors; \<open>n\<close> free places\<close>
  "anc_scan stale 0 p = []"
| "anc_scan stale (Suc n) p =
     (case next_json_object p 256 of
        None \<Rightarrow> []
      | Some (obj, p') \<Rightarrow>
          \<lparr>anc_pid = int_or 0 obj ''pid'', anc_depth = int_or 0 obj ''depth'', anc_start = u64_or 0 obj ''start_ticks'',
           anc_comm = extract_into (stale n) obj ''comm'' 64\<rparr> # anc_scan stale n p')"

fun sock_scan :: "(nat \<Rightarrow> string \<Rightarrow> string) \<Rightarrow> nat \<Rightarrow> string \<Rightarrow> ps_act_socket list" where
  "sock_scan stale 0 p = []"
| "sock_scan stale (Suc n) p =
     (case next_json_object p 512 of
        None \<Rightarrow> []
      | Some (obj, p') \<Rightarrow>
          \<lparr>owner_pid = int_or 0 obj ''owner_pid'', s_depth = int_or 0 obj ''depth'',
           owner_comm = extract_into (stale n) obj ''owner_comm'' 64, s_proto = extract_into (stale n) obj ''proto'' 4,
           s_laddr = extract_into (stale n) obj ''laddr'' 64, s_raddr = extract_into (stale n) obj ''raddr'' 64,
           s_state = extract_into (stale n) obj ''state'' 16\<rparr> # sock_scan stale n p')"

definition array_start :: "string \<Rightarrow> string \<Rightarrow> string" where
  \<comment> \<open>the first bracket behind the quoted name; empty when there is none\<close>
  "array_start json name =
     (case strstr json (CHR 0x22 # name @ [CHR 0x22]) of
        None \<Rightarrow> [] | Some q \<Rightarrow> (case strchr q (CHR ''['') of None \<Rightarrow> [] | Some p \<Rightarrow> p))"

definition ps_activity_from_json :: "(nat \<Rightarrow> string \<Rightarrow> string) \<Rightarrow> string \<Rightarrow> ps_activity option" where
  "ps_activity_from_json stale json =
     (if cur json \<noteq> CHR ''{'' then None
      else case extract_cstr json ''ts'' 24 of
             None \<Rightarrow> None
           | Some ts \<Rightarrow>
               Some \<lparr>a_ts = ts, a_event = extract_into (stale 99) json ''event'' 8,
                     a_path = extract_into (stale 99) json ''path'' 512, a_partial = False,
                     prov_trigger = extract_into (stale 99) json ''prov_trigger'' 24,
                     a_proc = \<lparr>a_pid = int_or 0 json ''pid'', a_ppid = int_or 0 json ''ppid'', a_uid = int_or 0 json ''uid'',
                       a_sid = int_or 0 json ''sid'', start_time = u64_or 0 json ''start_ticks'',
                       a_comm = extract_into (stale 99) json ''comm'' 64, a_exe = extract_into (stale 99) json ''exe'' 256,
                       a_cmdline = extract_into (stale 99) json ''cmdline'' 512, a_cgroup = extract_into (stale 99) json ''cgroup'' 256,
                       mac_label = extract_into (stale 99) json ''label'' 128, mac_mode = extract_into (stale 99) json ''mode'' 32\<rparr>,
                     a_anc = anc_scan stale PS_ACT_MAX_ANC (array_start json ''ancestry''),
                     a_sock = sock_scan stale PS_ACT_MAX_SOCK (array_start json ''sockets'')\<rparr>)"

section \<open>Provenance\<close>

record ps_prov_cfg =
  pv_enabled :: bool
  transient_paths :: string
  sensitive_paths :: string

definition trim_slash :: "string \<Rightarrow> nat \<Rightarrow> nat" where
  \<comment> \<open>\<open>while (len > 0 && p[len - 1] == '/') len--\<close>\<close>
  "trim_slash p len = length (rev (dropWhile (\<lambda>c. c = CHR ''/'') (rev (take len p))))"

function path_in_set :: "string \<Rightarrow> string \<Rightarrow> bool" where
  "path_in_set path p =
     (if p = [] then False
      else let comma = strchr p (CHR '','');
               len = trim_slash p (case comma of Some q \<Rightarrow> ptr_off q p | None \<Rightarrow> length p)
           in if len > 0 \<and> strncmp_eq path p len \<and> (char_at path len = NUL \<or> char_at path len = CHR ''/'') then True
              else case comma of None \<Rightarrow> False | Some q \<Rightarrow> path_in_set path (drop 1 q))"
  by pat_completeness auto
termination
  by (relation "measure (\<lambda>(_, p). length p)") (auto dest!: strchr_after_shorter)

declare path_in_set.simps [simp del]

definition ps_provenance_classify :: "string \<Rightarrow> string \<Rightarrow> 32 word \<Rightarrow> ps_prov_cfg \<Rightarrow> string" where
  \<comment> \<open>\<open>0o111\<close>: the three execute bits\<close>
  "ps_provenance_classify event path mode cfg =
     (if \<not> pv_enabled cfg then []
      else if event = ''write''
      then (if path_in_set path (sensitive_paths cfg) then ''write_sensitive_path''
            else if mode AND 73 \<noteq> 0 \<and> path_in_set path (transient_paths cfg) then ''write_executable''
            else [])
      else if event = ''exec''
      then (if path_in_set path (transient_paths cfg) then ''exec_from_transient'' else [])
      else [])"

definition raddr_ip :: "string \<Rightarrow> nat \<Rightarrow> string" where
  "raddr_ip raddr cap =
     (let len = (case strrchr raddr (CHR '':'') of Some q \<Rightarrow> ptr_off q raddr | None \<Rightarrow> length raddr)
      in take (if len \<ge> cap then cap - 1 else len) raddr)"

definition prov_severity :: "string \<Rightarrow> string" where
  "prov_severity trigger =
     (if trigger = ''write_executable'' then ''high'' else if trigger = ''write_sensitive_path'' then ''high'' else ''medium'')"

definition session_socket :: "ps_act_socket \<Rightarrow> bool" where
  "session_socket s = (s_depth s > 0 \<and> s_proto s = ''tcp'' \<and> s_state s = ''ESTABLISHED'')"

definition wr_prov_anc :: "ps_json \<Rightarrow> ps_act_ancestor \<Rightarrow> ps_json" where
  "wr_prov_anc j x =
     (let j = ps_json_object_begin j;
          j = ps_json_key_int j ''pid'' (anc_pid x);
          j = ps_json_key_string j ''comm'' (anc_comm x);
          j = ps_json_key_int j ''start_ticks'' (sint (anc_start x))
      in ps_json_object_end j)"

definition wr_prov_sock :: "ps_json \<Rightarrow> ps_act_socket \<Rightarrow> ps_json" where
  "wr_prov_sock j x =
     (let j = ps_json_object_begin j;
          j = ps_json_key_string j ''proto'' (s_proto x);
          j = ps_json_key_string j ''laddr'' (s_laddr x);
          j = ps_json_key_string j ''raddr'' (s_raddr x);
          j = ps_json_key_string j ''state'' (s_state x);
          j = ps_json_key_int j ''owner_pid'' (owner_pid x)
      in ps_json_object_end j)"

definition ps_provenance_build_record :: "ps_activity \<Rightarrow> string \<Rightarrow> string option \<Rightarrow> nat \<Rightarrow> string option" where
  "ps_provenance_build_record a trigger host cap =
     (let sess = filter session_socket (a_sock a);
          j = ps_json_object_begin (ps_json_init cap);
          j = ps_json_key_string j ''host'' (case host of Some h \<Rightarrow> h | None \<Rightarrow> []);
          j = ps_json_key_string j ''severity'' (prov_severity trigger);
          j = ps_json_key_string j ''confidence'' ''firm'';
          j = ps_json_key_object_begin j ''target'';
          j = ps_json_key_string j ''path'' (a_path a);
          j = ps_json_object_end j;
          j = ps_json_key_string j ''trigger'' trigger;
          j = ps_json_key_string j ''event'' (a_event a);
          p = a_proc a;
          j = ps_json_key_object_begin j ''writer'';
          j = ps_json_key_int j ''pid'' (a_pid p);
          j = ps_json_key_int j ''start_ticks'' (sint (start_time p));
          j = ps_json_key_int j ''uid'' (a_uid p);
          j = ps_json_key_string j ''exe'' (a_exe p);
          j = ps_json_key_string j ''cmdline'' (a_cmdline p);
          j = ps_json_key_string j ''cgroup'' (a_cgroup p);
          j = ps_json_key_string j ''mac_label'' (mac_label p);
          j = ps_json_object_end j;
          j = ps_json_array_begin j ''ancestry'';
          j = foldl wr_prov_anc j (a_anc a);
          j = ps_json_array_end j;
          j = ps_json_array_begin j ''sockets'';
          j = foldl wr_prov_sock j (take 8 (a_sock a));
          j = ps_json_array_end j;
          j = (case sess of
                 [] \<Rightarrow> j
               | s # _ \<Rightarrow> ps_json_key_string (ps_json_key_string j ''session_src_ip'' (raddr_ip (s_raddr s) 64))
                   ''session_src_ip_confidence'' (if length sess = 1 then ''firm'' else ''tentative''));
          j = ps_json_object_end j
      in ps_json_finish j)"

section \<open>Paths in a list of directories\<close>

definition strip_slash :: "string \<Rightarrow> string" where
  "strip_slash e = rev (dropWhile (\<lambda>c. c = CHR ''/'') (rev e))"

definition in_dirs :: "string \<Rightarrow> string \<Rightarrow> bool" where
  \<comment> \<open>specification: the path is one of the comma-separated directories or below one of them\<close>
  "in_dirs path l \<longleftrightarrow> (\<exists>e \<in> set (csv l). strip_slash e \<noteq> [] \<and> below path (strip_slash e))"

lemma strip_slash_prefix: "\<exists>r. e = strip_slash e @ r"
  unfolding strip_slash_def by (metis rev_append rev_rev_ident takeWhile_dropWhile_id)

lemma path_entry:
  assumes "is_cstr path"
  shows "trim_slash (e @ r) (length e) > 0 \<and> strncmp_eq path (e @ r) (trim_slash (e @ r) (length e)) \<and>
      (char_at path (trim_slash (e @ r) (length e)) = NUL \<or> char_at path (trim_slash (e @ r) (length e)) = CHR ''/'') \<longleftrightarrow>
    strip_slash e \<noteq> [] \<and> below path (strip_slash e)"
proof -
  have l: "trim_slash (e @ r) (length e) = length (strip_slash e)" by (simp add: trim_slash_def strip_slash_def)
  obtain q where q: "e = strip_slash e @ q" using strip_slash_prefix by blast
  then have "strncmp_eq path (e @ r) (length (strip_slash e)) \<longleftrightarrow> prefix (strip_slash e) path"
    using strncmp_eq_prefix_append [of path "strip_slash e" "q @ r"] by (metis append_assoc)
  then show ?thesis unfolding l using char_at_prefix_boundary [OF assms] below_prefix [of path "strip_slash e"] by auto
qed

lemma path_in_set_iff: "is_cstr path \<Longrightarrow> path_in_set path l \<longleftrightarrow> in_dirs path l"
proof (induction l rule: length_induct)
  case (1 l)
  show ?case
  proof (cases "l = []")
    case True
    then show ?thesis by (simp add: path_in_set.simps in_dirs_def strip_slash_def)
  next
    case False
    show ?thesis
    proof (cases l rule: csv_cases)
      case one
      with False path_entry [OF 1(2), of l "[]"] show ?thesis
        by (subst path_in_set.simps) (simp add: in_dirs_def Let_def del: strchr_None_iff)
    next
      case (more e r)
      then have "path_in_set path r \<longleftrightarrow> in_dirs path r" using 1 by simp
      with more path_entry [OF 1(2), of e "CHR '','' # r"] show ?thesis
        by (subst path_in_set.simps) (simp add: in_dirs_def Let_def ptr_off_def)
    qed
  qed
qed

section \<open>The documents\<close>

definition anc_doc :: "ps_act_ancestor \<Rightarrow> json" where
  "anc_doc x = JObj [(''pid'', JInt (anc_pid x)), (''comm'', JStr (anc_comm x)), (''depth'', JInt (anc_depth x)),
     (''start_ticks'', JInt (sint (anc_start x)))]"

definition sock_doc :: "ps_act_socket \<Rightarrow> json" where
  "sock_doc x = JObj [(''owner_pid'', JInt (owner_pid x)), (''owner_comm'', JStr (owner_comm x)), (''depth'', JInt (s_depth x)),
     (''proto'', JStr (s_proto x)), (''laddr'', JStr (s_laddr x)), (''raddr'', JStr (s_raddr x)), (''state'', JStr (s_state x))]"

definition proc_doc :: "ps_act_proc \<Rightarrow> json" where
  "proc_doc p = JObj [(''pid'', JInt (a_pid p)), (''ppid'', JInt (a_ppid p)), (''uid'', JInt (a_uid p)), (''sid'', JInt (a_sid p)),
     (''start_ticks'', JInt (sint (start_time p))), (''comm'', JStr (a_comm p)), (''exe'', JStr (a_exe p)),
     (''cmdline'', JStr (a_cmdline p)), (''cgroup'', JStr (a_cgroup p)),
     (''mac'', JObj [(''label'', JStr (mac_label p)), (''mode'', JStr (mac_mode p))])]"

definition act_doc :: "ps_activity \<Rightarrow> json" where
  "act_doc a = JObj ([(''v'', JInt 1), (''ts'', JStr (a_ts a)), (''event'', JStr (a_event a)), (''path'', JStr (a_path a)),
     (''partial'', JBool (a_partial a))] @
     (if prov_trigger a \<noteq> [] then [(''prov_trigger'', JStr (prov_trigger a))] else []) @
     [(''process'', proc_doc (a_proc a)), (''ancestry'', JArr (map anc_doc (a_anc a))), (''sockets'', JArr (map sock_doc (a_sock a)))])"

lemma foldl_wr: "(\<And>j x. wr j x = wr_elem (doc x) j) \<Longrightarrow> foldl wr j xs = foldl (\<lambda>j v. wr_elem v j) j (map doc xs)"
  by (induction xs arbitrary: j) auto

lemma wr_ancestor_doc: "wr_ancestor j x = wr_elem (anc_doc x) j"
  by (simp add: wr_ancestor_def anc_doc_def)

lemma wr_socket_doc: "wr_socket j x = wr_elem (sock_doc x) j"
  by (simp add: wr_socket_def sock_doc_def)

lemma activity_to_json_doc:
  "ps_activity_to_json a cap = (if length (show_json (act_doc a)) < cap then Some (show_json (act_doc a)) else None)"
proof -
  have "ps_activity_to_json a cap = ps_json_finish (wr_elem (act_doc a) (ps_json_init cap))"
    by (simp add: ps_activity_to_json_def act_doc_def proc_doc_def Let_def
        foldl_wr [of wr_ancestor anc_doc, OF wr_ancestor_doc] foldl_wr [of wr_socket sock_doc, OF wr_socket_doc])
  moreover have "writable (anc_doc x)" "writable (sock_doc y)" "writable (proc_doc z)" for x y z
    by (simp_all add: anc_doc_def sock_doc_def proc_doc_def)
  then have "writable (act_doc a)" by (auto simp: act_doc_def anc_doc_def sock_doc_def split: if_splits)
  moreover obtain kvs where "act_doc a = JObj kvs" by (simp add: act_doc_def)
  ultimately show ?thesis by (simp only: finish_document)
qed

definition prov_anc_doc :: "ps_act_ancestor \<Rightarrow> json" where
  "prov_anc_doc x = JObj [(''pid'', JInt (anc_pid x)), (''comm'', JStr (anc_comm x)), (''start_ticks'', JInt (sint (anc_start x)))]"

definition prov_sock_doc :: "ps_act_socket \<Rightarrow> json" where
  "prov_sock_doc x = JObj [(''proto'', JStr (s_proto x)), (''laddr'', JStr (s_laddr x)), (''raddr'', JStr (s_raddr x)),
     (''state'', JStr (s_state x)), (''owner_pid'', JInt (owner_pid x))]"

definition prov_doc :: "ps_activity \<Rightarrow> string \<Rightarrow> string option \<Rightarrow> json" where
  "prov_doc a trigger host = JObj ([(''host'', JStr (case host of Some h \<Rightarrow> h | None \<Rightarrow> [])), (''severity'', JStr (prov_severity trigger)),
     (''confidence'', JStr ''firm''), (''target'', JObj [(''path'', JStr (a_path a))]), (''trigger'', JStr trigger), (''event'', JStr (a_event a)),
     (''writer'', JObj [(''pid'', JInt (a_pid (a_proc a))), (''start_ticks'', JInt (sint (start_time (a_proc a)))), (''uid'', JInt (a_uid (a_proc a))),
       (''exe'', JStr (a_exe (a_proc a))), (''cmdline'', JStr (a_cmdline (a_proc a))), (''cgroup'', JStr (a_cgroup (a_proc a))),
       (''mac_label'', JStr (mac_label (a_proc a)))]),
     (''ancestry'', JArr (map prov_anc_doc (a_anc a))), (''sockets'', JArr (map prov_sock_doc (take 8 (a_sock a))))] @
     (case filter session_socket (a_sock a) of
        [] \<Rightarrow> []
      | s # ss \<Rightarrow> [(''session_src_ip'', JStr (raddr_ip (s_raddr s) 64)),
                    (''session_src_ip_confidence'', JStr (if ss = [] then ''firm'' else ''tentative''))]))"

lemma wr_prov_anc_doc: "wr_prov_anc j x = wr_elem (prov_anc_doc x) j"
  by (simp add: wr_prov_anc_def prov_anc_doc_def)

lemma wr_prov_sock_doc: "wr_prov_sock j x = wr_elem (prov_sock_doc x) j"
  by (simp add: wr_prov_sock_def prov_sock_doc_def)

lemma provenance_record_doc:
  "ps_provenance_build_record a trigger host cap =
     (if length (show_json (prov_doc a trigger host)) < cap then Some (show_json (prov_doc a trigger host)) else None)"
proof -
  have "ps_provenance_build_record a trigger host cap = ps_json_finish (wr_elem (prov_doc a trigger host) (ps_json_init cap))"
    by (cases "filter session_socket (a_sock a)") (simp_all add: ps_provenance_build_record_def prov_doc_def Let_def
        foldl_wr [of wr_prov_anc prov_anc_doc, OF wr_prov_anc_doc] foldl_wr [of wr_prov_sock prov_sock_doc, OF wr_prov_sock_doc])
  moreover have "writable (prov_anc_doc x)" "writable (prov_sock_doc y)" for x y
    by (simp_all add: prov_anc_doc_def prov_sock_doc_def)
  then have "writable (prov_doc a trigger host)"
    by (auto simp: prov_doc_def prov_anc_doc_def prov_sock_doc_def split: list.split)
  moreover obtain kvs where "prov_doc a trigger host = JObj kvs" by (simp add: prov_doc_def)
  ultimately show ?thesis by (simp only: finish_document)
qed

section \<open>Reading back the fields of a record\<close>

definition str_fits :: "nat \<Rightarrow> string \<Rightarrow> bool" where
  "str_fits cap s \<longleftrightarrow> is_cstr s \<and> length s < cap"

definition int_fits :: "int \<Rightarrow> bool" where
  "int_fits i \<longleftrightarrow> - (2 ^ 31) \<le> i \<and> i < 2 ^ 31"

definition ticks_fit :: "64 word \<Rightarrow> bool" where
  "ticks_fit w \<longleftrightarrow> w \<noteq> 2 ^ 63"

definition proc_ok :: "ps_act_proc \<Rightarrow> bool" where
  "proc_ok p \<longleftrightarrow> int_fits (a_pid p) \<and> int_fits (a_ppid p) \<and> int_fits (a_uid p) \<and> int_fits (a_sid p) \<and> ticks_fit (start_time p) \<and>
     str_fits 64 (a_comm p) \<and> str_fits 256 (a_exe p) \<and> str_fits 512 (a_cmdline p) \<and> str_fits 256 (a_cgroup p) \<and>
     str_fits 128 (mac_label p) \<and> str_fits 32 (mac_mode p)"

definition anc_ok :: "ps_act_ancestor \<Rightarrow> bool" where
  "anc_ok x \<longleftrightarrow> int_fits (anc_pid x) \<and> int_fits (anc_depth x) \<and> ticks_fit (anc_start x) \<and> str_fits 64 (anc_comm x)"

definition sock_ok :: "ps_act_socket \<Rightarrow> bool" where
  "sock_ok x \<longleftrightarrow> int_fits (owner_pid x) \<and> int_fits (s_depth x) \<and> str_fits 64 (owner_comm x) \<and> str_fits 4 (s_proto x) \<and>
     str_fits 64 (s_laddr x) \<and> str_fits 64 (s_raddr x) \<and> str_fits 16 (s_state x)"

definition act_ok :: "ps_activity \<Rightarrow> bool" where
  \<comment> \<open>what the arrays of the struct can hold\<close>
  "act_ok a \<longleftrightarrow> str_fits 24 (a_ts a) \<and> str_fits 8 (a_event a) \<and> str_fits 512 (a_path a) \<and> str_fits 24 (prov_trigger a) \<and>
     proc_ok (a_proc a) \<and> list_all anc_ok (a_anc a) \<and> list_all sock_ok (a_sock a)"

lemma ticks_range: "ticks_fit w \<Longrightarrow> - (2 ^ 63) < sint w \<and> sint w < 2 ^ 63"
proof -
  assume "ticks_fit w"
  have "- (2 ^ 63) \<le> sint w" "sint w < 2 ^ 63" using sint_greater_eq [of w] sint_less [of w] by simp_all
  moreover have "sint w \<noteq> - (2 ^ 63)"
  proof
    assume "sint w = - (2 ^ 63)"
    from arg_cong [OF this, of "word_of_int :: int \<Rightarrow> 64 word"] have "w = word_of_int (- (2 ^ 63))" by simp
    then show False using \<open>ticks_fit w\<close> by (simp add: ticks_fit_def)
  qed
  ultimately show ?thesis by linarith
qed

lemma int_fits_range: "int_fits i \<Longrightarrow> - (2 ^ 63) < i \<and> i < 2 ^ 63"
  by (simp add: int_fits_def)

lemma act_keys:
  "plain_key ''v''" "plain_key ''ts''" "plain_key ''event''" "plain_key ''path''" "plain_key ''partial''" "plain_key ''prov_trigger''"
  "plain_key ''process''" "plain_key ''pid''" "plain_key ''ppid''" "plain_key ''uid''" "plain_key ''sid''" "plain_key ''start_ticks''"
  "plain_key ''comm''" "plain_key ''exe''" "plain_key ''cmdline''" "plain_key ''cgroup''" "plain_key ''mac''" "plain_key ''label''"
  "plain_key ''mode''" "plain_key ''ancestry''" "plain_key ''sockets''" "plain_key ''depth''" "plain_key ''owner_pid''"
  "plain_key ''owner_comm''" "plain_key ''proto''" "plain_key ''laddr''" "plain_key ''raddr''" "plain_key ''state''"
  by code_simp+

lemma wf_json_arr: "wf_json (JArr vs) \<longleftrightarrow> list_all wf_json vs"
  by (simp add: list_all_iff)

lemma anc_doc_wf: "anc_ok x \<Longrightarrow> wf_json (anc_doc x)"
  unfolding anc_doc_def wf_json_obj anc_ok_def str_fits_def
  by (simp only: list.pred_inject prod.case wf_json.simps(3,4) act_keys simp_thms int_fits_range ticks_range)

lemma sock_doc_wf: "sock_ok x \<Longrightarrow> wf_json (sock_doc x)"
  unfolding sock_doc_def wf_json_obj sock_ok_def str_fits_def
  by (simp only: list.pred_inject prod.case wf_json.simps(3,4) act_keys simp_thms int_fits_range ticks_range)

lemma mac_doc_wf: "is_cstr l \<Longrightarrow> is_cstr m \<Longrightarrow> wf_json (JObj [(''label'', JStr l), (''mode'', JStr m)])"
  unfolding wf_json_obj by (simp only: list.pred_inject prod.case wf_json.simps(3) act_keys simp_thms)

lemma proc_doc_wf: "proc_ok x \<Longrightarrow> wf_json (proc_doc x)"
  unfolding proc_doc_def wf_json_obj [of "(''pid'', _) # _"] proc_ok_def str_fits_def
  by (simp only: list.pred_inject prod.case wf_json.simps(3,4) act_keys simp_thms int_fits_range ticks_range mac_doc_wf)

lemma act_doc_wf: "act_ok a \<Longrightarrow> wf_json (act_doc a)"
proof -
  assume ok: "act_ok a"
  have arr: "wf_json (JArr (map anc_doc (a_anc a)))" "wf_json (JArr (map sock_doc (a_sock a)))"
    using ok anc_doc_wf sock_doc_wf unfolding wf_json_arr by (auto simp: act_ok_def list_all_iff)
  have one: "wf_json (JInt 1)" by simp
  show ?thesis
    using ok proc_doc_wf [of "a_proc a"] arr one unfolding act_doc_def wf_json_obj act_ok_def str_fits_def
    by (cases "prov_trigger a = []")
      (simp_all only: list_all_append list.pred_inject prod.case wf_json.simps(3,5) act_keys simp_thms if_True if_False)
qed

lemma first_field_arr: "(\<And>x. first_field key (doc x) = None) \<Longrightarrow> first_field key (JArr (map doc xs)) = None"
  by (induction xs) simp_all

lemma first_field_anc: "key \<notin> {''pid'', ''comm'', ''depth'', ''start_ticks''} \<Longrightarrow> first_field key (anc_doc x) = None"
  by (auto simp: anc_doc_def)

lemma first_field_sock:
  "key \<notin> {''owner_pid'', ''owner_comm'', ''depth'', ''proto'', ''laddr'', ''raddr'', ''state''} \<Longrightarrow> first_field key (sock_doc x) = None"
  by (auto simp: sock_doc_def)

lemma act_doc_strs:
  "first_field ''ts'' (act_doc a) = Some (JStr (a_ts a))"
  "first_field ''event'' (act_doc a) = Some (JStr (a_event a))"
  "first_field ''path'' (act_doc a) = Some (JStr (a_path a))"
  "first_field ''comm'' (act_doc a) = Some (JStr (a_comm (a_proc a)))"
  "first_field ''exe'' (act_doc a) = Some (JStr (a_exe (a_proc a)))"
  "first_field ''cmdline'' (act_doc a) = Some (JStr (a_cmdline (a_proc a)))"
  "first_field ''cgroup'' (act_doc a) = Some (JStr (a_cgroup (a_proc a)))"
  "first_field ''label'' (act_doc a) = Some (JStr (mac_label (a_proc a)))"
  "first_field ''mode'' (act_doc a) = Some (JStr (mac_mode (a_proc a)))"
  by (cases "prov_trigger a = []"; simp add: act_doc_def proc_doc_def)+

lemma act_doc_ints:
  "first_field ''pid'' (act_doc a) = Some (JInt (a_pid (a_proc a)))"
  "first_field ''ppid'' (act_doc a) = Some (JInt (a_ppid (a_proc a)))"
  "first_field ''uid'' (act_doc a) = Some (JInt (a_uid (a_proc a)))"
  "first_field ''sid'' (act_doc a) = Some (JInt (a_sid (a_proc a)))"
  "first_field ''start_ticks'' (act_doc a) = Some (JInt (sint (start_time (a_proc a))))"
  by (cases "prov_trigger a = []"; simp add: act_doc_def proc_doc_def)+

lemma act_doc_trigger:
  "first_field ''prov_trigger'' (act_doc a) = (if prov_trigger a = [] then None else Some (JStr (prov_trigger a)))"
  using first_field_arr [of "''prov_trigger''" anc_doc "a_anc a"] first_field_arr [of "''prov_trigger''" sock_doc "a_sock a"]
  by (simp add: first_field_anc first_field_sock act_doc_def proc_doc_def del: first_field.simps(2))

lemma into_doc:
  assumes "plain_key k" "wf_json t" "first_field k t = Some (JStr s)" "str_fits cap s"
  shows "extract_into st (show_json t) k cap = s"
  using assms extract_string_doc [OF assms(1,2), of cap] by (auto simp: extract_into_def str_fits_def)

lemma into_doc_none:
  assumes "plain_key k" "wf_json t" "first_field k t = None" "0 < cap"
  shows "extract_into st (show_json t) k cap = []"
  using assms extract_string_doc [OF assms(1,2,4)] after_key_None [OF assms(1,2,3)] by (simp add: extract_into_def)

lemma int_or_doc:
  assumes "plain_key k" "wf_json t" "first_field k t = Some (JInt i)" "int_fits i"
  shows "int_or old (show_json t) k = i"
  using assms extract_int_doc [OF assms(1,2)] cast_int_small [of i] by (simp add: int_or_def int_fits_def)

lemma u64_or_doc:
  assumes "plain_key k" "wf_json t" "first_field k t = Some (JInt (sint w))"
  shows "u64_or old (show_json t) k = w"
  using assms extract_int_doc [OF assms(1,2)] by (simp add: u64_or_def)

section \<open>Properties\<close>


definition example_activity :: ps_activity where
  "example_activity = \<lparr>a_ts = ''2026-01-01T00:00:00Z'', a_event = ''write'', a_path = ''/tmp/a b'', a_partial = False, prov_trigger = [],
     a_proc = zero_proc\<lparr>a_pid := 77, a_comm := ''sh'', a_exe := ''/bin/sh''\<rparr>,
     a_anc = [\<lparr>anc_pid = 1, anc_depth = 1, anc_start = 9, anc_comm = ''init''\<rparr>], a_sock = []\<rparr>"

lemma example_activity_ok: "act_ok example_activity"
  by code_simp


text \<open>A provenance trigger is reported exactly when the configuration asks for it, with directories taken at component boundaries: a
  write below a sensitive directory, else a write of a file with an execute bit below a transient directory, and an execution from a
  transient directory; \<open>/tmp\<close> stands for \<open>/tmp\<close> and \<open>/tmp/x\<close>, with or without a trailing slash, and never for \<open>/tmpfoo\<close>.\<close>

theorem provenance_triggers:
  assumes "is_cstr path" "pv_enabled cfg"
  shows "(ps_provenance_classify ev path mode cfg = ''write_sensitive_path'' \<longleftrightarrow> ev = ''write'' \<and> in_dirs path (sensitive_paths cfg)) \<and>
    (ps_provenance_classify ev path mode cfg = ''write_executable'' \<longleftrightarrow>
       ev = ''write'' \<and> \<not> in_dirs path (sensitive_paths cfg) \<and> mode AND 73 \<noteq> 0 \<and> in_dirs path (transient_paths cfg)) \<and>
    (ps_provenance_classify ev path mode cfg = ''exec_from_transient'' \<longleftrightarrow> ev = ''exec'' \<and> in_dirs path (transient_paths cfg)) \<and>
    (ps_provenance_classify ev path mode cfg \<noteq> [] \<longrightarrow> prov_severity (ps_provenance_classify ev path mode cfg) =
       (if ev = ''write'' then ''high'' else ''medium''))"
  using assms by (simp add: ps_provenance_classify_def path_in_set_iff prov_severity_def)

theorem provenance_triggers_witness:
  "ps_provenance_classify ''exec'' ''/tmp/x'' 0 \<lparr>pv_enabled = True, transient_paths = ''/tmp/,/run'', sensitive_paths = []\<rparr> = ''exec_from_transient''
     \<longleftrightarrow> ''exec'' = ''exec'' \<and> in_dirs ''/tmp/x'' ''/tmp/,/run''"
  using provenance_triggers [of "''/tmp/x''" "\<lparr>pv_enabled = True, transient_paths = ''/tmp/,/run'', sensitive_paths = []\<rparr>" "''exec''" 0]
  by (simp add: is_cstr_def)

lemma example_not_below: "\<not> in_dirs ''/tmpfoo'' ''/tmp''"
  by (simp add: in_dirs_def strip_slash_def below_def)

end
