(* ===== verification/Proc_Files.thy ===== *)
theory Proc_Files
  imports Prelude
begin

text \<open>
  Parsers for the files of \<open>/proc\<close>: the status line, control group and security label of a process
  (\<open>proc_parse.c\<close>) and the socket tables (\<open>sock_parse.c\<close>). The conversions of \<open>sscanf\<close> and \<open>strtoul\<close> that the
  sources use are written out.
\<close>

section \<open>Numbers\<close>

definition clamp64 :: "nat \<Rightarrow> nat" where
  \<comment> \<open>\<open>strtoul\<close> and \<open>strtoull\<close> return the largest value when the digits overflow\<close>
  "clamp64 n = min n (2 ^ 64 - 1)"

definition hex_val :: "char \<Rightarrow> nat option" where
  "hex_val c =
     (let n = of_char c :: nat
      in if 48 \<le> n \<and> n \<le> 57 then Some (n - 48)
         else if 97 \<le> n \<and> n \<le> 102 then Some (n - 87)
         else if 65 \<le> n \<and> n \<le> 70 then Some (n - 55)
         else None)"

fun hex_digits :: "nat \<Rightarrow> string \<Rightarrow> nat" where
  "hex_digits v [] = v"
| "hex_digits v (c # cs) = (case hex_val c of Some d \<Rightarrow> hex_digits (16 * v + d) cs | None \<Rightarrow> v)"

definition strtoul16 :: "string \<Rightarrow> nat" where
  \<comment> \<open>\<open>strtoul(s, NULL, 16)\<close>: blanks, a sign (the value is negated modulo \<open>2^64\<close>) and an optional \<open>0x\<close>\<close>
  "strtoul16 s =
     (let s = dropWhile is_space s;
          neg = (cur s = CHR ''-'');
          s = (if cur s = CHR ''-'' \<or> cur s = CHR ''+'' then tl s else s);
          s = (case s of z # x # d # r \<Rightarrow>
                 if z = CHR ''0'' \<and> (x = CHR ''x'' \<or> x = CHR ''X'') \<and> hex_val d \<noteq> None then d # r else s | _ \<Rightarrow> s);
          v = clamp64 (hex_digits 0 s)
      in if neg then (2 ^ 64 - v) mod 2 ^ 64 else v)"

section \<open>The status line of a process\<close>

definition after_comm :: "string \<Rightarrow> string option" where
  "after_comm stat_buf = map_option tl (strrchr stat_buf (CHR '')''))"

abbreviation skip_sp :: "string \<Rightarrow> string" where
  "skip_sp p \<equiv> dropWhile (\<lambda>c. c = CHR '' '') p"

abbreviation skip_tok :: "string \<Rightarrow> string" where
  "skip_tok p \<equiv> dropWhile (\<lambda>c. c \<noteq> CHR '' '') p"

definition ps_proc_parse_ppid :: "string \<Rightarrow> int" where
  "ps_proc_parse_ppid stat_buf =
     (case after_comm stat_buf of
        None \<Rightarrow> - 1
      | Some p \<Rightarrow> (let p = skip_sp (skip_tok (skip_sp p)) in if p = [] then - 1 else atoi p))"

fun skip_fields :: "nat \<Rightarrow> string \<Rightarrow> string option" where
  \<comment> \<open>the loop that consumes tokens\<close>
  "skip_fields 0 p = Some p"
| "skip_fields (Suc n) p = (let p = skip_sp p in if p = [] then None else skip_fields n (skip_tok p))"

definition ps_proc_parse_starttime :: "string \<Rightarrow> nat option" where
  "ps_proc_parse_starttime stat_buf =
     (case after_comm stat_buf of
        None \<Rightarrow> None
      | Some p \<Rightarrow>
          (case skip_fields 19 p of
             None \<Rightarrow> None
           | Some p \<Rightarrow> (let p = skip_sp p in if \<not> is_digit (cur p) then None else Some (clamp64 (digits_val 0 p)))))"

definition ps_proc_parse_comm :: "string \<Rightarrow> nat \<Rightarrow> string option" where
  "ps_proc_parse_comm stat_buf cap =
     (case (strchr stat_buf (CHR ''(''), strrchr stat_buf (CHR '')'')) of
        (Some lp, Some rp) \<Rightarrow>
          (if length rp \<ge> length lp then None
           else let n = length lp - length rp - 1
                in Some (take (if n \<ge> cap then cap - 1 else n) (tl lp)))
      | _ \<Rightarrow> None)"

section \<open>Control group and label\<close>

definition ps_proc_parse_unit :: "string \<Rightarrow> nat \<Rightarrow> string option" where
  "ps_proc_parse_unit cgroup_buf cap =
     (let line = takeWhile (\<lambda>c. c \<noteq> CHR 0x0A) cgroup_buf
      in case strrchr line (CHR '':'') of
           None \<Rightarrow> None
         | Some colon \<Rightarrow>
             (let path = tl colon; plen = length path
              in if plen = 0 \<and> \<not> plen \<ge> cap then None
                 else Some (take (if plen \<ge> cap then cap - 1 else plen) path)))"

definition ps_proc_parse_mac :: "string \<Rightarrow> nat \<Rightarrow> nat \<Rightarrow> string \<times> string" where
  \<comment> \<open>label and mode\<close>
  "ps_proc_parse_mac attr_buf lcap mcap =
     (let tmp = take 255 (takeWhile (\<lambda>c. c \<noteq> CHR 0x0A) attr_buf)
      in case strrchr tmp (CHR ''('') of
           Some paren \<Rightarrow>
             (if char_at tmp (length tmp - 1) = CHR '')''
              then let lp = rev (dropWhile (\<lambda>c. c = CHR '' '') (rev (take (ptr_off paren tmp) tmp)))
                   in (take (if length lp \<ge> lcap then lcap - 1 else length lp) lp,
                       snprintf_s mcap (butlast (tl paren)))
              else (snprintf_s lcap tmp, snprintf_s mcap tmp))
         | None \<Rightarrow> (snprintf_s lcap tmp, snprintf_s mcap tmp))"

section \<open>Socket tables\<close>

record ps_sock_ep =
  ep_inode :: nat
  ep_proto :: string
  ep_laddr :: string
  ep_raddr :: string
  ep_state :: string

definition decode_addr :: "string \<Rightarrow> nat \<Rightarrow> string" where
  "decode_addr tok cap =
     (case strchr tok (CHR '':'') of
        None \<Rightarrow> snprintf_s cap ''?''
      | Some colon \<Rightarrow>
          (let alen = ptr_off colon tok;
               port = strtoul16 (tl colon) mod 2 ^ 32;
               pair = (\<lambda>i. show_nat (strtoul16 (take 2 (drop i tok))))
           in if alen = 8
              then snprintf_s cap (pair 6 @ ''.'' @ pair 4 @ ''.'' @ pair 2 @ ''.'' @ pair 0 @ '':'' @ show_nat port)
              else snprintf_s cap (''['' @ take (if alen < 39 then alen else 39) tok @ '']:'' @ show_nat port)))"

definition tcp_states :: "string list" where
  "tcp_states = [[], ''ESTABLISHED'', ''SYN_SENT'', ''SYN_RECV'', ''FIN_WAIT1'', ''FIN_WAIT2'', ''TIME_WAIT'', ''CLOSE'',
     ''CLOSE_WAIT'', ''LAST_ACK'', ''LISTEN'', ''CLOSING'']"

definition tcp_state :: "string \<Rightarrow> string" where
  "tcp_state st_hex =
     (let v = strtoul16 st_hex mod 2 ^ 32 in if v < length tcp_states then tcp_states ! v else [])"

text \<open>
  The conversions of \<open>sscanf(line, "%15[^:]: %63s %63s %7s %*s %*s %*s %*u %*u %lu", ...)\<close>: each takes the
  rest of the input and returns the converted text and what is left, or \<open>None\<close> when it does not match.
\<close>

definition scan_until_colon :: "nat \<Rightarrow> string \<Rightarrow> (string \<times> string) option" where
  "scan_until_colon w s =
     (let t = take w (takeWhile (\<lambda>c. c \<noteq> CHR '':'') s) in if t = [] then None else Some (t, drop (length t) s))"

definition scan_s :: "nat option \<Rightarrow> string \<Rightarrow> (string \<times> string) option" where
  \<comment> \<open>\<open>%s\<close> with an optional width\<close>
  "scan_s w s =
     (let s = dropWhile is_space s;
          t = takeWhile (\<lambda>c. \<not> is_space c) s;
          t = (case w of Some n \<Rightarrow> take n t | None \<Rightarrow> t)
      in if t = [] then None else Some (t, drop (length t) s))"

definition scan_lu :: "string \<Rightarrow> (nat \<times> string) option" where
  \<comment> \<open>\<open>%u\<close> and \<open>%lu\<close>: the value as a 64-bit number\<close>
  "scan_lu s =
     (let s = dropWhile is_space s;
          neg = (cur s = CHR ''-'');
          d = (if cur s = CHR ''-'' \<or> cur s = CHR ''+'' then tl s else s);
          t = takeWhile is_digit d
      in if t = [] then None
         else let v = clamp64 (digits_val 0 t)
              in Some (if neg then (2 ^ 64 - v) mod 2 ^ 64 else v, drop (length t) d))"

definition scan_line :: "string \<Rightarrow> (string \<times> string \<times> string \<times> nat) option" where
  \<comment> \<open>local and remote address, state and inode, when all five fields were converted\<close>
  "scan_line line =
     (case scan_until_colon 15 line of
        None \<Rightarrow> None
      | Some (_, s) \<Rightarrow>
          (if cur s \<noteq> CHR '':'' then None
           else case scan_s (Some 63) (tl s) of None \<Rightarrow> None | Some (local, s) \<Rightarrow>
                case scan_s (Some 63) s of None \<Rightarrow> None | Some (rem, s) \<Rightarrow>
                case scan_s (Some 7) s of None \<Rightarrow> None | Some (st, s) \<Rightarrow>
                case scan_s None s of None \<Rightarrow> None | Some (_, s) \<Rightarrow>
                case scan_s None s of None \<Rightarrow> None | Some (_, s) \<Rightarrow>
                case scan_s None s of None \<Rightarrow> None | Some (_, s) \<Rightarrow>
                case scan_lu s of None \<Rightarrow> None | Some (_, s) \<Rightarrow>
                case scan_lu s of None \<Rightarrow> None | Some (_, s) \<Rightarrow>
                case scan_lu s of None \<Rightarrow> None | Some (inode, s) \<Rightarrow> Some (local, rem, st, inode)))"

function procnet_scan :: "string \<Rightarrow> int \<Rightarrow> int \<Rightarrow> string \<Rightarrow> ps_sock_ep list" where
  \<comment> \<open>the loop over the lines, \<open>count\<close> entries written\<close>
  "procnet_scan proto count maxn line =
     (if line = [] \<or> count \<ge> maxn then []
      else let found = (case scan_line line of
                          Some (local, rem, st, inode) \<Rightarrow>
                            if inode > 0
                            then [\<lparr>ep_inode = inode, ep_proto = snprintf_s 4 proto, ep_laddr = decode_addr local 64,
                                   ep_raddr = decode_addr rem 64,
                                   ep_state = (if proto = ''tcp'' then snprintf_s 16 (tcp_state st) else [])\<rparr>]
                            else []
                        | None \<Rightarrow> [])
           in found @ (case strchr line (CHR 0x0A) of
                         None \<Rightarrow> []
                       | Some nl \<Rightarrow> procnet_scan proto (count + int (length found)) maxn (drop 1 nl)))"
  by pat_completeness auto
termination
  by (relation "measure (\<lambda>(_, _, _, line). length line)") (auto dest: strchr_after_shorter [OF sym])

declare procnet_scan.simps [simp del]

definition ps_sock_parse_procnet :: "string \<Rightarrow> string \<Rightarrow> int \<Rightarrow> ps_sock_ep list" where
  \<comment> \<open>the length of the list is the returned count\<close>
  "ps_sock_parse_procnet proto buf maxn =
     (case strchr buf (CHR 0x0A) of None \<Rightarrow> [] | Some nl \<Rightarrow> procnet_scan proto 0 maxn (tl nl))"

fun ps_sock_find_by_inode :: "ps_sock_ep list \<Rightarrow> nat \<Rightarrow> ps_sock_ep option" where
  "ps_sock_find_by_inode [] inode = None"
| "ps_sock_find_by_inode (e # es) inode = (if ep_inode e = inode then Some e else ps_sock_find_by_inode es inode)"

section \<open>The status line, whatever the command is called\<close>

definition field_list :: "string list \<Rightarrow> string" where
  "field_list fs = concat (map (\<lambda>f. CHR '' '' # f) fs)"

definition token :: "string \<Rightarrow> bool" where
  "token f \<longleftrightarrow> f \<noteq> [] \<and> CHR '' '' \<notin> set f \<and> CHR '')'' \<notin> set f"

definition stat_line :: "nat \<Rightarrow> string \<Rightarrow> string list \<Rightarrow> string" where
  \<comment> \<open>what the kernel writes: the process id, the command in parentheses, the other fields\<close>
  "stat_line pid comm fs = show_nat pid @ '' ('' @ comm @ '')'' @ field_list fs @ [CHR 0x0A]"

lemma field_list_no_paren: "list_all token fs \<Longrightarrow> CHR '')'' \<notin> set (field_list fs)"
  by (induction fs) (auto simp: field_list_def token_def)

lemma after_comm_stat: "list_all token fs \<Longrightarrow> after_comm (stat_line pid comm fs) = Some (field_list fs @ [CHR 0x0A])"
  using strrchr_last [of "CHR '')''" "field_list fs @ [CHR 0x0A]" "show_nat pid @ '' ('' @ comm"] field_list_no_paren [of fs]
  by (simp add: after_comm_def stat_line_def)

lemma skip_one:
  assumes "token f" "r = [] \<or> hd r = CHR '' ''"
  shows "skip_sp (CHR '' '' # f @ r) = f @ r" "skip_tok (f @ r) = r"
proof -
  have "hd f \<noteq> CHR '' ''" "f \<noteq> []" using assms(1) by (auto simp: token_def) (metis hd_in_set)
  then show "skip_sp (CHR '' '' # f @ r) = f @ r" by (cases f) auto
  have "dropWhile (\<lambda>c. c \<noteq> CHR '' '') (f @ r) = dropWhile (\<lambda>c. c \<noteq> CHR '' '') r"
    using assms(1) by (intro dropWhile_append2) (auto simp: token_def)
  then show "skip_tok (f @ r) = r" using assms(2) by (cases r) auto
qed

lemma field_list_hd: "fs \<noteq> [] \<Longrightarrow> hd (field_list fs @ r) = CHR '' ''"
  by (cases fs) (simp_all add: field_list_def)

lemma skip_fields_list:
  "list_all token fs \<Longrightarrow> n < length fs \<Longrightarrow> skip_fields n (field_list fs @ r) = Some (field_list (drop n fs) @ r)"
proof (induction n arbitrary: fs)
  case (Suc n)
  then obtain f g gs where fs: "fs = f # g # gs" by (cases fs; cases "tl fs") auto
  have hd: "hd (field_list (g # gs) @ r) = CHR '' ''" by (rule field_list_hd) simp
  have e: "field_list fs @ r = CHR '' '' # f @ field_list (g # gs) @ r" by (simp add: fs field_list_def)
  have "token f" using Suc.prems(1) fs by simp
  then have "skip_sp (field_list fs @ r) = f @ field_list (g # gs) @ r" "skip_tok (f @ field_list (g # gs) @ r) = field_list (g # gs) @ r"
    "f \<noteq> []" unfolding e using skip_one [of f "field_list (g # gs) @ r"] hd by (auto simp: token_def)
  then show ?case using Suc.IH [of "g # gs"] Suc.prems fs by (simp add: Let_def)
qed simp

lemma comm_stat:
  assumes "list_all token fs" "0 < cap"
  shows "ps_proc_parse_comm (stat_line pid comm fs) cap = Some (take (cap - 1) comm)"
proof -
  let ?r = "field_list fs @ [CHR 0x0A]"
  have "CHR ''('' \<notin> set (show_nat pid @ '' '')"
    using show_nat_only_digits [of "CHR ''(''" pid] by (simp add: is_digit_def)
  then have lp: "strchr (stat_line pid comm fs) (CHR ''('') = Some (CHR ''('' # comm @ '')'' @ ?r)"
    using strchr_first [of "CHR ''(''" "show_nat pid @ '' ''" "comm @ '')'' @ ?r"] by (simp add: stat_line_def)
  have "CHR '')'' \<notin> set ?r" using field_list_no_paren [OF assms(1)] by simp
  then have rp: "strrchr (stat_line pid comm fs) (CHR '')'') = Some (CHR '')'' # ?r)"
    using strrchr_last [of "CHR '')''" ?r "show_nat pid @ '' ('' @ comm"] by (simp add: stat_line_def)
  show ?thesis using assms(2) by (simp add: ps_proc_parse_comm_def lp rp Let_def)
qed

lemma atoi_show_nat_stop:
  assumes "n < 2 ^ 31" "r = [] \<or> \<not> is_digit (hd r)"
  shows "atoi (show_nat n @ r) = int n"
proof -
  have c: "is_digit (cur (show_nat n @ r))" by (rule show_nat_cur)
  obtain x xs where x: "show_nat n @ r = x # xs" by (cases "show_nat n @ r") simp_all
  with c have d: "is_digit x" by simp
  from is_digit_char [OF this] have w: "dropWhile is_space (show_nat n @ r) = show_nat n @ r" by (simp add: x)
  have "cur (show_nat n @ r) \<noteq> CHR ''-''" "cur (show_nat n @ r) \<noteq> CHR ''+''" using is_digit_char [OF c] by blast+
  then have "strtol10 (show_nat n @ r) = int n"
    using assms digits_val_show_nat_stop [OF assms(2), of n] unfolding strtol10_def w by (simp add: Let_def)
  then show ?thesis using assms(1) cast_int_small [of "int n"] by (simp add: atoi_def)
qed

section \<open>Properties\<close>

text \<open>C34. Reading the status line of a process is not confused by the name of its command: for every command name, with blanks,
  parentheses or newlines in it, the parent and the start time are those of the fields behind the name, and the name is returned, cut
  to the caller's buffer.\<close>

theorem proc_stat_fields:
  assumes "list_all token fs" "20 < length fs" "fs ! 1 = show_nat ppid" "ppid < 2 ^ 31" "fs ! 19 = show_nat start" "start < 2 ^ 64" "0 < cap"
  shows "ps_proc_parse_ppid (stat_line pid comm fs) = int ppid \<and>
    ps_proc_parse_starttime (stat_line pid comm fs) = Some start \<and>
    ps_proc_parse_comm (stat_line pid comm fs) cap = Some (take (cap - 1) comm)"
proof -
  let ?e = "[CHR 0x0A]"
  have fld: "skip_fields n (field_list fs @ ?e) = Some (CHR '' '' # fs ! n @ field_list (drop (Suc n) fs) @ ?e)"
    if "n < length fs" for n
    using skip_fields_list [OF assms(1) that, of ?e] that by (simp add: Cons_nth_drop_Suc [symmetric] field_list_def)
  have stop: "hd (field_list (drop (Suc n) fs) @ ?e) = CHR '' ''" if "Suc n < length fs" for n
    by (rule field_list_hd) (use that in simp)
  have nd: "\<not> is_digit (CHR '' '')" by (simp add: is_digit_def)
  have tok: "token (fs ! n)" if "n < length fs" for n using assms(1) that by (simp add: list_all_length)
  have first: "skip_sp (CHR '' '' # fs ! n @ field_list (drop (Suc n) fs) @ ?e) = fs ! n @ field_list (drop (Suc n) fs) @ ?e"
    if "Suc n < length fs" for n using skip_one(1) [OF tok [of n]] stop [OF that] that by simp
  have "skip_sp (skip_tok (skip_sp (field_list fs @ ?e))) = fs ! 1 @ field_list (drop (Suc (Suc 0)) fs) @ ?e"
  proof -
    have "skip_fields 1 (field_list fs @ ?e) = Some (CHR '' '' # fs ! 1 @ field_list (drop (Suc (Suc 0)) fs) @ ?e)"
      using fld [of 1] assms(2) by simp
    then have "skip_tok (skip_sp (field_list fs @ ?e)) = CHR '' '' # fs ! 1 @ field_list (drop (Suc (Suc 0)) fs) @ ?e"
      by (simp add: Let_def split: if_splits)
    then show ?thesis using first [of 1] assms(2) by simp
  qed
  moreover have "atoi (fs ! 1 @ field_list (drop (Suc (Suc 0)) fs) @ ?e) = int ppid"
    using atoi_show_nat_stop [OF assms(4), of "field_list (drop (Suc (Suc 0)) fs) @ ?e"] stop [of 1] nd assms(2,3) by simp
  ultimately have "ps_proc_parse_ppid (stat_line pid comm fs) = int ppid"
    using assms(3) by (simp add: ps_proc_parse_ppid_def after_comm_stat [OF assms(1)] Let_def)
  moreover have "ps_proc_parse_starttime (stat_line pid comm fs) = Some start"
  proof -
    have "digits_val 0 (show_nat start @ field_list (drop 20 fs) @ ?e) = start"
      using digits_val_show_nat_stop [of "field_list (drop 20 fs) @ ?e" start] stop [of 19] nd assms(2) by simp
    moreover have "is_digit (cur (show_nat start @ field_list (drop 20 fs) @ ?e))" by (rule show_nat_cur)
    moreover have "clamp64 start = start" using assms(6) unfolding clamp64_def by linarith
    moreover have "skip_fields 19 (field_list fs @ ?e) = Some (CHR '' '' # show_nat start @ field_list (drop 20 fs) @ ?e)"
      using fld [of 19] assms(2,5) by simp
    moreover have "skip_sp (CHR '' '' # show_nat start @ field_list (drop 20 fs) @ ?e) = show_nat start @ field_list (drop 20 fs) @ ?e"
      using first [of 19] assms(2,5) by simp
    ultimately show ?thesis
      unfolding ps_proc_parse_starttime_def after_comm_stat [OF assms(1)] Let_def by (simp only: option.case not_True_eq_False if_False)
  qed
  ultimately show ?thesis using comm_stat [OF assms(1,7)] by blast
qed

definition example_fields :: "string list" where
  "example_fields = [''S'', ''1''] @ replicate 17 ''0'' @ [''8'', ''7'']"

lemma example_fields_ok:
  "list_all token example_fields" "20 < length example_fields" "example_fields ! 1 = show_nat 1" "example_fields ! 19 = show_nat 8"
  by code_simp+

theorem proc_stat_fields_witness:
  "ps_proc_parse_ppid (stat_line 42 ''a) R 9 (b'' example_fields) = int 1 \<and>
   ps_proc_parse_starttime (stat_line 42 ''a) R 9 (b'' example_fields) = Some 8 \<and>
   ps_proc_parse_comm (stat_line 42 ''a) R 9 (b'' example_fields) 16 = Some (take (16 - 1) ''a) R 9 (b'')"
  by (rule proc_stat_fields [OF example_fields_ok(1,2,3) _ example_fields_ok(4)]) simp_all

end
