(* ===== verification/Agent_Proto.thy ===== *)
theory Agent_Proto
  imports Json_Extract
begin

text \<open>
  The framing of the agent protocol (\<open>agent_proto.c\<close>): frames with a length header over the byte pipe of
  the caller, and the scanner that finds the type of a message without parsing it.

  The callbacks of \<open>struct ps_ap_io\<close> are parameters: \<open>rd c n\<close> and \<open>wr c buf\<close> return the value of the call, for
  a read the bytes it stored, and the new state behind the callback's \<open>ctx\<close>. What the header asks of them is
  \<open>reads_from\<close> and \<open>writes_to\<close>.
\<close>

section \<open>Frames\<close>

abbreviation PS_AGENT_FRAME_MAX :: nat where "PS_AGENT_FRAME_MAX \<equiv> 1048576"

datatype ap_result = PS_AP_OK | PS_AP_ERR_EOF | PS_AP_ERR_IO | PS_AP_ERR_OVERSIZE | PS_AP_ERR_SHORT | PS_AP_ERR_BAD_JSON

definition ps_ap_hello_recipe_schema :: "string \<Rightarrow> int" where
  "ps_ap_hello_recipe_schema payload =
     (let tmp = cstr_of (take 1023 payload)
      in case ps_json_extract_int tmp ''max_recipe_schema'' of
           Some v \<Rightarrow> if v \<ge> 1 then cast_int v else 1
         | None \<Rightarrow> 1)"

function io_read_all :: "('c \<Rightarrow> nat \<Rightarrow> int \<times> string \<times> 'c) \<Rightarrow> 'c \<Rightarrow> nat \<Rightarrow> ap_result \<times> string \<times> 'c" where
  "io_read_all rd c n =
     (if n = 0 then (PS_AP_OK, [], c)
      else case rd c n of
             (r, bs, c') \<Rightarrow>
               (if r = 0 then (PS_AP_ERR_EOF, [], c')
                else if r < 0 then (PS_AP_ERR_IO, [], c')
                else case io_read_all rd c' (n - nat r) of (rc, rest, c'') \<Rightarrow> (rc, bs @ rest, c'')))"
  by pat_completeness auto
termination by (relation "measure (\<lambda>(_, _, n). n)") auto

function io_write_all :: "('c \<Rightarrow> string \<Rightarrow> int \<times> 'c) \<Rightarrow> 'c \<Rightarrow> string \<Rightarrow> ap_result \<times> 'c" where
  "io_write_all wr c buf =
     (if buf = [] then (PS_AP_OK, c)
      else case wr c buf of
             (w, c') \<Rightarrow> if w \<le> 0 then (PS_AP_ERR_IO, c') else io_write_all wr c' (drop (nat w) buf))"
  by pat_completeness auto
termination by (relation "measure (\<lambda>(_, _, buf). length buf)") auto

declare io_read_all.simps [simp del] io_write_all.simps [simp del]

definition frame_len :: "string \<Rightarrow> nat" where
  "frame_len hdr = of_char (hdr ! 0) * 2 ^ 24 + of_char (hdr ! 1) * 2 ^ 16 + of_char (hdr ! 2) * 2 ^ 8 + of_char (hdr ! 3)"

definition ps_ap_read_frame :: "('c \<Rightarrow> nat \<Rightarrow> int \<times> string \<times> 'c) \<Rightarrow> 'c \<Rightarrow> nat \<Rightarrow> ap_result \<times> string \<times> 'c" where
  "ps_ap_read_frame rd c out_buf_cap =
     (case io_read_all rd c 4 of
        (rc, hdr, c) \<Rightarrow>
          (if rc \<noteq> PS_AP_OK then (rc, [], c)
           else let len = frame_len hdr
                in if len > PS_AGENT_FRAME_MAX then (PS_AP_ERR_OVERSIZE, [], c)
                   else if len > out_buf_cap then (PS_AP_ERR_SHORT, [], c)
                   else case io_read_all rd c len of
                          (rc, buf, c) \<Rightarrow>
                            (if rc \<noteq> PS_AP_OK then (rc, [], c)
                             else if len < 2 \<or> buf ! 0 \<noteq> CHR ''{'' then (PS_AP_ERR_BAD_JSON, [], c)
                             else (PS_AP_OK, buf, c))))"

definition frame_hdr :: "nat \<Rightarrow> string" where
  "frame_hdr len = [char_of (len div 2 ^ 24 mod 256), char_of (len div 2 ^ 16 mod 256), char_of (len div 2 ^ 8 mod 256),
     char_of (len mod 256)]"

definition ps_ap_write_frame :: "('c \<Rightarrow> string \<Rightarrow> int \<times> 'c) \<Rightarrow> 'c \<Rightarrow> string \<Rightarrow> ap_result \<times> 'c" where
  "ps_ap_write_frame wr c payload =
     (if length payload > PS_AGENT_FRAME_MAX then (PS_AP_ERR_OVERSIZE, c)
      else case io_write_all wr c (frame_hdr (length payload)) of
             (rc, c) \<Rightarrow> if rc \<noteq> PS_AP_OK then (rc, c) else io_write_all wr c payload)"

section \<open>The type of a message\<close>

definition is_ws :: "char \<Rightarrow> bool" where
  "is_ws c \<longleftrightarrow> c = CHR '' '' \<or> c = CHR 0x09 \<or> c = CHR 0x0A \<or> c = CHR 0x0D"

definition skip_ws :: "string \<Rightarrow> string" where
  "skip_ws p = dropWhile is_ws p"

fun skip_body :: "string \<Rightarrow> string option" where
  \<comment> \<open>the loop of \<open>skip_string\<close> behind the opening quote\<close>
  "skip_body [] = None"
| "skip_body (c # p) =
     (if c = CHR 0x5C then (case p of [] \<Rightarrow> None | _ # q \<Rightarrow> skip_body q)
      else if c = CHR 0x22 then Some p
      else skip_body p)"

definition skip_string :: "string \<Rightarrow> string option" where
  "skip_string p = (if p = [] \<or> hd p \<noteq> CHR 0x22 then None else skip_body (tl p))"

lemma skip_body_shorter: "skip_body p = Some q \<Longrightarrow> length q < length p"
proof (induction p rule: skip_body.induct)
  case (2 c p)
  then show ?case by (fastforce split: if_splits list.splits)
qed simp

lemma skip_string_shorter: "skip_string p = Some q \<Longrightarrow> length q < length p"
  using skip_body_shorter [of "tl p" q] by (cases p) (auto simp: skip_string_def split: if_splits)

function skip_nested :: "char \<Rightarrow> char \<Rightarrow> nat \<Rightarrow> string \<Rightarrow> string option" where
  \<comment> \<open>the loop of \<open>skip_value\<close> inside braces or brackets\<close>
  "skip_nested op cl depth p =
     (if depth = 0 then Some p
      else case p of
             [] \<Rightarrow> None
           | c # q \<Rightarrow>
               (if c = CHR 0x22 then (case skip_string p of None \<Rightarrow> None | Some r \<Rightarrow> skip_nested op cl depth r)
                else if c = op then skip_nested op cl (depth + 1) q
                else if c = cl then skip_nested op cl (depth - 1) q
                else skip_nested op cl depth q))"
  by pat_completeness auto
termination by (relation "measure (\<lambda>(_, _, _, p). length p)") (auto dest: skip_string_shorter)

declare skip_nested.simps [simp del]

definition skip_value :: "string \<Rightarrow> string option" where
  "skip_value p =
     (let p = skip_ws p
      in case p of
           [] \<Rightarrow> None
         | c # q \<Rightarrow>
             (if c = CHR 0x22 then skip_string p
              else if c = CHR ''{'' then skip_nested (CHR ''{'') (CHR ''}'') 1 q
              else if c = CHR ''['' then skip_nested (CHR ''['') (CHR '']'') 1 q
              else Some (dropWhile (\<lambda>c. c \<noteq> CHR '','' \<and> c \<noteq> CHR ''}'' \<and> \<not> is_ws c) p)))"

lemma skip_nested_le: "skip_nested op cl d p = Some q \<Longrightarrow> length q \<le> length p"
proof (induction op cl d p rule: skip_nested.induct)
  case (1 op cl d p)
  show ?case
  proof (cases "d = 0 \<or> p = []")
    case True
    with 1(5) show ?thesis by (auto simp: skip_nested.simps [of op cl d] split: if_splits)
  next
    case False
    then obtain c r where p: "p = c # r" by (cases p) auto
    from 1(5) False show ?thesis
      using 1(1) [of c r] 1(2-4) [of c r] skip_string_shorter [of p]
      by (subst (asm) skip_nested.simps) (fastforce simp: p split: if_splits option.splits)
  qed
qed

lemma skip_value_le: "skip_value p = Some q \<Longrightarrow> length q \<le> length p"
proof -
  assume a: "skip_value p = Some q"
  have w: "length (skip_ws p) \<le> length p" by (simp add: skip_ws_def length_dropWhile_le)
  obtain c r where r: "skip_ws p = c # r" using a by (cases "skip_ws p") (auto simp: skip_value_def)
  have "length q \<le> length (c # r)"
    using a r skip_string_shorter [of "c # r" q] skip_nested_le [of "CHR ''{''" "CHR ''}''" 1 r q]
      skip_nested_le [of "CHR ''[''" "CHR '']''" 1 r q]
      length_dropWhile_le [of "\<lambda>c. c \<noteq> CHR '','' \<and> c \<noteq> CHR ''}'' \<and> \<not> is_ws c" "c # r"]
    by (auto simp: skip_value_def Let_def simp del: dropWhile.simps split: if_splits)
  with w r show ?thesis by simp
qed

lemma type_step:
  assumes "skip_string (skip_ws p) = Some ke" "skip_value (skip_ws (tl (skip_ws ke))) = Some ve"
  shows "length (skip_ws ve) < length p"
proof -
  have w: "length (skip_ws x) \<le> length x" for x by (simp add: skip_ws_def length_dropWhile_le)
  have "length ve \<le> length (skip_ws (tl (skip_ws ke)))" by (rule skip_value_le [OF assms(2)])
  also have "\<dots> \<le> length ke" using w [of "tl (skip_ws ke)"] w [of ke] by simp
  also have "\<dots> < length p" using skip_string_shorter [OF assms(1)] w [of p] by simp
  finally show ?thesis using w [of ve] by simp
qed

function type_scan :: "nat \<Rightarrow> string \<Rightarrow> string option" where
  \<comment> \<open>the loop over the fields of the object\<close>
  "type_scan out_cap p =
     (let p1 = skip_ws p
      in if p1 = [] \<or> hd p1 \<noteq> CHR 0x22 then None
         else case skip_string p1 of
                None \<Rightarrow> None
              | Some ke \<Rightarrow>
                  (let key = take (length p1 - length ke - 2) (tl p1); p2 = skip_ws ke
                   in if p2 = [] \<or> hd p2 \<noteq> CHR '':'' then None
                      else let p3 = skip_ws (tl p2)
                           in if p3 = [] then None
                              else if key = ''type''
                              then (if hd p3 \<noteq> CHR 0x22 then None
                                    else case skip_string p3 of
                                           None \<Rightarrow> None
                                         | Some ve \<Rightarrow>
                                             (let vlen = length p3 - length ve - 2
                                              in Some (take (if vlen \<ge> out_cap then out_cap - 1 else vlen) (tl p3))))
                              else case skip_value p3 of
                                     None \<Rightarrow> None
                                   | Some ve \<Rightarrow>
                                       (let p4 = skip_ws ve
                                        in type_scan out_cap (if p4 \<noteq> [] \<and> hd p4 = CHR '','' then tl p4 else p4))))"
  by pat_completeness auto
termination
  by (relation "measure (\<lambda>(_, p). length p)") (auto dest: type_step intro: less_imp_diff_less)

declare type_scan.simps [simp del]

definition ps_ap_frame_type :: "string \<Rightarrow> nat \<Rightarrow> string option" where
  "ps_ap_frame_type payload out_cap =
     (if out_cap = 0 then None
      else let p = skip_ws payload
           in if p = [] \<or> hd p \<noteq> CHR ''{'' then None else type_scan out_cap (tl p))"

section \<open>The byte pipe\<close>

definition reads_from :: "('c \<Rightarrow> nat \<Rightarrow> int \<times> string \<times> 'c) \<Rightarrow> ('c \<Rightarrow> string) \<Rightarrow> bool" where
  \<comment> \<open>the documented contract of the read callback on a pipe whose peer sends \<open>view c\<close> and closes: some bytes, at
      most as many as asked for, and 0 at the end\<close>
  "reads_from rd view \<longleftrightarrow> (\<forall>c n. 0 < n \<longrightarrow>
     (case rd c n of (r, bs, c') \<Rightarrow>
        if view c = [] then r = 0
        else 0 < r \<and> nat r \<le> n \<and> nat r \<le> length (view c) \<and> bs = take (nat r) (view c) \<and> view c' = drop (nat r) (view c)))"

definition writes_to :: "('c \<Rightarrow> string \<Rightarrow> int \<times> 'c) \<Rightarrow> ('c \<Rightarrow> string) \<Rightarrow> bool" where
  \<comment> \<open>the contract of the write callback on a pipe that takes what it is given, piece by piece\<close>
  "writes_to wr view \<longleftrightarrow> (\<forall>c buf. buf \<noteq> [] \<longrightarrow>
     (case wr c buf of (w, c') \<Rightarrow> 0 < w \<and> nat w \<le> length buf \<and> view c' = view c @ take (nat w) buf))"

lemma io_read_all_from:
  assumes "reads_from rd view"
  shows "\<exists>c'. if n \<le> length (view c) then io_read_all rd c n = (PS_AP_OK, take n (view c), c') \<and> view c' = drop n (view c)
    else fst (io_read_all rd c n) = PS_AP_ERR_EOF"
proof (induction n arbitrary: c rule: less_induct)
  case (less n)
  show ?case
  proof (cases "n = 0")
    case True
    then show ?thesis by (subst io_read_all.simps) simp
  next
    case False
    obtain r bs c1 where rd: "rd c n = (r, bs, c1)" by (rule prod_cases3 [of "rd c n"])
    have step: "if view c = [] then r = 0
        else 0 < r \<and> nat r \<le> n \<and> nat r \<le> length (view c) \<and> bs = take (nat r) (view c) \<and> view c1 = drop (nat r) (view c)"
      using assms [unfolded reads_from_def, THEN spec [of _ c], THEN spec [of _ n]] False by (simp only: rd prod.case neq0_conv simp_thms)
    show ?thesis
    proof (cases "view c = []")
      case True
      with step rd False show ?thesis by (subst io_read_all.simps) simp
    next
      case ne: False
      with step have r: "0 < r" "nat r \<le> n" "nat r \<le> length (view c)" "bs = take (nat r) (view c)" "view c1 = drop (nat r) (view c)"
        by simp_all
      have "n - nat r < n" using r(1) False by simp
      from less [OF this, of c1] obtain c2 where ih: "if n - nat r \<le> length (view c1)
          then io_read_all rd c1 (n - nat r) = (PS_AP_OK, take (n - nat r) (view c1), c2) \<and> view c2 = drop (n - nat r) (view c1)
          else fst (io_read_all rd c1 (n - nat r)) = PS_AP_ERR_EOF" by blast
      have un: "io_read_all rd c n = (case io_read_all rd c1 (n - nat r) of (rc, rest, c'') \<Rightarrow> (rc, bs @ rest, c''))"
        using rd r(1) False by (subst io_read_all.simps) simp
      have le: "n - nat r \<le> length (view c1) \<longleftrightarrow> n \<le> length (view c)" using r(2,3,5) by auto
      have tk: "take (nat r) (view c) @ take (n - nat r) (drop (nat r) (view c)) = take n (view c)"
        using r(2) take_add [of "nat r" "n - nat r" "view c"] by simp
      show ?thesis
      proof (cases "n \<le> length (view c)")
        case True
        with ih le have "io_read_all rd c1 (n - nat r) = (PS_AP_OK, take (n - nat r) (view c1), c2)" "view c2 = drop (n - nat r) (view c1)"
          by simp_all
        with True un tk r(2,4,5) show ?thesis by (intro exI [of _ c2]) simp
      next
        case over: False
        with ih le have "fst (io_read_all rd c1 (n - nat r)) = PS_AP_ERR_EOF" by simp
        with over un show ?thesis by (auto split: prod.split)
      qed
    qed
  qed
qed

lemma io_write_all_to:
  assumes "writes_to wr view"
  shows "\<exists>c'. io_write_all wr c buf = (PS_AP_OK, c') \<and> view c' = view c @ buf"
proof (induction buf arbitrary: c rule: length_induct)
  case (1 buf)
  show ?case
  proof (cases "buf = []")
    case True
    then show ?thesis by (subst io_write_all.simps) simp
  next
    case False
    obtain w c1 where wr: "wr c buf = (w, c1)" by (rule prod.exhaust [of "wr c buf"])
    have st: "0 < w" "nat w \<le> length buf" "view c1 = view c @ take (nat w) buf"
      using assms [unfolded writes_to_def, THEN spec [of _ c], THEN spec [of _ buf]] False by (simp_all only: wr prod.case simp_thms)
    then have "length (drop (nat w) buf) < length buf" using False by (cases buf) auto
    with 1 obtain c2 where "io_write_all wr c1 (drop (nat w) buf) = (PS_AP_OK, c2)" "view c2 = view c1 @ drop (nat w) buf" by blast
    with wr st False show ?thesis by (subst io_write_all.simps) simp
  qed
qed

lemma bytes_of_len: "(a :: nat) div 2 ^ 24 * 2 ^ 24 + (a div 2 ^ 16 mod 256) * 2 ^ 16 + (a div 2 ^ 8 mod 256) * 2 ^ 8 + a mod 256 = a"
proof -
  define b where "b = a div 256"
  define c where "c = b div 256"
  define d where "d = c div 256"
  have "a = b * 256 + a mod 256" "b = c * 256 + b mod 256" "c = d * 256 + c mod 256"
    unfolding b_def c_def d_def by simp_all
  then have "d * 16777216 + (c mod 256) * 65536 + (b mod 256) * 256 + a mod 256 = a" by linarith
  moreover have "a div 2 ^ 8 = b" "a div 2 ^ 16 = c" "a div 2 ^ 24 = d"
    unfolding b_def c_def d_def by (simp_all add: div_mult2_eq [symmetric])
  ultimately show ?thesis by simp
qed

lemma frame_len_hdr:
  assumes "len < 2 ^ 32"
  shows "frame_len (frame_hdr len) = len"
proof -
  have "len div 2 ^ 24 < 256" using assms by (simp add: less_mult_imp_div_less)
  then have "len div 2 ^ 24 mod 256 = len div 2 ^ 24" by (rule mod_less)
  moreover have "of_char (char_of (n mod 256) :: char) = n mod 256" for n :: nat by simp
  ultimately show ?thesis using bytes_of_len [of len] unfolding frame_len_def frame_hdr_def by (simp only: nth_Cons_0 nth_Cons_numeral) simp
qed

lemma frame_hdr_length [simp]: "length (frame_hdr n) = 4"
  by (simp add: frame_hdr_def)

definition frame_outcome :: "string \<Rightarrow> nat \<Rightarrow> ap_result" where
  \<comment> \<open>specification: what reading a frame from the front of a stream must report\<close>
  "frame_outcome s cap =
     (if length s < 4 then PS_AP_ERR_EOF
      else let len = frame_len s
           in if len > PS_AGENT_FRAME_MAX then PS_AP_ERR_OVERSIZE
              else if len > cap then PS_AP_ERR_SHORT
              else if length s < 4 + len then PS_AP_ERR_EOF
              else if len < 2 \<or> s ! 4 \<noteq> CHR ''{'' then PS_AP_ERR_BAD_JSON
              else PS_AP_OK)"

lemma frame_len_take: "frame_len (take 4 s) = frame_len s"
  by (simp add: frame_len_def)

lemma read_frame_lemma:
  assumes "reads_from rd view"
  shows "fst (ps_ap_read_frame rd c cap) = frame_outcome (view c) cap \<and>
    (frame_outcome (view c) cap = PS_AP_OK \<longrightarrow>
      fst (snd (ps_ap_read_frame rd c cap)) = take (frame_len (view c)) (drop 4 (view c)) \<and>
      view (snd (snd (ps_ap_read_frame rd c cap))) = drop (4 + frame_len (view c)) (view c))"
proof (cases "4 \<le> length (view c)")
  case False
  then have "fst (io_read_all rd c 4) = PS_AP_ERR_EOF" using io_read_all_from [OF assms, of 4 c] by simp
  with False show ?thesis by (auto simp: ps_ap_read_frame_def frame_outcome_def split: prod.split)
next
  case True
  then obtain c1 where h: "io_read_all rd c 4 = (PS_AP_OK, take 4 (view c), c1)" "view c1 = drop 4 (view c)"
    using io_read_all_from [OF assms, of 4 c] by auto
  let ?len = "frame_len (view c)"
  show ?thesis
  proof (cases "?len > PS_AGENT_FRAME_MAX \<or> ?len > cap")
    case big: True
    with h True show ?thesis by (auto simp: ps_ap_read_frame_def frame_outcome_def frame_len_take Let_def)
  next
    case fits: False
    show ?thesis
    proof (cases "4 + ?len \<le> length (view c)")
      case False
      then have "fst (io_read_all rd c1 ?len) = PS_AP_ERR_EOF" using io_read_all_from [OF assms, of ?len c1] h(2) True by auto
      with fits False h True show ?thesis
        by (auto simp: ps_ap_read_frame_def frame_outcome_def frame_len_take Let_def split: prod.split)
    next
      case full: True
      then obtain c2 where b: "io_read_all rd c1 ?len = (PS_AP_OK, take ?len (drop 4 (view c)), c2)" "view c2 = drop ?len (drop 4 (view c))"
        using io_read_all_from [OF assms, of ?len c1] h(2) by auto
      have hd: "0 < ?len \<Longrightarrow> take ?len (drop 4 (view c)) ! 0 = view c ! 4" using full by simp
      show ?thesis
        using fits full True h b hd
        by (auto simp: ps_ap_read_frame_def frame_outcome_def frame_len_take Let_def add.commute)
    qed
  qed
qed

section \<open>Skipping over documents\<close>

lemma skip_body_escape: "skip_body (escape s @ CHR 0x22 # r) = Some r"
proof (induction s)
  case (Cons c s)
  have "skip_body (escape_char c @ q) = skip_body q" for q
    using hex_digit_not_quote [of "of_char c div 16"] hex_digit_not_quote [of "of_char c mod 16"]
    by (auto simp: escape_char_def split: if_splits)
  with Cons show ?case by simp
qed simp

lemma skip_string_quoted [simp]: "skip_string (quoted s @ r) = Some r"
  by (simp add: skip_string_def quoted_def skip_body_escape)

lemma skip_nested_quoted:
  "0 < d \<Longrightarrow> skip_nested op cl d (quoted s @ r) = skip_nested op cl d r"
  by (subst skip_nested.simps) (simp add: quoted_def skip_string_def skip_body_escape)

definition quiet :: "char \<Rightarrow> bool" where
  \<comment> \<open>characters of numbers and truth values\<close>
  "quiet c \<longleftrightarrow> is_digit c \<or> c = CHR ''-'' \<or> c \<in> set ''truefals''"

lemma skip_nested_char:
  "0 < d \<Longrightarrow> c \<noteq> CHR 0x22 \<Longrightarrow> c \<noteq> op \<Longrightarrow> c \<noteq> cl \<Longrightarrow> skip_nested op cl d (c # r) = skip_nested op cl d r"
  by (subst skip_nested.simps) simp

definition bracket_pair :: "char \<Rightarrow> char \<Rightarrow> bool" where
  "bracket_pair op cl \<longleftrightarrow> (op, cl) = (CHR ''{'', CHR ''}'') \<or> (op, cl) = (CHR ''['', CHR '']'')"

lemma quiet_not_special: "quiet c \<Longrightarrow> c \<notin> {CHR 0x22, CHR ''{'', CHR ''}'', CHR ''['', CHR '']'', CHR '',''} \<and> \<not> is_ws c"
  by (auto simp: quiet_def is_digit_def is_ws_def)

lemma skip_nested_quiet:
  "0 < d \<Longrightarrow> bracket_pair op cl \<Longrightarrow> list_all quiet t \<Longrightarrow> skip_nested op cl d (t @ r) = skip_nested op cl d r"
proof (induction t)
  case (Cons c t)
  then have "c \<noteq> CHR 0x22" "c \<noteq> op" "c \<noteq> cl" using quiet_not_special [of c] by (auto simp: bracket_pair_def)
  with Cons show ?case by (simp add: skip_nested_char)
qed simp

lemma show_int_quiet: "list_all quiet (show_int i)"
  using show_nat_digits by (auto simp: show_int_def list_all_iff quiet_def)

lemma show_bool_quiet: "list_all quiet (if b then ''true'' else ''false'')"
  by (auto simp: quiet_def)

lemma skip_nested_open: "0 < d \<Longrightarrow> op \<noteq> CHR 0x22 \<Longrightarrow> skip_nested op cl d (op # r) = skip_nested op cl (d + 1) r"
  by (subst skip_nested.simps) simp

lemma skip_nested_close:
  "0 < d \<Longrightarrow> cl \<noteq> CHR 0x22 \<Longrightarrow> cl \<noteq> op \<Longrightarrow> skip_nested op cl d (cl # r) = skip_nested op cl (d - 1) r"
  by (subst skip_nested.simps) simp

lemma skip_nested_join:
  assumes "0 < d" "bracket_pair op cl" "\<And>t d r. t \<in> set ts \<Longrightarrow> 0 < d \<Longrightarrow> skip_nested op cl d (t @ r) = skip_nested op cl d r"
  shows "skip_nested op cl d (join ts @ r) = skip_nested op cl d r"
  using assms(3)
proof (induction ts rule: join.induct)
  case (3 t u ts)
  have "skip_nested op cl d (CHR '','' # join (u # ts) @ r) = skip_nested op cl d (join (u # ts) @ r)"
    using assms(1,2) by (intro skip_nested_char) (auto simp: bracket_pair_def)
  with 3 assms(1) show ?case by simp
qed (use assms(1) in simp_all)

lemma skip_nested_json:
  "0 < d \<Longrightarrow> bracket_pair op cl \<Longrightarrow> skip_nested op cl d (show_json t @ r) = skip_nested op cl d r"
proof (induction t arbitrary: d r)
  case (JObj kvs)
  have field: "skip_nested op cl d' ((quoted k @ '':'' @ show_json v) @ r') = skip_nested op cl d' r'"
    if "(k, v) \<in> set kvs" "0 < d'" for k v d' r'
  proof -
    have "skip_nested op cl d' (CHR '':'' # show_json v @ r') = skip_nested op cl d' (show_json v @ r')"
      using that(2) JObj.prems(2) by (intro skip_nested_char) (auto simp: bracket_pair_def)
    then show ?thesis using skip_nested_quoted [OF that(2)] JObj.IH [OF that(1), of v d' r'] that(2) JObj.prems(2)
      by (simp add: snds.simps)
  qed
  have body: "skip_nested op cl d' (join (map (\<lambda>(k, v). quoted k @ '':'' @ show_json v) kvs) @ r') = skip_nested op cl d' r'" if "0 < d'" for d' r'
    using that JObj.prems(2) field by (intro skip_nested_join) auto
  show ?case
    using JObj.prems(2) body [of d] body [of "d + 1"] JObj.prems(1)
    by (auto simp: bracket_pair_def skip_nested_open skip_nested_close skip_nested_char)
next
  case (JArr vs)
  have body: "skip_nested op cl d' (join (map show_json vs) @ r') = skip_nested op cl d' r'" if "0 < d'" for d' r'
    using that JArr by (intro skip_nested_join) auto
  show ?case
    using JArr.prems(2) body [of d] body [of "d + 1"] JArr.prems(1)
    by (auto simp: bracket_pair_def skip_nested_open skip_nested_close skip_nested_char)
next
  case (JStr s)
  then show ?case by (simp add: skip_nested_quoted)
next
  case (JInt i)
  then show ?case by (simp add: skip_nested_quiet show_int_quiet)
next
  case (JBool b)
  then show ?case using skip_nested_quiet [OF JBool show_bool_quiet] by simp
qed

lemma show_json_first: "\<exists>c r. show_json t = c # r \<and> \<not> is_ws c"
proof (cases t)
  case (JInt i)
  obtain c r where "show_int i = c # r" by (cases "show_int i") (auto simp: show_int_def split: if_splits)
  with show_int_quiet [of i] quiet_not_special [of c] JInt show ?thesis by simp
qed (auto simp: quoted_def is_ws_def)

lemma skip_ws_json [simp]: "skip_ws (show_json t @ r) = show_json t @ r"
  using show_json_first [of t] by (auto simp: skip_ws_def)

lemma skip_ws_char [simp]: "\<not> is_ws c \<Longrightarrow> skip_ws (c # r) = c # r"
  by (simp add: skip_ws_def)

lemma ws_punct [simp]: "\<not> is_ws (CHR '','')" "\<not> is_ws (CHR ''}'')" "\<not> is_ws (CHR '':'')" "\<not> is_ws (CHR 0x22)" "\<not> is_ws (CHR ''{'')"
  by (simp_all add: is_ws_def)

lemma skip_plain:
  "t \<noteq> [] \<Longrightarrow> list_all quiet t \<Longrightarrow> c = CHR '','' \<or> c = CHR ''}'' \<Longrightarrow> skip_value (t @ c # r) = Some (c # r)"
proof -
  assume t: "t \<noteq> []" "list_all quiet t" and c: "c = CHR '','' \<or> c = CHR ''}''"
  obtain x xs where x: "t = x # xs" using t(1) by (cases t) auto
  then have q: "x \<notin> {CHR 0x22, CHR ''{'', CHR ''}'', CHR ''['', CHR '']'', CHR '',''}" "\<not> is_ws x" using t(2) quiet_not_special [of x] by auto
  have "dropWhile (\<lambda>c. c \<noteq> CHR '','' \<and> c \<noteq> CHR ''}'' \<and> \<not> is_ws c) (t @ c # r) = c # r"
    using t(2) c quiet_not_special by (subst dropWhile_append2) (auto simp: list_all_iff)
  with x q show ?thesis by (simp add: skip_value_def)
qed

lemma skip_value_json:
  assumes "c = CHR '','' \<or> c = CHR ''}''"
  shows "skip_value (show_json t @ c # r) = Some (c # r)"
proof (cases t)
  case (JObj kvs)
  have "skip_nested (CHR ''{'') (CHR ''}'') 1 (show_json t @ c # r) = skip_nested (CHR ''{'') (CHR ''}'') 1 (c # r)"
    by (rule skip_nested_json) (simp_all add: bracket_pair_def)
  have "skip_nested (CHR ''{'') (CHR ''}'') 1 (join (map (\<lambda>(k, v). quoted k @ '':'' @ show_json v) kvs) @ CHR ''}'' # c # r) =
      skip_nested (CHR ''{'') (CHR ''}'') 1 (CHR ''}'' # c # r)"
  proof (rule skip_nested_join)
    fix t d r
    assume "t \<in> set (map (\<lambda>(k, v). quoted k @ '':'' @ show_json v) kvs)" "0 < (d :: nat)"
    then obtain k v where t: "t = quoted k @ '':'' @ show_json v" by auto
    show "skip_nested (CHR ''{'') (CHR ''}'') d (t @ r) = skip_nested (CHR ''{'') (CHR ''}'') d r"
      using \<open>0 < d\<close> skip_nested_json [of d "CHR ''{''" "CHR ''}''" v r]
      by (simp add: t skip_nested_quoted skip_nested_char bracket_pair_def)
  qed (simp_all add: bracket_pair_def)
  also have "\<dots> = Some (c # r)" by (simp add: skip_nested_close skip_nested.simps [of _ _ 0])
  finally show ?thesis by (simp add: JObj skip_value_def)
next
  case (JArr vs)
  have "skip_nested (CHR ''['') (CHR '']'') 1 (join (map show_json vs) @ CHR '']'' # c # r) = skip_nested (CHR ''['') (CHR '']'') 1 (CHR '']'' # c # r)"
    by (rule skip_nested_join) (auto simp: bracket_pair_def skip_nested_json)
  also have "\<dots> = Some (c # r)" by (simp add: skip_nested_close skip_nested.simps [of _ _ 0])
  finally show ?thesis by (simp add: JArr skip_value_def is_ws_def)
next
  case (JStr s)
  then show ?thesis using skip_string_quoted [of s "c # r"] by (simp add: skip_value_def quoted_def)
next
  case (JInt i)
  have "show_int i \<noteq> []" by (auto simp: show_int_def)
  with JInt assms show ?thesis by (simp add: skip_plain show_int_quiet)
next
  case (JBool b)
  then show ?thesis using skip_plain [OF _ show_bool_quiet assms, of b r] by (cases b) auto
qed

fun top_type :: "nat \<Rightarrow> (string \<times> json) list \<Rightarrow> string option" where
  \<comment> \<open>specification: the first field called \<open>type\<close> of the object itself, its text cut to the buffer\<close>
  "top_type cap [] = None"
| "top_type cap ((k, v) # kvs) =
     (if k = ''type'' then (case v of JStr s \<Rightarrow> Some (take (cap - 1) (escape s)) | _ \<Rightarrow> None) else top_type cap kvs)"

lemma type_scan_field:
  assumes "plain_key k" "c = CHR '','' \<or> c = CHR ''}''" "0 < cap"
  shows "type_scan cap (quoted k @ CHR '':'' # show_json v @ c # r) =
    (if k = ''type'' then (case v of JStr s \<Rightarrow> Some (take (cap - 1) (escape s)) | _ \<Rightarrow> None)
     else type_scan cap (if c = CHR '','' then r else c # r))"
proof -
  have esc: "escape k = k" using assms(1) plain_escape by (simp add: plain_key_def)
  have q: "quoted k = CHR 0x22 # k @ [CHR 0x22]" by (simp add: quoted_def esc)
  have ss: "skip_string (CHR 0x22 # k @ CHR 0x22 # x) = Some x" for x using skip_string_quoted [of k x] by (simp add: q)
  obtain y ys where y: "show_json v = y # ys" "\<not> is_ws y" using show_json_first by blast
  have first: "y = CHR 0x22 \<longleftrightarrow> (\<exists>s. v = JStr s)"
  proof (cases v)
    case (JInt i)
    then have "quiet y" using show_int_quiet [of i] y(1) by (cases "show_int i") auto
    then show ?thesis using JInt quiet_not_special [of y] by auto
  next
    case (JBool b)
    then show ?thesis using y(1) by (cases b) auto
  qed (use y(1) in \<open>auto simp: quoted_def\<close>)
  have un: "type_scan cap (quoted k @ CHR '':'' # show_json v @ c # r) =
    (if k = ''type''
     then (if y \<noteq> CHR 0x22 then None
           else case skip_string (show_json v @ c # r) of None \<Rightarrow> None
                | Some ve \<Rightarrow> (let vlen = length (show_json v @ c # r) - length ve - 2
                                in Some (take (if vlen \<ge> cap then cap - 1 else vlen) (tl (show_json v @ c # r)))))
     else case skip_value (show_json v @ c # r) of None \<Rightarrow> None
          | Some ve \<Rightarrow> (let p4 = skip_ws ve in type_scan cap (if p4 \<noteq> [] \<and> hd p4 = CHR '','' then tl p4 else p4)))"
    by (subst type_scan.simps) (simp add: q ss y Let_def split: option.split)
  show ?thesis
  proof (cases "k = ''type''")
    case True
    show ?thesis
    proof (cases "\<exists>s. v = JStr s")
      case True
      then obtain s where v: "v = JStr s" by blast
      have "y = CHR 0x22" using first True by blast
      moreover have "skip_string (show_json v @ c # r) = Some (c # r)" using skip_string_quoted [of s "c # r"] by (simp add: v)
      moreover have "tl (show_json v @ c # r) = escape s @ CHR 0x22 # c # r" "length (show_json v @ c # r) = length (escape s) + length r + 3"
        by (simp_all add: v quoted_def)
      ultimately show ?thesis unfolding un using \<open>k = ''type''\<close> assms(3) v by (simp add: Let_def)
    next
      case False
      with first have "y \<noteq> CHR 0x22" by blast
      moreover have "(case v of JStr s \<Rightarrow> Some (take (cap - 1) (escape s)) | _ \<Rightarrow> None) = None" using False by (cases v) auto
      ultimately show ?thesis unfolding un using \<open>k = ''type''\<close> by simp
    qed
  next
    case False
    then show ?thesis unfolding un using skip_value_json [OF assms(2), of v r] assms(2) by auto
  qed
qed

lemma type_scan_fields:
  assumes "0 < cap" "list_all (\<lambda>(k, v). plain_key k) kvs"
  shows "type_scan cap (join (map (\<lambda>(k, v). quoted k @ '':'' @ show_json v) kvs) @ ''}'') = top_type cap kvs"
  using assms(2)
proof (induction kvs rule: induct_list012)
  case 1
  then show ?case by (subst type_scan.simps) simp
next
  case (2 kv)
  obtain k v where kv: "kv = (k, v)" by (cases kv)
  have "type_scan cap ''}'' = None" by (subst type_scan.simps) simp
  with 2 type_scan_field [of k "CHR ''}''" cap v "[]"] assms(1) show ?case by (simp add: kv)
next
  case (3 kv kv' kvs)
  obtain k v where kv: "kv = (k, v)" by (cases kv)
  from 3 show ?case
    using type_scan_field [of k "CHR '',''" cap v "join (map (\<lambda>(k, v). quoted k @ '':'' @ show_json v) (kv' # kvs)) @ ''}''"] assms(1)
    by (simp add: kv)
qed

section \<open>Properties\<close>


definition one_byte :: "string \<Rightarrow> nat \<Rightarrow> int \<times> string \<times> string" where
  \<comment> \<open>a pipe that delivers one byte per call\<close>
  "one_byte c n = (case c of [] \<Rightarrow> (0, [], []) | x # xs \<Rightarrow> (1, [x], xs))"

lemma one_byte_reads: "reads_from one_byte (\<lambda>c. c)"
  by (auto simp: reads_from_def one_byte_def split: list.split)


text \<open>C10. A frame that was written is the frame that is read: writing an object of at most one megabyte appends its header and text to
  the stream whatever pieces the transport takes, and reading it at the other end, in whatever pieces it arrives, returns the text and
  leaves what follows.\<close>

theorem frame_roundtrip:
  assumes "writes_to wr out" "reads_from rd inp" "2 \<le> length payload" "payload ! 0 = CHR ''{''"
    "length payload \<le> PS_AGENT_FRAME_MAX" "length payload \<le> cap"
  shows "\<exists>c'. ps_ap_write_frame wr c payload = (PS_AP_OK, c') \<and> out c' = out c @ frame_hdr (length payload) @ payload \<and>
    (inp d = frame_hdr (length payload) @ payload @ rest \<longrightarrow>
      (\<exists>d'. ps_ap_read_frame rd d cap = (PS_AP_OK, payload, d') \<and> inp d' = rest))"
proof -
  obtain c1 where c1: "io_write_all wr c (frame_hdr (length payload)) = (PS_AP_OK, c1)" "out c1 = out c @ frame_hdr (length payload)"
    using io_write_all_to [OF assms(1)] by blast
  obtain c2 where c2: "io_write_all wr c1 payload = (PS_AP_OK, c2)" "out c2 = out c1 @ payload" using io_write_all_to [OF assms(1)] by blast
  have w: "ps_ap_write_frame wr c payload = (PS_AP_OK, c2)" using assms(5) c1 c2 by (simp add: ps_ap_write_frame_def)
  have r: "\<exists>d'. ps_ap_read_frame rd d cap = (PS_AP_OK, payload, d') \<and> inp d' = rest" if "inp d = frame_hdr (length payload) @ payload @ rest"
  proof -
    have len: "frame_len (inp d) = length payload"
      using frame_len_hdr [of "length payload"] assms(5) frame_len_take [of "inp d"] that by simp
    have "payload \<noteq> []" using assms(3) by auto
    then have "inp d ! 4 = payload ! 0" using that by (simp add: nth_append)
    then have "frame_outcome (inp d) cap = PS_AP_OK" using len assms(3-6) that by (simp add: frame_outcome_def)
    with read_frame_lemma [OF assms(2), of d cap] len that show ?thesis
      by (cases "ps_ap_read_frame rd d cap") auto
  qed
  from w r c1 c2 show ?thesis by simp
qed

definition two_bytes :: "string \<Rightarrow> string \<Rightarrow> int \<times> string" where
  \<comment> \<open>a pipe that takes at most two bytes per call\<close>
  "two_bytes c buf = (int (min 2 (length buf)), c @ take 2 buf)"

lemma two_bytes_writes: "writes_to two_bytes (\<lambda>c. c)"
  by (auto simp: writes_to_def two_bytes_def min_def)

theorem frame_roundtrip_witness:
  "\<exists>c'. ps_ap_write_frame two_bytes [] ''{}'' = (PS_AP_OK, c') \<and> c' = [] @ frame_hdr (length ''{}'') @ ''{}'' \<and>
    (frame_hdr (length ''{}'') @ ''{}'' @ ''x'' = frame_hdr (length ''{}'') @ ''{}'' @ ''x'' \<longrightarrow>
      (\<exists>d'. ps_ap_read_frame one_byte (frame_hdr (length ''{}'') @ ''{}'' @ ''x'') 10 = (PS_AP_OK, ''{}'', d') \<and> d' = ''x''))"
  by (rule frame_roundtrip [OF two_bytes_writes one_byte_reads]) simp_all

text \<open>C23. The scanner that classifies a message agrees with a parse of it: on the text of any JSON object written by the program,
  \<open>ps_ap_frame_type\<close> returns the string of the object's own field \<open>type\<close>, never one that is nested in another value or quoted in a string,
  and fails when there is none or when it is not a string.\<close>

theorem frame_type_document:
  assumes "wf_json (JObj kvs)" "0 < cap"
  shows "ps_ap_frame_type (show_json (JObj kvs)) cap = top_type cap kvs"
proof -
  have "list_all (\<lambda>(k, v). plain_key k) kvs" using assms(1) by (auto simp: list_all_iff)
  from type_scan_fields [OF assms(2) this] assms(2) show ?thesis by (simp add: ps_ap_frame_type_def)
qed

theorem frame_type_document_witness:
  "ps_ap_frame_type (show_json (JObj [(''a'', JObj [(''type'', JStr ''x'')]), (''type'', JStr ''hello'')])) 16 = Some ''hello''"
proof -
  have k: "plain_key ''a''" "plain_key ''type''" by code_simp+
  have "wf_json (JObj [(''a'', JObj [(''type'', JStr ''x'')]), (''type'', JStr ''hello'')])"
    using k by (simp add: is_cstr_def)
  from frame_type_document [OF this, of 16] show ?thesis by (simp add: escape_char_def)
qed

end
