(* ===== verification/Seen_Set.thy ===== *)
theory Seen_Set
  imports Prelude
begin

text \<open>
  The first-seen filter that \<open>policy_overwatch.c\<close> and \<open>baseline_monitor.c\<close> each keep: an array of
  keys written round robin, searched from the newest key to the oldest. A key that is found is
  suppressed; any other key overwrites the oldest slot. The locale \<open>seen_filter\<close> is what the
  detectors rely on, and its lemmas show that a run of keys is reported once each as long as
  the distinct keys fit the array.
\<close>

section \<open>The array of keys\<close>

record seen_set =
  sn_keys :: "string list"
  sn_head :: nat
  sn_count :: nat

definition seen_zero :: "nat \<Rightarrow> seen_set" where
  \<comment> \<open>the zeroed structure with \<open>n\<close> slots\<close>
  "seen_zero n = \<lparr>sn_keys = replicate n [], sn_head = 0, sn_count = 0\<rparr>"

definition seen_slot :: "nat \<Rightarrow> seen_set \<Rightarrow> nat \<Rightarrow> string" where
  \<comment> \<open>\<open>keys[(head - 1 - i + N) % N]\<close>\<close>
  "seen_slot n s i = sn_keys s ! ((sn_head s + n - 1 - i) mod n)"

definition seen_put :: "nat \<Rightarrow> nat \<Rightarrow> seen_set \<Rightarrow> string \<Rightarrow> bool \<times> seen_set" where
  \<comment> \<open>\<open>n\<close> slots of \<open>cap\<close> bytes; the result is whether the key was there\<close>
  "seen_put n cap s key =
     (if list_ex (\<lambda>i. seen_slot n s i = key) [0..<sn_count s] then (True, s)
      else (False,
        s\<lparr>sn_keys := (sn_keys s)[sn_head s := snprintf_s cap key],
          sn_head := (sn_head s + 1) mod n,
          sn_count := (if sn_count s < n then sn_count s + 1 else sn_count s)\<rparr>))"

section \<open>The contract\<close>

fun fresh :: "string set \<Rightarrow> (string \<times> 'a) list \<Rightarrow> (string \<times> 'a) list" where
  \<comment> \<open>specification: of each key outside \<open>old\<close> the first report\<close>
  "fresh old [] = []"
| "fresh old (kx # r) = (if fst kx \<in> old then fresh old r else kx # fresh (insert (fst kx) old) r)"

lemma fresh_append: "fresh old (xs @ ys) = fresh old xs @ fresh (old \<union> fst ` set xs) ys"
  by (induction xs arbitrary: old) (auto simp: insert_absorb)

lemma fresh_keys: "fst ` set (fresh old xs) = fst ` set xs - old"
  by (induction xs arbitrary: old) auto

lemma fresh_distinct: "distinct (map fst (fresh old xs))"
proof (induction xs arbitrary: old)
  case (Cons kx xs)
  have "fst kx \<notin> fst ` set (fresh (insert (fst kx) old) xs)" unfolding fresh_keys by simp
  with Cons show ?case by simp
qed simp

lemma fresh_subset: "set (fresh old xs) \<subseteq> set xs"
proof (induction xs arbitrary: old)
  case (Cons kx xs)
  have "set (fresh old xs) \<subseteq> set xs" "set (fresh (insert (fst kx) old) xs) \<subseteq> set xs" by (rule Cons)+
  then show ?case by auto
qed simp

lemma fresh_all_old: "fst ` set xs \<subseteq> old \<Longrightarrow> fresh old xs = []"
  by (induction xs) auto

fun feed :: "('s \<Rightarrow> string \<Rightarrow> bool \<times> 's) \<Rightarrow> 's \<Rightarrow> (string \<times> 'a) list \<Rightarrow> (string \<times> 'a) list \<times> 's" where
  \<comment> \<open>the reports that a filter lets through, and its state afterwards\<close>
  "feed add s [] = ([], s)"
| "feed add s (kx # r) =
     (let (known, s') = add s (fst kx); (out, t) = feed add s' r in (if known then out else kx # out, t))"

lemma feed_append:
  "feed add s (xs @ ys) = (let (o1, s1) = feed add s xs; (o2, s2) = feed add s1 ys in (o1 @ o2, s2))"
  by (induction xs arbitrary: s) (auto simp: Let_def split: prod.splits)

locale seen_filter =
  fixes add :: "'s \<Rightarrow> string \<Rightarrow> bool \<times> 's" and recent :: "'s \<Rightarrow> string list" and inv :: "'s \<Rightarrow> bool"
    and n :: nat and cap :: nat
  assumes add_inv: "inv s \<Longrightarrow> length k < cap \<Longrightarrow> inv (snd (add s k))"
    and add_known: "inv s \<Longrightarrow> k \<in> set (recent s) \<Longrightarrow> add s k = (True, s)"
    and add_new: "inv s \<Longrightarrow> k \<notin> set (recent s) \<Longrightarrow> length k < cap \<Longrightarrow>
      \<not> fst (add s k) \<and> recent (snd (add s k)) = take n (k # recent s)"
    and recent_distinct: "inv s \<Longrightarrow> distinct (recent s)"
begin

lemma add_fits:
  assumes "inv s" "length k < cap" "card (insert k (set (recent s))) \<le> n"
  shows "fst (add s k) \<longleftrightarrow> k \<in> set (recent s)" "set (recent (snd (add s k))) = insert k (set (recent s))"
proof -
  show "fst (add s k) \<longleftrightarrow> k \<in> set (recent s)"
    using add_known [OF assms(1)] add_new [OF assms(1) _ assms(2)] by (cases "k \<in> set (recent s)") auto
  show "set (recent (snd (add s k))) = insert k (set (recent s))"
  proof (cases "k \<in> set (recent s)")
    case True
    then show ?thesis using add_known [OF assms(1)] by auto
  next
    case False
    then have "length (k # recent s) \<le> n"
      using assms(3) recent_distinct [OF assms(1)] by (simp add: distinct_card)
    then have "take n (k # recent s) = k # recent s" by (rule take_all)
    with add_new [OF assms(1) False assms(2)] show ?thesis by simp
  qed
qed

lemma feed_fresh:
  assumes "inv s" "list_all (\<lambda>kx. length (fst kx) < cap) xs" "card (set (recent s) \<union> fst ` set xs) \<le> n"
  shows "fst (feed add s xs) = fresh (set (recent s)) xs \<and> inv (snd (feed add s xs)) \<and>
    set (recent (snd (feed add s xs))) = set (recent s) \<union> fst ` set xs"
  using assms
proof (induction xs arbitrary: s)
  case (Cons kx xs)
  let ?s = "snd (add s (fst kx))"
  have eq: "set (recent s) \<union> fst ` set (kx # xs) = insert (fst kx) (set (recent s)) \<union> fst ` set xs" by auto
  have "card (insert (fst kx) (set (recent s))) \<le> card (set (recent s) \<union> fst ` set (kx # xs))"
    unfolding eq by (rule card_mono) auto
  with Cons.prems have fits: "fst (add s (fst kx)) \<longleftrightarrow> fst kx \<in> set (recent s)"
    "set (recent ?s) = insert (fst kx) (set (recent s))" by (intro add_fits; simp)+
  have "card (set (recent ?s) \<union> fst ` set xs) \<le> n" using Cons.prems(3) unfolding fits(2) eq .
  moreover have "inv ?s" "list_all (\<lambda>kx. length (fst kx) < cap) xs" using Cons.prems add_inv by simp_all
  ultimately have ih: "fst (feed add ?s xs) = fresh (insert (fst kx) (set (recent s))) xs"
    "inv (snd (feed add ?s xs))"
    "set (recent (snd (feed add ?s xs))) = insert (fst kx) (set (recent s)) \<union> fst ` set xs"
    using Cons.IH [of ?s] unfolding fits(2) by blast+
  have "feed add s (kx # xs) =
      (if fst kx \<in> set (recent s) then fst (feed add ?s xs) else kx # fst (feed add ?s xs), snd (feed add ?s xs))"
    unfolding feed.simps using fits(1) by (simp add: Let_def split_def)
  then show ?case using ih unfolding eq by (simp add: insert_absorb)
qed simp

end

section \<open>The array implements the filter\<close>

definition seen_recent :: "nat \<Rightarrow> seen_set \<Rightarrow> string list" where
  \<comment> \<open>abstraction: the stored keys, newest first\<close>
  "seen_recent n s = map (seen_slot n s) [0..<sn_count s]"

definition seen_inv :: "nat \<Rightarrow> seen_set \<Rightarrow> bool" where
  "seen_inv n s \<longleftrightarrow> length (sn_keys s) = n \<and> sn_head s < n \<and> sn_count s \<le> n \<and> distinct (seen_recent n s)"

lemma seen_zero_inv: "0 < n \<Longrightarrow> seen_inv n (seen_zero n) \<and> seen_recent n (seen_zero n) = []"
  by (simp add: seen_inv_def seen_zero_def seen_recent_def)

lemma seen_put_known: "k \<in> set (seen_recent n s) \<Longrightarrow> seen_put n cap s k = (True, s)"
  by (auto simp: seen_put_def seen_recent_def list_ex_iff)

lemma back_index:
  fixes h n i :: nat
  assumes "h < n" "i < n"
  shows "((h + 1) mod n + n - 1 - i) mod n = (if i = 0 then h else (h + n - 1 - (i - 1)) mod n)"
proof (cases "h + 1 = n")
  case True
  then have "(h + 1) mod n + n - 1 - i = n - 1 - i" by simp
  with True assms show ?thesis by (auto simp: mod_if)
next
  case False
  with assms have "(h + 1) mod n = h + 1" by simp
  with assms show ?thesis by (auto simp: mod_if)
qed

lemma back_index_other: "h < (n :: nat) \<Longrightarrow> i + 1 < n \<Longrightarrow> (h + n - 1 - i) mod n \<noteq> h"
  by (auto simp: mod_if)

lemma seen_put_new:
  assumes inv: "seen_inv n s" and new: "k \<notin> set (seen_recent n s)"
  shows "\<not> fst (seen_put n cap s k) \<and>
    seen_recent n (snd (seen_put n cap s k)) = take n (snprintf_s cap k # seen_recent n s)"
proof -
  have put: "seen_put n cap s k = (False,
        s\<lparr>sn_keys := (sn_keys s)[sn_head s := snprintf_s cap k],
          sn_head := (sn_head s + 1) mod n,
          sn_count := (if sn_count s < n then sn_count s + 1 else sn_count s)\<rparr>)" (is "_ = (False, ?t)")
    using new by (auto simp: seen_put_def seen_recent_def list_ex_iff)
  have h: "length (sn_keys s) = n" "sn_head s < n" "sn_count s \<le> n" using inv by (simp_all add: seen_inv_def)
  have zero: "seen_slot n ?t 0 = snprintf_s cap k"
    using h back_index [of "sn_head s" n 0] by (simp add: seen_slot_def)
  have old: "seen_slot n ?t (Suc i) = seen_slot n s i" if "Suc i < n" for i
    using h that back_index [of "sn_head s" n "Suc i"] back_index_other [of "sn_head s" n i]
    by (simp add: seen_slot_def nth_list_update_neq)
  have "seen_recent n ?t = take n (snprintf_s cap k # seen_recent n s)"
  proof (rule nth_equalityI)
    show len: "length (seen_recent n ?t) = length (take n (snprintf_s cap k # seen_recent n s))"
      using h by (simp add: seen_recent_def)
    fix i
    assume i: "i < length (seen_recent n ?t)"
    have it: "seen_recent n ?t ! i = seen_slot n ?t i" using i by (simp add: seen_recent_def)
    have b: "i < n" "i < Suc (sn_count s)" using i h by (simp_all add: seen_recent_def split: if_splits)
    show "seen_recent n ?t ! i = take n (snprintf_s cap k # seen_recent n s) ! i"
    proof (cases i)
      case 0
      with it zero b show ?thesis by simp
    next
      case (Suc j)
      with b old [of j] have "seen_slot n ?t i = seen_slot n s j" by simp
      with it Suc b show ?thesis by (simp add: seen_recent_def)
    qed
  qed
  with put show ?thesis by simp
qed

lemma seen_put_inv:
  assumes inv: "seen_inv n s" and k: "length k < cap"
  shows "seen_inv n (snd (seen_put n cap s k))"
proof (cases "k \<in> set (seen_recent n s)")
  case True
  with inv show ?thesis by (simp add: seen_put_known)
next
  case False
  have "distinct (k # seen_recent n s)" using False inv by (simp add: seen_inv_def)
  then have "distinct (seen_recent n (snd (seen_put n cap s k)))"
    using seen_put_new [OF inv False, of cap] k distinct_take by simp
  with inv show ?thesis by (auto simp: seen_inv_def seen_put_def)
qed

lemma seen_filter_put: "seen_filter (seen_put n cap) (seen_recent n) (seen_inv n) n cap"
proof unfold_locales
  fix s k
  assume "seen_inv n s" "k \<notin> set (seen_recent n s)" "length k < cap"
  then show "\<not> fst (seen_put n cap s k) \<and> seen_recent n (snd (seen_put n cap s k)) = take n (k # seen_recent n s)"
    using seen_put_new [of n s k cap] by simp
qed (simp_all add: seen_put_inv seen_put_known, simp add: seen_inv_def)

end
