(* ===== verification/Overwatch.thy ===== *)
theory Overwatch
  imports Seen_Set Envelope Ring_Queues
begin

text \<open>
  The detector of sandbox violations, \<open>kernel/src/modules/policy_overwatch.c\<close>: it drains activity
  records from its ring, resolves the unit of each record, and either checks the access against
  the declared policy of the unit (mode overwatch) or adds it to the envelope of the unit (mode
  learn). Findings are the JSON texts handed to the callback, in order; files are a map from
  paths to contents.

  Shown: each violation of a run of records is reported exactly once, in order of its first
  occurrence, as long as the distinct keys fit the filter; learning a record adds the access to
  the envelope of its unit and to no other.
\<close>

section \<open>Findings\<close>

definition ps_overwatch_op_for_event :: "string option \<Rightarrow> ps_op" where
  "ps_overwatch_op_for_event event =
     (case event of
        None \<Rightarrow> OP_READ
      | Some ev \<Rightarrow> if ev = ''write'' then OP_WRITE else if ev = ''exec'' then OP_EXEC else OP_READ)"

abbreviation PS_SEEN_N :: nat where "PS_SEEN_N \<equiv> 1024"

definition ps_overwatch_seen_new :: seen_set where
  "ps_overwatch_seen_new = seen_zero PS_SEEN_N"

definition seen_check_add :: "seen_set \<Rightarrow> string \<Rightarrow> bool \<times> seen_set" where
  "seen_check_add s key = seen_put PS_SEEN_N 320 s key"

definition emitted :: "string option \<Rightarrow> string list" where
  \<comment> \<open>\<open>if (ps_json_finish(&j) > 0 && emit) emit(ctx, buf, j.len)\<close>\<close>
  "emitted t = (case t of Some s \<Rightarrow> if s = [] then [] else [s] | None \<Rightarrow> [])"

definition violation_finding ::
  "string \<Rightarrow> string \<Rightarrow> string \<Rightarrow> string \<Rightarrow> bool \<Rightarrow> string \<Rightarrow> string \<Rightarrow> string \<Rightarrow> string list" where
  "violation_finding unit directive path op heuristic comm exe mac_mode =
     (let j = ps_json_object_begin (ps_json_init 2048);
          j = ps_json_key_string j ''source'' ''agent.policy_overwatch'';
          j = ps_json_key_string j ''severity'' (if heuristic then ''medium'' else ''high'');
          j = ps_json_key_string j ''confidence'' (if heuristic then ''tentative'' else ''firm'');
          j = ps_json_key_string j ''unit'' unit;
          j = ps_json_key_string j ''directive'' directive;
          j = ps_json_key_string j ''path'' path;
          j = ps_json_key_string j ''op'' op;
          j = ps_json_key_string j ''comm'' comm;
          j = ps_json_key_string j ''exe'' exe;
          j = ps_json_key_string j ''mac_mode'' mac_mode
      in emitted (ps_json_finish (ps_json_object_end j)))"

definition violation_key :: "string \<Rightarrow> string \<Rightarrow> string \<Rightarrow> string \<Rightarrow> string" where
  "violation_key unit path opname directive =
     snprintf_s 320 (unit @ ''|'' @ path @ ''|'' @ opname @ ''|'' @ directive)"

definition overwatch_consider ::
  "seen_set \<Rightarrow> ps_unit_policy \<Rightarrow> string \<Rightarrow> string \<Rightarrow> ps_op \<Rightarrow> string \<Rightarrow> string \<Rightarrow> string \<Rightarrow> string \<Rightarrow>
   int \<times> string list \<times> seen_set" where
  \<comment> \<open>the result, the findings emitted and the filter after the call\<close>
  "overwatch_consider seen pol unit path op opname comm exe mac_mode =
     (case ps_policy_eval pol path op of
        None \<Rightarrow> (0, [], seen)
      | Some (directive, heuristic) \<Rightarrow>
          (let (known, seen) = seen_check_add seen (violation_key unit path opname directive)
           in if known then (0, [], seen)
              else (1, violation_finding unit directive path opname heuristic comm exe mac_mode, seen)))"

definition ps_overwatch_process_record ::
  "(string \<Rightarrow> string) \<Rightarrow> (string \<Rightarrow> nat \<Rightarrow> string option) \<Rightarrow> 64 word \<Rightarrow> pol_cache \<times> seen_set \<Rightarrow> string \<Rightarrow>
   int \<times> string list \<times> pol_cache \<times> seen_set" where
  "ps_overwatch_process_record stale loader now_sec st rec =
     (let (g, seen) = st; nothing = (0, [], g, seen)
      in case extract_cstr rec ''event'' 16 of None \<Rightarrow> nothing | Some event \<Rightarrow>
         (case extract_cstr rec ''path'' 512 of None \<Rightarrow> nothing | Some path \<Rightarrow>
         (case extract_cstr rec ''cgroup'' 256 of None \<Rightarrow> nothing | Some cgroup \<Rightarrow>
         (case ps_cgroup_to_unit cgroup 128 of None \<Rightarrow> nothing | Some unit \<Rightarrow>
           let comm = extract_into stale rec ''comm'' 64;
               exe = extract_into stale rec ''exe'' 256;
               mac = extract_into stale rec ''mode'' 32;
               (pol, g) = ps_unit_policy_get loader g unit now_sec 300
           in if \<not> known pol then (0, [], g, seen)
              else let op = ps_overwatch_op_for_event (Some event);
                       (n1, out1, seen) = overwatch_consider seen pol unit path op event comm exe mac
                   in if op = OP_EXEC
                      then let (n2, out2, seen) = overwatch_consider seen pol unit path OP_READ ''exec'' comm exe mac
                           in (n1 + n2, out1 @ out2, g, seen)
                      else (n1, out1, g, seen)))))"

section \<open>Learning\<close>

fun unit_index :: "ps_unit_envelope list \<Rightarrow> string \<Rightarrow> nat option" where
  "unit_index [] unit = None"
| "unit_index (e # es) unit = (if env_unit e = unit then Some 0 else map_option Suc (unit_index es unit))"

definition ps_overwatch_learn_record ::
  "nat \<Rightarrow> ps_unit_envelope list \<Rightarrow> string \<Rightarrow> int \<times> ps_unit_envelope list" where
  \<comment> \<open>\<open>envs\<close> holds the first \<open>n_envs\<close> entries of the array of \<open>max_envs\<close>\<close>
  "ps_overwatch_learn_record max_envs envs rec =
     (case extract_cstr rec ''event'' 16 of None \<Rightarrow> (- 1, envs) | Some event \<Rightarrow>
     (case extract_cstr rec ''path'' 512 of None \<Rightarrow> (- 1, envs) | Some path \<Rightarrow>
     (case extract_cstr rec ''cgroup'' 256 of None \<Rightarrow> (- 1, envs) | Some cgroup \<Rightarrow>
     (case ps_cgroup_to_unit cgroup 128 of None \<Rightarrow> (- 1, envs) | Some unit \<Rightarrow>
       (case unit_index envs unit of
          Some i \<Rightarrow> (int i, envs[i := ps_envelope_add (envs ! i) (Some event) (Some path)])
        | None \<Rightarrow>
            if length envs \<ge> max_envs then (- 1, envs)
            else (int (length envs), envs @ [ps_envelope_add (ps_envelope_init (Some unit)) (Some event) (Some path)]))))))"

section \<open>The module\<close>

abbreviation PS_LEARN_MAX_UNITS :: nat where "PS_LEARN_MAX_UNITS \<equiv> 256"

record overwatch_state =
  ow_mode :: nat
  ow_consumer :: int
  ow_seen :: seen_set
  ow_envs :: "ps_unit_envelope list"
  ow_state_dir :: string
  ow_last_flush_us :: "64 word"

definition overwatch_init :: "(string \<Rightarrow> string option) \<Rightarrow> act_ring \<Rightarrow> overwatch_state \<times> act_ring" where
  \<comment> \<open>\<open>getenv\<close>: the environment; the allocations succeed\<close>
  "overwatch_init getenv r =
     (let m = getenv ''PS_DETECT_POLICY_MODE'';
          mode = (if m = Some ''learn'' then 2 else if m = Some ''overwatch'' then 1 else 0);
          (consumer, r) = (if mode \<noteq> 0 then ps_act_ring_register r else (- 1, r));
          dir = (if mode = 2
                 then snprintf_s 256 (case getenv ''PS_DETECT_LEARN_STATE_DIR'' of
                        Some d \<Rightarrow> if d \<noteq> [] then d else ''/var/lib/packetsonde/sandbox-learn''
                      | None \<Rightarrow> ''/var/lib/packetsonde/sandbox-learn'')
                 else [])
      in (\<lparr>ow_mode = mode, ow_consumer = consumer, ow_seen = ps_overwatch_seen_new, ow_envs = [],
           ow_state_dir = dir, ow_last_flush_us = 0\<rparr>, r))"

type_synonym files = "string \<Rightarrow> string option"

definition learn_flush :: "(string \<Rightarrow> bool) \<Rightarrow> overwatch_state \<Rightarrow> files \<Rightarrow> files" where
  \<comment> \<open>\<open>can_open path\<close>: opening the file for writing succeeds\<close>
  "learn_flush can_open st fs =
     foldl (\<lambda>fs e.
         case ps_envelope_to_json e 65536 of
           None \<Rightarrow> fs
         | Some buf \<Rightarrow>
             (if buf = [] then fs
              else let path = snprintf_s 400 (ow_state_dir st @ ''/'' @ env_unit e @ ''.json'')
                   in if can_open path then fs(path \<mapsto> buf) else fs))
       fs (ow_envs st)"

definition overwatch_shutdown :: "(string \<Rightarrow> bool) \<Rightarrow> overwatch_state option \<Rightarrow> files \<Rightarrow> files" where
  "overwatch_shutdown can_open st fs =
     (case st of None \<Rightarrow> fs | Some st \<Rightarrow> if ow_mode st = 2 then learn_flush can_open st fs else fs)"

definition publish_emit :: "string \<Rightarrow> string \<times> string" where
  "publish_emit json = (''policy.sandbox.violation'', json)"

fun overwatch_records ::
  "(string \<Rightarrow> string) \<Rightarrow> (string \<Rightarrow> nat \<Rightarrow> string option) \<Rightarrow> 64 word \<Rightarrow> pol_cache \<times> seen_set \<Rightarrow> string list \<Rightarrow>
   string list \<times> pol_cache \<times> seen_set" where
  \<comment> \<open>the loop over the drained records\<close>
  "overwatch_records stale loader now st [] = ([], st)"
| "overwatch_records stale loader now st (rec # rs) =
     (let (_, out, st) = ps_overwatch_process_record stale loader now st rec;
          (outs, st) = overwatch_records stale loader now st rs
      in (out @ outs, st))"

definition overwatch_tick ::
  "(string \<Rightarrow> string) \<Rightarrow> (string \<Rightarrow> string option) \<Rightarrow> (string \<Rightarrow> bool) \<Rightarrow>
   overwatch_state \<Rightarrow> act_ring \<Rightarrow> pol_cache \<Rightarrow> files \<Rightarrow> 64 word \<Rightarrow>
   (string \<times> string) list \<times> overwatch_state \<times> act_ring \<times> pol_cache \<times> files" where
  \<comment> \<open>the messages published, and the states after the call; a drained item is read as a C string\<close>
  "overwatch_tick stale popen can_open st r g fs now_usec =
     (if ow_mode st = 0 then ([], st, r, g, fs)
      else let (items, r) = ps_act_ring_drain r (ow_consumer st) 64;
               items = map cstr_of items
           in if ow_mode st = 1
              then let (outs, g, seen) = overwatch_records stale (ps_unit_policy_load_systemctl popen)
                         (now_usec div 1000000) (g, ow_seen st) items
                   in (map publish_emit outs, st\<lparr>ow_seen := seen\<rparr>, r, g, fs)
              else let st = st\<lparr>ow_envs := foldl (\<lambda>envs rec. snd (ps_overwatch_learn_record PS_LEARN_MAX_UNITS envs rec))
                                 (ow_envs st) items\<rparr>
                   in if now_usec - ow_last_flush_us st > 10000000
                      then ([], st\<lparr>ow_last_flush_us := now_usec\<rparr>, r, g, learn_flush can_open st fs)
                      else ([], st, r, g, fs))"

section \<open>Every violation is reported once\<close>

lemma seen_check_add_put: "seen_check_add = seen_put PS_SEEN_N 320"
  by (intro ext) (simp add: seen_check_add_def)

interpretation owseen: seen_filter seen_check_add "seen_recent PS_SEEN_N" "seen_inv PS_SEEN_N" PS_SEEN_N 320
  unfolding seen_check_add_put by (rule seen_filter_put)

record ow_access =
  a_unit :: string
  a_path :: string
  a_event :: string

definition record_access :: "string \<Rightarrow> ow_access option" where
  \<comment> \<open>specification: the unit, the path and the event of a record, if it has them\<close>
  "record_access rec =
     (case (extract_cstr rec ''event'' 16, extract_cstr rec ''path'' 512, extract_cstr rec ''cgroup'' 256) of
        (Some event, Some path, Some cgroup) \<Rightarrow>
          map_option (\<lambda>unit. \<lparr>a_unit = unit, a_path = path, a_event = event\<rparr>) (ps_cgroup_to_unit cgroup 128)
      | _ \<Rightarrow> None)"

definition access_ops :: "string \<Rightarrow> ps_op list" where
  \<comment> \<open>specification: an execution also reads the file\<close>
  "access_ops event = (if event = ''write'' then [OP_WRITE] else if event = ''exec'' then [OP_EXEC, OP_READ] else [OP_READ])"

definition access_violations ::
  "(string \<Rightarrow> string) \<Rightarrow> string \<Rightarrow> ps_unit_policy \<Rightarrow> ow_access \<Rightarrow> (string \<times> string list) list" where
  \<comment> \<open>specification: the key and the finding of each way the access violates the policy\<close>
  "access_violations stale rec pol a =
     concat (map (\<lambda>op. case ps_policy_eval pol (a_path a) op of
           None \<Rightarrow> []
         | Some (directive, heuristic) \<Rightarrow>
             [(violation_key (a_unit a) (a_path a) (a_event a) directive,
               violation_finding (a_unit a) directive (a_path a) (a_event a) heuristic
                 (extract_into stale rec ''comm'' 64) (extract_into stale rec ''exe'' 256)
                 (extract_into stale rec ''mode'' 32))])
       (access_ops (a_event a)))"

definition record_violations ::
  "(string \<Rightarrow> string) \<Rightarrow> (string \<Rightarrow> nat \<Rightarrow> string option) \<Rightarrow> 64 word \<Rightarrow> pol_cache \<Rightarrow> string \<Rightarrow>
   (string \<times> string list) list \<times> pol_cache" where
  "record_violations stale loader now g rec =
     (case record_access rec of
        None \<Rightarrow> ([], g)
      | Some a \<Rightarrow> (let (pol, g) = ps_unit_policy_get loader g (a_unit a) now 300 in (access_violations stale rec pol a, g)))"

fun all_violations ::
  "(string \<Rightarrow> string) \<Rightarrow> (string \<Rightarrow> nat \<Rightarrow> string option) \<Rightarrow> 64 word \<Rightarrow> pol_cache \<Rightarrow> string list \<Rightarrow>
   (string \<times> string list) list \<times> pol_cache" where
  "all_violations stale loader now g [] = ([], g)"
| "all_violations stale loader now g (rec # rs) =
     (let (vs, g) = record_violations stale loader now g rec; (ws, g) = all_violations stale loader now g rs
      in (vs @ ws, g))"

lemma consider_feed:
  "overwatch_consider seen pol unit path op opname comm exe mac =
     (let (out, s) = feed seen_check_add seen
            (case ps_policy_eval pol path op of
               None \<Rightarrow> []
             | Some (directive, heuristic) \<Rightarrow>
                 [(violation_key unit path opname directive,
                   violation_finding unit directive path opname heuristic comm exe mac)])
      in (int (length out), concat (map snd out), s))"
  by (auto simp: overwatch_consider_def Let_def split: option.split prod.split)

lemma eval_unknown: "\<not> known pol \<Longrightarrow> ps_policy_eval pol path op = None"
  by (simp add: ps_policy_eval_def)

lemma process_record_feed:
  "ps_overwatch_process_record stale loader now (g, seen) rec =
     (let (vs, g') = record_violations stale loader now g rec; (out, s) = feed seen_check_add seen vs
      in (int (length out), concat (map snd out), g', s))"
proof (cases "record_access rec")
  case None
  then show ?thesis
    by (auto simp: ps_overwatch_process_record_def record_violations_def record_access_def split: option.splits)
next
  case (Some a)
  then obtain cgroup where ex: "extract_cstr rec ''event'' 16 = Some (a_event a)"
      "extract_cstr rec ''path'' 512 = Some (a_path a)" "extract_cstr rec ''cgroup'' 256 = Some cgroup"
      "ps_cgroup_to_unit cgroup 128 = Some (a_unit a)"
    by (auto simp: record_access_def split: option.splits)
  obtain pol h where get: "ps_unit_policy_get loader g (a_unit a) now 300 = (pol, h)" by fastforce
  show ?thesis
  proof (cases "known pol")
    case False
    then have "access_violations stale rec pol a = []" by (simp add: access_violations_def eval_unknown)
    with False show ?thesis
      by (simp add: ps_overwatch_process_record_def record_violations_def Some ex get)
  next
    case True
    note unfold = ps_overwatch_process_record_def record_violations_def Some ex get True
      ps_overwatch_op_for_event_def access_violations_def access_ops_def consider_feed feed_append Let_def split_def
    show ?thesis
    proof (cases "a_event a = ''exec''")
      case True
      show ?thesis by (simp add: unfold True cong: option.case_cong)
    next
      case False
      then show ?thesis by (simp add: unfold)
    qed
  qed
qed

lemma overwatch_records_feed:
  "overwatch_records stale loader now (g, seen) rs =
     (let (vs, g') = all_violations stale loader now g rs; (out, s) = feed seen_check_add seen vs
      in (concat (map snd out), g', s))"
proof (induction rs arbitrary: g seen)
  case (Cons rec rs)
  show ?case
    by (simp add: process_record_feed Cons.IH feed_append Let_def split_def)
qed simp

lemma access_violation_keys: "list_all (\<lambda>kx. length (fst kx) < 320) (access_violations stale rec pol a)"
  by (auto simp: access_violations_def list_all_iff violation_key_def snprintf_s_length split: option.splits)

lemma all_violation_keys: "list_all (\<lambda>kx. length (fst kx) < 320) (fst (all_violations stale loader now g rs))"
proof (induction rs arbitrary: g)
  case (Cons rec rs)
  have "list_all (\<lambda>kx. length (fst kx) < 320) (fst (record_violations stale loader now g rec))"
    using access_violation_keys by (auto simp: record_violations_def Let_def split: option.split prod.split)
  with Cons show ?case by (simp add: Let_def split_def)
qed simp

lemma overwatch_records_fresh:
  assumes "seen_inv PS_SEEN_N seen"
    and "card (set (seen_recent PS_SEEN_N seen) \<union> fst ` set (fst (all_violations stale loader now g rs))) \<le> PS_SEEN_N"
  shows "fst (overwatch_records stale loader now (g, seen) rs) =
    concat (map snd (fresh (set (seen_recent PS_SEEN_N seen)) (fst (all_violations stale loader now g rs))))"
proof -
  have "fst (overwatch_records stale loader now (g, seen) rs) =
      concat (map snd (fst (feed seen_check_add seen (fst (all_violations stale loader now g rs)))))"
    unfolding overwatch_records_feed by (simp add: Let_def split_def)
  also have "fst (feed seen_check_add seen (fst (all_violations stale loader now g rs))) =
      fresh (set (seen_recent PS_SEEN_N seen)) (fst (all_violations stale loader now g rs))"
    using owseen.feed_fresh [OF assms(1) all_violation_keys assms(2)] by blast
  finally show ?thesis .
qed


lemma sample_access:
  \<open>record_access ''{"event":"open","path":"/a/b","cgroup":"/s/c.service"}'' =
     Some \<lparr>a_unit = ''c.service'', a_path = ''/a/b'', a_event = ''open''\<rparr>\<close>
  by code_simp

definition sample_loader :: "string \<Rightarrow> nat \<Rightarrow> string option" where
  "sample_loader u cap = Some (''FragmentPath=/u'' @ CHR 0x0A # ''InaccessiblePaths=/a'')"

lemma sample_policy:
  "fst (ps_unit_policy_get sample_loader empty_cache ''c.service'' 5 300) = empty_policy\<lparr>known := True, inacc := [''/a'']\<rparr>"
  by code_simp

lemma sample_violations:
  assumes "fst (ps_unit_policy_get loader g ''c.service'' now 300) = empty_policy\<lparr>known := True, inacc := [''/a'']\<rparr>"
  shows \<open>fst (record_violations (\<lambda>_. []) loader now g ''{"event":"open","path":"/a/b","cgroup":"/s/c.service"}'') =
     [(''c.service|/a/b|open|InaccessiblePaths'',
       violation_finding ''c.service'' ''InaccessiblePaths'' ''/a/b'' ''open'' False [] [] [])]\<close>
proof -
  have eval: "ps_policy_eval (empty_policy\<lparr>known := True, inacc := [''/a'']\<rparr>) ''/a/b'' OP_READ = Some (''InaccessiblePaths'', False)"
    by code_simp
  have key: "violation_key ''c.service'' ''/a/b'' ''open'' ''InaccessiblePaths'' = ''c.service|/a/b|open|InaccessiblePaths''"
    by (simp add: violation_key_def)
  have rest:
    \<open>extract_into (\<lambda>_. []) ''{"event":"open","path":"/a/b","cgroup":"/s/c.service"}'' ''comm'' 64 = []\<close>
    \<open>extract_into (\<lambda>_. []) ''{"event":"open","path":"/a/b","cgroup":"/s/c.service"}'' ''exe'' 256 = []\<close>
    \<open>extract_into (\<lambda>_. []) ''{"event":"open","path":"/a/b","cgroup":"/s/c.service"}'' ''mode'' 32 = []\<close>
    by code_simp+
  have ops: "access_ops ''open'' = [OP_READ]" by (simp add: access_ops_def)
  show ?thesis
    by (simp only: record_violations_def sample_access option.case Let_def split_def fst_conv snd_conv
        ow_access.simps assms access_violations_def ops list.map eval key rest concat.simps append.simps append_Nil2)
qed


section \<open>Learning collects the accesses of each unit\<close>

definition env_of :: "ps_unit_envelope list \<Rightarrow> string \<Rightarrow> ps_unit_envelope option" where
  \<comment> \<open>abstraction: the envelopes as a map from units\<close>
  "env_of envs unit = find (\<lambda>e. env_unit e = unit) envs"

definition unit_events :: "string list \<Rightarrow> string \<Rightarrow> (string \<times> string) list" where
  \<comment> \<open>specification: the events and paths of the records of a unit\<close>
  "unit_events rs unit =
     map (\<lambda>a. (a_event a, a_path a)) (filter (\<lambda>a. a_unit a = unit) (List.map_filter record_access rs))"

lemma unit_index_find:
  "unit_index envs u = None \<Longrightarrow> env_of envs u = None"
  "unit_index envs u = Some i \<Longrightarrow> i < length envs \<and> env_unit (envs ! i) = u \<and> env_of envs u = Some (envs ! i)"
proof -
  show "unit_index envs u = None \<Longrightarrow> env_of envs u = None"
    by (induction envs) (auto simp: env_of_def split: if_splits)
  show "unit_index envs u = Some i \<Longrightarrow> i < length envs \<and> env_unit (envs ! i) = u \<and> env_of envs u = Some (envs ! i)"
    by (induction envs arbitrary: i) (auto simp: env_of_def split: if_splits)
qed

lemma env_of_update:
  "unit_index envs u = Some i \<Longrightarrow> env_unit e = u \<Longrightarrow>
   env_of (envs[i := e]) v = (if v = u then Some e else env_of envs v)"
  by (induction envs arbitrary: i) (auto simp: env_of_def split: if_splits nat.splits)

lemma env_of_append:
  "env_of envs (env_unit e) = None \<Longrightarrow>
   env_of (envs @ [e]) v = (if v = env_unit e then Some e else env_of envs v)"
  by (induction envs) (auto simp: env_of_def split: if_splits)

lemma env_unit_add [simp]: "env_unit (ps_envelope_add e event path) = env_unit e"
  by (simp add: ps_envelope_add_def env_set_add_def Let_def split: option.split)

lemma learn_record_step:
  "snd (ps_overwatch_learn_record m envs rec) =
     (case record_access rec of
        None \<Rightarrow> envs
      | Some a \<Rightarrow>
          (case unit_index envs (a_unit a) of
             Some i \<Rightarrow> envs[i := env_event (envs ! i) (a_event a, a_path a)]
           | None \<Rightarrow> if m \<le> length envs then envs
                     else envs @ [env_event (ps_envelope_init (Some (a_unit a))) (a_event a, a_path a)]))"
  by (simp add: ps_overwatch_learn_record_def record_access_def split: option.split)

lemma record_access_unit: "record_access rec = Some a \<Longrightarrow> length (a_unit a) < 128"
  by (auto simp: record_access_def ps_cgroup_to_unit_alt Let_def split: option.splits if_splits)

definition learn_spec :: "string list \<Rightarrow> string \<Rightarrow> ps_unit_envelope option" where
  \<comment> \<open>specification: the envelope of a unit after the records\<close>
  "learn_spec rs unit = (if unit_events rs unit = [] then None else Some (learned unit (unit_events rs unit)))"

definition units_of :: "string list \<Rightarrow> string set" where
  "units_of rs = a_unit ` set (List.map_filter record_access rs)"

lemma unit_events_snoc:
  "unit_events (rs @ [rec]) u =
     unit_events rs u @ (case record_access rec of
        Some a \<Rightarrow> if a_unit a = u then [(a_event a, a_path a)] else [] | None \<Rightarrow> [])"
  by (simp add: unit_events_def map_filter_def split: option.split)

lemma units_of_snoc:
  "units_of (rs @ [rec]) = units_of rs \<union> (case record_access rec of Some a \<Rightarrow> {a_unit a} | None \<Rightarrow> {})"
  by (auto simp: units_of_def map_filter_def split: option.split)

lemma unit_events_nonempty: "unit_events rs u \<noteq> [] \<longleftrightarrow> u \<in> units_of rs"
  by (auto simp: unit_events_def units_of_def filter_empty_conv)

lemma learned_snoc: "learned u (evs @ [ev]) = env_event (learned u evs) ev"
  by (simp add: learned_def)

lemma env_of_distinct: "distinct (map env_unit envs) \<Longrightarrow> dom (env_of envs) = env_unit ` set envs"
  by (auto simp: env_of_def dom_def find_None_iff)

lemma learn_records:
  assumes "card (units_of rs) \<le> m"
  shows "env_of (foldl (\<lambda>envs rec. snd (ps_overwatch_learn_record m envs rec)) [] rs) = learn_spec rs \<and>
    distinct (map env_unit (foldl (\<lambda>envs rec. snd (ps_overwatch_learn_record m envs rec)) [] rs))"
  using assms
proof (induction rs rule: rev_induct)
  case Nil
  show ?case by (auto simp: env_of_def learn_spec_def unit_events_def map_filter_def)
next
  case (snoc rec rs)
  let ?envs = "foldl (\<lambda>envs rec. snd (ps_overwatch_learn_record m envs rec)) [] rs"
  have fin: "finite (units_of (rs @ [rec]))" by (simp add: units_of_def)
  have "card (units_of rs) \<le> card (units_of (rs @ [rec]))" by (rule card_mono [OF fin]) (simp add: units_of_snoc)
  with snoc have ih: "env_of ?envs = learn_spec rs" "distinct (map env_unit ?envs)" by auto
  have dom: "env_unit ` set ?envs = units_of rs"
    using env_of_distinct [OF ih(2)] unfolding ih(1) by (auto simp: learn_spec_def dom_def unit_events_nonempty split: if_splits)
  show ?case
  proof (cases "record_access rec")
    case None
    with ih show ?thesis by (auto simp: learn_record_step learn_spec_def unit_events_snoc)
  next
    case (Some a)
    note step = learn_record_step [of m ?envs rec, unfolded Some option.case]
    show ?thesis
    proof (cases "unit_index ?envs (a_unit a)")
      case None
      have new: "env_of ?envs (a_unit a) = None" by (rule unit_index_find(1) [OF None])
      then have out: "a_unit a \<notin> units_of rs" unfolding ih(1) using unit_events_nonempty [of rs "a_unit a"] by (auto simp: learn_spec_def split: if_splits)
      have "length ?envs = card (units_of rs)" using ih(2) dom by (metis distinct_card length_map list.set_map)
      moreover have "card (units_of (rs @ [rec])) = Suc (card (units_of rs))"
        using out fin by (simp add: units_of_snoc Some)
      ultimately have room: "\<not> m \<le> length ?envs" using snoc.prems by simp
      have unit: "env_unit (ps_envelope_init (Some (a_unit a))) = a_unit a"
        using record_access_unit [OF Some] by (simp add: ps_envelope_init_def)
      have "unit_events rs (a_unit a) = []" using out unit_events_nonempty by blast
      then have "env_of (?envs @ [env_event (ps_envelope_init (Some (a_unit a))) (a_event a, a_path a)]) = learn_spec (rs @ [rec])"
        using new ih(1) by (intro ext) (auto simp: env_of_append unit learn_spec_def unit_events_snoc Some learned_def)
      moreover have "a_unit a \<notin> set (map env_unit ?envs)" using out dom by simp
      ultimately show ?thesis using room ih(2) step None by (simp add: unit)
    next
      case (Some i)
      note idx = unit_index_find(2) [OF Some]
      have in_rs: "unit_events rs (a_unit a) \<noteq> []" "?envs ! i = learned (a_unit a) (unit_events rs (a_unit a))"
        using idx unfolding ih(1) by (auto simp: learn_spec_def split: if_splits)
      have "env_of (?envs[i := env_event (?envs ! i) (a_event a, a_path a)]) = learn_spec (rs @ [rec])"
        using in_rs ih(1) idx \<open>record_access rec = Some a\<close>
        by (intro ext) (auto simp: env_of_update [OF Some] learn_spec_def unit_events_snoc learned_snoc)
      moreover have "map env_unit (?envs[i := env_event (?envs ! i) (a_event a, a_path a)]) = map env_unit ?envs"
        using idx by (simp add: map_update list_update_same_conv)
      ultimately show ?thesis using ih(2) step Some by (simp del: map_update)
    qed
  qed
qed

text \<open>C30. Learning is per unit: after any batch of records that name at most 256 units, the envelope kept for a
  unit is the one learned from exactly the accesses of its own records, in order, and there is
  none for a unit without records.\<close>

theorem learn_records_collect:
  assumes "card (units_of rs) \<le> PS_LEARN_MAX_UNITS"
  shows "env_of (foldl (\<lambda>envs rec. snd (ps_overwatch_learn_record PS_LEARN_MAX_UNITS envs rec)) [] rs) unit =
    (if unit \<in> units_of rs then Some (learned unit (unit_events rs unit)) else None)"
  using learn_records [OF assms] unit_events_nonempty [of rs unit] by (auto simp: learn_spec_def)

theorem learn_records_collect_witness:
  \<open>env_of (foldl (\<lambda>envs rec. snd (ps_overwatch_learn_record PS_LEARN_MAX_UNITS envs rec)) []
      [''{"event":"open","path":"/a/b","cgroup":"/s/c.service"}'']) ''c.service'' =
     Some (learned ''c.service'' [(''open'', ''/a/b'')])\<close>
proof -
  have u: \<open>units_of [''{"event":"open","path":"/a/b","cgroup":"/s/c.service"}''] = {''c.service''}\<close>
    by (simp only: units_of_def map_filter_def) (simp add: sample_access)
  have e: \<open>unit_events [''{"event":"open","path":"/a/b","cgroup":"/s/c.service"}''] ''c.service'' = [(''open'', ''/a/b'')]\<close>
    by (simp only: unit_events_def map_filter_def) (simp add: sample_access)
  show ?thesis
    by (subst learn_records_collect) (simp_all only: u e, simp_all)
qed

end
