(* ===== verification/Baseline_Monitor.thy ===== *)
theory Baseline_Monitor
  imports Seen_Set Dest_Match Ring_Queues
begin

text \<open>
  The behaviour monitor: \<open>kernel/src/baseline_store.c\<close> keeps the learned and the denied sets of an
  executable in JSON files below a state directory, and \<open>kernel/src/modules/baseline_monitor.c\<close>
  judges the path, the remote addresses and the parent of every activity record by them. The
  file system is a map from paths to contents with two parameters: whether a file can be opened
  for writing and whether a rename succeeds; a write to an open file is complete.

  Shown: what a record reports depends only on the verdicts of its signals on the files as they
  were before the record, and every key is reported once; a candidate that is appended is read
  back from its file together with the ones before it.
\<close>

type_synonym file_map = "string \<Rightarrow> string option"

record file_ops =
  can_write :: "string \<Rightarrow> bool"
  can_rename :: "string \<Rightarrow> string \<Rightarrow> bool"

section \<open>The store\<close>

definition read_json :: "string \<Rightarrow> string" where
  \<comment> \<open>\<open>fread\<close> into a buffer of 65536 bytes, read as a C string\<close>
  "read_json content = cstr_of (take 65535 content)"

definition load_one_key ::
  "(string \<Rightarrow> string) \<Rightarrow> file_map \<Rightarrow> string \<Rightarrow> string \<Rightarrow> string \<Rightarrow> string \<Rightarrow> string \<Rightarrow> ps_baseline_set" where
  "load_one_key stale fs state_dir slug file key exe =
     (let path = snprintf_s 512 (state_dir @ ''/'' @ slug @ ''/'' @ file)
      in case fs path of
           None \<Rightarrow> ps_blset_init (Some exe)
         | Some content \<Rightarrow> the (ps_blset_from_json_key stale (Some (read_json content)) key))"

definition load_one ::
  "(string \<Rightarrow> string) \<Rightarrow> file_map \<Rightarrow> string \<Rightarrow> string \<Rightarrow> string \<Rightarrow> string \<Rightarrow> ps_baseline_set" where
  "load_one stale fs state_dir slug file exe =
     (let path = snprintf_s 512 (state_dir @ ''/'' @ slug @ ''/'' @ file)
      in case fs path of
           None \<Rightarrow> ps_blset_init (Some exe)
         | Some content \<Rightarrow> the (ps_blset_from_json stale (Some (read_json content))))"

definition ps_baseline_load ::
  "(string \<Rightarrow> string) \<Rightarrow> file_map \<Rightarrow> string \<Rightarrow> string \<Rightarrow> ps_baseline_set \<times> ps_baseline_set" where
  "ps_baseline_load stale fs state_dir exe =
     (case ps_exe_slug exe 256 of
        None \<Rightarrow> (ps_blset_init (Some exe), ps_blset_init (Some exe))
      | Some slug \<Rightarrow>
          (load_one stale fs state_dir slug ''baseline.json'' exe, load_one stale fs state_dir slug ''denials.json'' exe))"

definition ps_baseline_load_dests ::
  "(string \<Rightarrow> string) \<Rightarrow> file_map \<Rightarrow> string \<Rightarrow> string \<Rightarrow> ps_baseline_set \<times> ps_baseline_set" where
  "ps_baseline_load_dests stale fs state_dir exe =
     (case ps_exe_slug exe 256 of
        None \<Rightarrow> (ps_blset_init (Some exe), ps_blset_init (Some exe))
      | Some slug \<Rightarrow>
          (load_one_key stale fs state_dir slug ''dests.json'' ''dests'' exe,
           load_one_key stale fs state_dir slug ''dest-denials.json'' ''dests'' exe))"

definition ps_baseline_load_parents ::
  "(string \<Rightarrow> string) \<Rightarrow> file_map \<Rightarrow> string \<Rightarrow> string \<Rightarrow> ps_baseline_set \<times> ps_baseline_set" where
  "ps_baseline_load_parents stale fs state_dir exe =
     (case ps_exe_slug exe 256 of
        None \<Rightarrow> (ps_blset_init (Some exe), ps_blset_init (Some exe))
      | Some slug \<Rightarrow>
          (load_one_key stale fs state_dir slug ''parents.json'' ''parents'' exe,
           load_one_key stale fs state_dir slug ''parent-denials.json'' ''parents'' exe))"

definition atomic_write :: "file_ops \<Rightarrow> file_map \<Rightarrow> string \<Rightarrow> string \<Rightarrow> int \<times> file_map" where
  "atomic_write ops fs path buf =
     (let tmp = snprintf_s 600 (path @ ''.tmp'')
      in if \<not> can_write ops tmp then (- 1, fs)
         else if can_rename ops tmp path then (0, fs(tmp := None, path \<mapsto> buf))
         else (- 1, fs(tmp \<mapsto> buf)))"

definition candidate_path :: "string \<Rightarrow> string \<Rightarrow> string \<Rightarrow> string" where
  \<comment> \<open>\<open>dir\<close> and \<open>cpath\<close> of the three functions below\<close>
  "candidate_path state_dir slug file = snprintf_s 600 (snprintf_s 512 (state_dir @ ''/'' @ slug) @ ''/'' @ file)"

definition append_key ::
  "(string \<Rightarrow> string) \<Rightarrow> file_ops \<Rightarrow> file_map \<Rightarrow> string \<Rightarrow> string \<Rightarrow> string \<Rightarrow> string \<Rightarrow> string \<Rightarrow> int \<times> file_map" where
  \<comment> \<open>the common body of the three functions below\<close>
  "append_key stale ops fs state_dir file key exe item =
     (case ps_exe_slug exe 256 of
        None \<Rightarrow> (- 1, fs)
      | Some slug \<Rightarrow>
          (let cpath = candidate_path state_dir slug file;
               c = (case fs cpath of
                      None \<Rightarrow> ps_blset_init (Some exe)
                    | Some content \<Rightarrow> the (ps_blset_from_json_key stale (Some (read_json content)) key));
               (added, c) = ps_blset_add c item
           in if added \<noteq> 1 then (0, fs)
              else case ps_blset_to_json_key c key 65536 of
                     None \<Rightarrow> (- 1, fs)
                   | Some out \<Rightarrow> atomic_write ops fs cpath out))"

definition ps_baseline_append_candidate ::
  "(string \<Rightarrow> string) \<Rightarrow> file_ops \<Rightarrow> file_map \<Rightarrow> string \<Rightarrow> string \<Rightarrow> string \<Rightarrow> int \<times> file_map" where
  "ps_baseline_append_candidate stale ops fs state_dir exe path =
     append_key stale ops fs state_dir ''candidates.json'' ''paths'' exe path"

definition ps_baseline_append_dest_candidate ::
  "(string \<Rightarrow> string) \<Rightarrow> file_ops \<Rightarrow> file_map \<Rightarrow> string \<Rightarrow> string \<Rightarrow> string \<Rightarrow> int \<times> file_map" where
  "ps_baseline_append_dest_candidate stale ops fs state_dir exe dest =
     append_key stale ops fs state_dir ''dest-candidates.json'' ''dests'' exe dest"

definition ps_baseline_append_parent_candidate ::
  "(string \<Rightarrow> string) \<Rightarrow> file_ops \<Rightarrow> file_map \<Rightarrow> string \<Rightarrow> string \<Rightarrow> string \<Rightarrow> int \<times> file_map" where
  "ps_baseline_append_parent_candidate stale ops fs state_dir exe parent_comm =
     append_key stale ops fs state_dir ''parent-candidates.json'' ''parents'' exe parent_comm"

section \<open>Findings\<close>

abbreviation PS_BLSEEN_N :: nat where "PS_BLSEEN_N \<equiv> 2048"

definition ps_baseline_seen_new :: seen_set where
  "ps_baseline_seen_new = seen_zero PS_BLSEEN_N"

definition seen_add :: "seen_set \<Rightarrow> string \<Rightarrow> bool \<times> seen_set" where
  "seen_add s key = seen_put PS_BLSEEN_N 384 s key"

definition bl_emitted :: "string option \<Rightarrow> string list" where
  \<comment> \<open>\<open>if (ps_json_finish(&j) > 0 && emit) emit(ctx, buf, j.len)\<close>\<close>
  "bl_emitted t = (case t of Some s \<Rightarrow> if s = [] then [] else [s] | None \<Rightarrow> [])"

definition finding_head :: "string \<Rightarrow> ps_json" where
  \<comment> \<open>the four fields every finding starts with\<close>
  "finding_head kind =
     (let j = ps_json_object_begin (ps_json_init 2048);
          j = ps_json_key_string j ''source'' ''agent.baseline_monitor'';
          j = ps_json_key_string j ''severity'' (if kind = ''anomaly'' then ''high'' else ''info'');
          j = ps_json_key_string j ''confidence'' (if kind = ''anomaly'' then ''firm'' else ''tentative'')
      in ps_json_key_string j ''kind'' kind)"

definition path_finding :: "string \<Rightarrow> string \<Rightarrow> string \<Rightarrow> string \<Rightarrow> string \<Rightarrow> string list" where
  "path_finding kind exe path event comm =
     (let j = ps_json_key_string (finding_head kind) ''exe'' exe;
          j = ps_json_key_string j ''entry'' path;
          j = ps_json_key_string j ''event'' event;
          j = ps_json_key_string j ''comm'' comm
      in bl_emitted (ps_json_finish (ps_json_object_end j)))"

definition dest_finding :: "string \<Rightarrow> string \<Rightarrow> string \<Rightarrow> string \<Rightarrow> string list" where
  "dest_finding kind exe raddr comm =
     (let j = ps_json_key_string (finding_head kind) ''signal'' ''dest'';
          j = ps_json_key_string j ''exe'' exe;
          j = ps_json_key_string j ''dest'' raddr;
          j = ps_json_key_string j ''comm'' comm
      in bl_emitted (ps_json_finish (ps_json_object_end j)))"

definition spawn_finding :: "string \<Rightarrow> string \<Rightarrow> string \<Rightarrow> string \<Rightarrow> string list" where
  "spawn_finding kind exe parent comm =
     (let j = ps_json_key_string (finding_head kind) ''signal'' ''spawn'';
          j = ps_json_key_string j ''exe'' exe;
          j = ps_json_key_string j ''parent'' parent;
          j = ps_json_key_string j ''comm'' comm
      in bl_emitted (ps_json_finish (ps_json_object_end j)))"

definition extract_parent_comm :: "string \<Rightarrow> nat \<Rightarrow> string" where
  "extract_parent_comm rec cap =
     (case strstr rec (CHR 0x22 # ''ancestry'' @ CHR 0x22 # '':['') of None \<Rightarrow> [] | Some a \<Rightarrow>
     (case strstr a (CHR 0x22 # ''comm'' @ [CHR 0x22, CHR '':'', CHR 0x22]) of None \<Rightarrow> [] | Some c \<Rightarrow>
       (let c = drop 8 c
        in case strchr c (CHR 0x22) of
             None \<Rightarrow> []
           | Some e \<Rightarrow> (let n = ptr_off e c; n = (if n \<ge> cap then cap - 1 else n) in take n c))))"

section \<open>Judging a record\<close>

definition path_signal ::
  "(string \<Rightarrow> string) \<Rightarrow> file_ops \<Rightarrow> string \<Rightarrow> string \<Rightarrow> string \<Rightarrow> string \<Rightarrow> string \<Rightarrow> file_map \<times> seen_set \<Rightarrow>
   int \<times> string list \<times> file_map \<times> seen_set" where
  "path_signal stale ops state_dir exe path event comm st =
     (let (fs, seen) = st;
          (bl, den) = ps_baseline_load stale fs state_dir exe;
          v = ps_baseline_decide bl den path
      in if v = BL_COVERED then (0, [], fs, seen)
         else let (known, seen) = seen_add seen (snprintf_s 384 (exe @ ''|'' @ path))
              in if known then (0, [], fs, seen)
                 else if v = BL_ANOMALY then (1, path_finding ''anomaly'' exe path event comm, fs, seen)
                 else let (_, fs) = ps_baseline_append_candidate stale ops fs state_dir exe path
                      in (1, path_finding ''candidate'' exe path event comm, fs, seen))"

definition dest_signal ::
  "(string \<Rightarrow> string) \<Rightarrow> file_ops \<Rightarrow> string \<Rightarrow> string \<Rightarrow> string \<Rightarrow> ps_baseline_set \<Rightarrow> ps_baseline_set \<Rightarrow> string \<Rightarrow>
   file_map \<times> seen_set \<Rightarrow> int \<times> string list \<times> file_map \<times> seen_set" where
  \<comment> \<open>the rest of the loop body for one address\<close>
  "dest_signal stale ops state_dir exe comm dbl dden raddr st =
     (let (fs, seen) = st
      in if raddr = [] then (0, [], fs, seen)
         else let dv = ps_baseline_decide_dest dbl dden raddr
              in if dv = BL_COVERED then (0, [], fs, seen)
                 else let (known, seen) = seen_add seen (snprintf_s 384 (exe @ ''|D|'' @ raddr))
                      in if known then (0, [], fs, seen)
                         else if dv = BL_ANOMALY then (1, dest_finding ''anomaly'' exe raddr comm, fs, seen)
                         else let (_, fs) = ps_baseline_append_dest_candidate stale ops fs state_dir exe raddr
                              in (1, dest_finding ''candidate'' exe raddr comm, fs, seen))"

definition raddr_pat :: string where
  "raddr_pat = CHR 0x22 # ''raddr'' @ [CHR 0x22, CHR '':'', CHR 0x22]"

lemma strstr_shorter: "strstr s pat = Some p \<Longrightarrow> length p \<le> length s"
  by (induction s) (auto simp: strstr.simps split: if_splits)

lemma raddr_shorter: "strstr sp raddr_pat = Some q \<Longrightarrow> strchr (drop 9 q) (CHR 0x22) = Some se \<Longrightarrow> length se - Suc 0 < length sp"
proof -
  assume "strstr sp raddr_pat = Some q" "strchr (drop 9 q) (CHR 0x22) = Some se"
  then have "length q \<le> length sp" "length se \<le> length (drop 9 q)" "se \<noteq> []"
    using strstr_shorter strchr_shorter by blast+
  then show ?thesis by (cases se) auto
qed

function dest_loop ::
  "(string \<Rightarrow> string) \<Rightarrow> file_ops \<Rightarrow> string \<Rightarrow> string \<Rightarrow> string \<Rightarrow> ps_baseline_set \<Rightarrow> ps_baseline_set \<Rightarrow> string \<Rightarrow>
   file_map \<times> seen_set \<Rightarrow> int \<times> string list \<times> file_map \<times> seen_set" where
  \<comment> \<open>the loop over the remote addresses; \<open>sp\<close> is the rest of the record\<close>
  "dest_loop stale ops state_dir exe comm dbl dden sp st =
     (case strstr sp raddr_pat of
        None \<Rightarrow> (0, [], st)
      | Some q \<Rightarrow>
          (case strchr (drop 9 q) (CHR 0x22) of
             None \<Rightarrow> (0, [], st)
           | Some se \<Rightarrow>
               (let rl = ptr_off se (drop 9 q);
                    raddr = take (if rl \<ge> 64 then 63 else rl) (drop 9 q);
                    (n, out, st) = dest_signal stale ops state_dir exe comm dbl dden raddr st;
                    (m, outs, st) = dest_loop stale ops state_dir exe comm dbl dden (tl se) st
                in (n + m, out @ outs, st))))"
  by pat_completeness auto
termination
  by (relation "measure (\<lambda>(_, _, _, _, _, _, _, sp, _). length sp)") (simp_all add: raddr_shorter)

declare dest_loop.simps [simp del]

definition spawn_signal ::
  "(string \<Rightarrow> string) \<Rightarrow> file_ops \<Rightarrow> string \<Rightarrow> string \<Rightarrow> string \<Rightarrow> string \<Rightarrow> file_map \<times> seen_set \<Rightarrow>
   int \<times> string list \<times> file_map \<times> seen_set" where
  "spawn_signal stale ops state_dir exe comm parent st =
     (let (fs, seen) = st
      in if parent = [] then (0, [], fs, seen)
         else let (pbl, pden) = ps_baseline_load_parents stale fs state_dir exe;
                  pv = ps_baseline_decide pbl pden parent
              in if pv = BL_COVERED then (0, [], fs, seen)
                 else let (known, seen) = seen_add seen (snprintf_s 384 (exe @ ''|P|'' @ parent))
                      in if known then (0, [], fs, seen)
                         else if pv = BL_ANOMALY then (1, spawn_finding ''anomaly'' exe parent comm, fs, seen)
                         else let (_, fs) = ps_baseline_append_parent_candidate stale ops fs state_dir exe parent
                              in (1, spawn_finding ''candidate'' exe parent comm, fs, seen))"

definition ps_baseline_process_record ::
  "(string \<Rightarrow> string) \<Rightarrow> file_ops \<Rightarrow> string \<Rightarrow> file_map \<times> seen_set \<Rightarrow> string \<Rightarrow>
   int \<times> string list \<times> file_map \<times> seen_set" where
  "ps_baseline_process_record stale ops state_dir st rec =
     (case extract_cstr rec ''exe'' 256 of None \<Rightarrow> (0, [], st) | Some exe \<Rightarrow>
      if exe = [] then (0, [], st) else
     (case extract_cstr rec ''path'' 512 of None \<Rightarrow> (0, [], st) | Some path \<Rightarrow>
     (case extract_cstr rec ''event'' 16 of None \<Rightarrow> (0, [], st) | Some event \<Rightarrow>
       let comm = extract_into stale rec ''comm'' 64;
           (n1, out1, st) = path_signal stale ops state_dir exe path event comm st;
           (dbl, dden) = ps_baseline_load_dests stale (fst st) state_dir exe;
           (n2, out2, st) = dest_loop stale ops state_dir exe comm dbl dden rec st;
           (n3, out3, st) = spawn_signal stale ops state_dir exe comm (extract_parent_comm rec 64) st
       in (n1 + n2 + n3, out1 @ out2 @ out3, st))))"

section \<open>The module\<close>

record bl_state =
  bs_on :: bool
  bs_consumer :: int
  bs_seen :: seen_set
  bs_state_dir :: string

definition bl_init :: "(string \<Rightarrow> string option) \<Rightarrow> act_ring \<Rightarrow> bl_state \<times> act_ring" where
  \<comment> \<open>\<open>getenv\<close>: the environment; the allocations succeed\<close>
  "bl_init getenv r =
     (let on = getenv ''PS_DETECT_BASELINE_MODE'' = Some ''on'';
          (consumer, r) = (if on then ps_act_ring_register r else (- 1, r));
          dir = (case getenv ''PS_DETECT_BASELINE_STATE_DIR'' of
                   Some d \<Rightarrow> if d \<noteq> [] then d else ''/var/lib/packetsonde/baseline''
                 | None \<Rightarrow> ''/var/lib/packetsonde/baseline'')
      in (\<lparr>bs_on = on, bs_consumer = consumer, bs_seen = ps_baseline_seen_new, bs_state_dir = snprintf_s 256 dir\<rparr>, r))"

definition bl_publish :: "string \<Rightarrow> string \<times> string" where
  "bl_publish json =
     (case strstr json (CHR 0x22 # ''kind'' @ [CHR 0x22, CHR '':'', CHR 0x22] @ ''anomaly'' @ [CHR 0x22]) of
        Some _ \<Rightarrow> (''baseline.anomaly'', json)
      | None \<Rightarrow> (''baseline.candidate'', json))"

fun baseline_records ::
  "(string \<Rightarrow> string) \<Rightarrow> file_ops \<Rightarrow> string \<Rightarrow> file_map \<times> seen_set \<Rightarrow> string list \<Rightarrow> string list \<times> file_map \<times> seen_set" where
  "baseline_records stale ops state_dir st [] = ([], st)"
| "baseline_records stale ops state_dir st (rec # rs) =
     (let (_, out, st) = ps_baseline_process_record stale ops state_dir st rec;
          (outs, st) = baseline_records stale ops state_dir st rs
      in (out @ outs, st))"

definition bl_tick ::
  "(string \<Rightarrow> string) \<Rightarrow> file_ops \<Rightarrow> bl_state \<Rightarrow> act_ring \<Rightarrow> file_map \<Rightarrow>
   (string \<times> string) list \<times> bl_state \<times> act_ring \<times> file_map" where
  \<comment> \<open>a drained item is read as a C string\<close>
  "bl_tick stale ops st r fs =
     (if \<not> bs_on st then ([], st, r, fs)
      else let (items, r) = ps_act_ring_drain r (bs_consumer st) 64;
               (outs, fs, seen) = baseline_records stale ops (bs_state_dir st) (fs, bs_seen st) (map cstr_of items)
           in (map bl_publish outs, st\<lparr>bs_seen := seen\<rparr>, r, fs))"

section \<open>The files a record is judged by stay as they are\<close>

lemma seen_add_put: "seen_add = seen_put PS_BLSEEN_N 384"
  by (intro ext) (simp add: seen_add_def)

interpretation blseen: seen_filter seen_add "seen_recent PS_BLSEEN_N" "seen_inv PS_BLSEEN_N" PS_BLSEEN_N 384
  unfolding seen_add_put by (rule seen_filter_put)

definition judged_by :: "string set" where
  "judged_by = {''/baseline.json'', ''/denials.json'', ''/dests.json'', ''/dest-denials.json'', ''/parents.json'', ''/parent-denials.json''}"

definition candidate_files :: "string set" where
  "candidate_files = {''candidates.json'', ''dest-candidates.json'', ''parent-candidates.json''}"

definition keeps :: "file_map \<Rightarrow> file_map \<Rightarrow> bool" where
  \<comment> \<open>the files of learned and denied entries are the same\<close>
  "keeps fs fs' \<longleftrightarrow> (\<forall>d. \<forall>f \<in> judged_by. fs' (d @ f) = fs (d @ f))"

lemma keeps_refl [simp]: "keeps fs fs"
  by (simp add: keeps_def)

lemma keeps_trans: "keeps fs gs \<Longrightarrow> keeps gs hs \<Longrightarrow> keeps fs hs"
  by (simp add: keeps_def)

lemma rev_neq: "rev (d @ f) \<noteq> rev (e @ g) \<Longrightarrow> d @ f \<noteq> e @ g"
  by metis

lemma candidate_not_judged:
  assumes "f \<in> judged_by" "g \<in> candidate_files"
  shows "d @ f \<noteq> e @ (CHR ''/'' # g)" "d @ f \<noteq> e @ (CHR ''/'' # g @ ''.tmp'')"
  by (rule rev_neq, use assms in \<open>auto simp: judged_by_def candidate_files_def\<close>)+

lemma candidate_path_eq:
  "g \<in> candidate_files \<Longrightarrow> candidate_path dir slug g = take 511 (dir @ ''/'' @ slug) @ (CHR ''/'' # g)"
  by (auto simp: candidate_path_def snprintf_s_def candidate_files_def)

lemma tmp_path_eq:
  "g \<in> candidate_files \<Longrightarrow>
   snprintf_s 600 (candidate_path dir slug g @ ''.tmp'') = take 511 (dir @ ''/'' @ slug) @ (CHR ''/'' # g @ ''.tmp'')"
  by (auto simp: candidate_path_eq snprintf_s_def candidate_files_def)

lemma atomic_write_keeps:
  assumes "\<And>d f. f \<in> judged_by \<Longrightarrow> d @ f \<noteq> path" "\<And>d f. f \<in> judged_by \<Longrightarrow> d @ f \<noteq> snprintf_s 600 (path @ ''.tmp'')"
  shows "keeps fs (snd (atomic_write ops fs path buf))"
  using assms by (simp add: atomic_write_def Let_def keeps_def)

lemma append_key_keeps:
  assumes g: "g \<in> candidate_files"
  shows "keeps fs (snd (append_key stale ops fs dir g key exe item))"
proof -
  have "keeps fs (snd (atomic_write ops fs (candidate_path dir slug g) buf))" for slug buf
  proof (rule atomic_write_keeps)
    fix d f
    assume f: "f \<in> judged_by"
    show "d @ f \<noteq> candidate_path dir slug g"
      unfolding candidate_path_eq [OF g] by (rule candidate_not_judged(1) [OF f g])
    show "d @ f \<noteq> snprintf_s 600 (candidate_path dir slug g @ ''.tmp'')"
      unfolding tmp_path_eq [OF g] by (rule candidate_not_judged(2) [OF f g])
  qed
  then show ?thesis by (simp add: append_key_def Let_def split: option.split prod.split)
qed

lemma append_candidates_keep:
  "keeps fs (snd (ps_baseline_append_candidate stale ops fs dir exe x))"
  "keeps fs (snd (ps_baseline_append_dest_candidate stale ops fs dir exe x))"
  "keeps fs (snd (ps_baseline_append_parent_candidate stale ops fs dir exe x))"
  by (simp_all add: ps_baseline_append_candidate_def ps_baseline_append_dest_candidate_def
      ps_baseline_append_parent_candidate_def append_key_keeps candidate_files_def)

lemma slug_length: "ps_exe_slug exe 256 = Some slug \<Longrightarrow> length slug < 256"
  using ps_exe_slug_SomeD [of exe 256 slug] by simp

lemma load_path: "length dir \<le> 230 \<Longrightarrow> length slug < 256 \<Longrightarrow> length f \<le> 19 \<Longrightarrow>
  snprintf_s 512 (dir @ ''/'' @ slug @ ''/'' @ f) = (dir @ ''/'' @ slug) @ (CHR ''/'' # f)"
  by (simp add: snprintf_s_def)

lemma loads_keep:
  assumes "keeps fs fs'" "length dir \<le> 230"
  shows "ps_baseline_load stale fs' dir exe = ps_baseline_load stale fs dir exe"
    "ps_baseline_load_dests stale fs' dir exe = ps_baseline_load_dests stale fs dir exe"
    "ps_baseline_load_parents stale fs' dir exe = ps_baseline_load_parents stale fs dir exe"
proof -
  have same: "fs' (snprintf_s 512 (dir @ ''/'' @ slug @ ''/'' @ f)) = fs (snprintf_s 512 (dir @ ''/'' @ slug @ ''/'' @ f))"
    if "CHR ''/'' # f \<in> judged_by" "length slug < 256" for slug f
  proof -
    have "length f \<le> 19" using that(1) by (auto simp: judged_by_def)
    with that assms show ?thesis unfolding load_path [OF assms(2) that(2) \<open>length f \<le> 19\<close>] keeps_def by blast
  qed
  show "ps_baseline_load stale fs' dir exe = ps_baseline_load stale fs dir exe"
    unfolding ps_baseline_load_def load_one_def Let_def
    using same [OF _ slug_length] by (simp split: option.split add: judged_by_def)
  show "ps_baseline_load_dests stale fs' dir exe = ps_baseline_load_dests stale fs dir exe"
    unfolding ps_baseline_load_dests_def load_one_key_def Let_def
    using same [OF _ slug_length] by (simp split: option.split add: judged_by_def)
  show "ps_baseline_load_parents stale fs' dir exe = ps_baseline_load_parents stale fs dir exe"
    unfolding ps_baseline_load_parents_def load_one_key_def Let_def
    using same [OF _ slug_length] by (simp split: option.split add: judged_by_def)
qed

section \<open>What a record reports\<close>

definition verdict_kind :: "ps_bl_verdict \<Rightarrow> string" where
  "verdict_kind v = (if v = BL_ANOMALY then ''anomaly'' else ''candidate'')"

definition report :: "ps_bl_verdict \<Rightarrow> string \<Rightarrow> (string \<Rightarrow> string list) \<Rightarrow> (string \<times> string list) list" where
  \<comment> \<open>specification: what a signal with the verdict \<open>v\<close> has to report\<close>
  "report v key finding = (if v = BL_COVERED then [] else [(snprintf_s 384 key, finding (verdict_kind v))])"

function raddrs :: "string \<Rightarrow> string list" where
  \<comment> \<open>specification: the remote addresses of a record\<close>
  "raddrs sp =
     (case strstr sp raddr_pat of
        None \<Rightarrow> []
      | Some q \<Rightarrow>
          (case strchr (drop 9 q) (CHR 0x22) of
             None \<Rightarrow> []
           | Some se \<Rightarrow> take (min 63 (ptr_off se (drop 9 q))) (drop 9 q) # raddrs (tl se)))"
  by pat_completeness auto
termination
  by (relation "measure length") (simp_all add: raddr_shorter)

declare raddrs.simps [simp del]

definition dest_reports :: "string \<Rightarrow> string \<Rightarrow> ps_baseline_set \<times> ps_baseline_set \<Rightarrow> string list \<Rightarrow> (string \<times> string list) list" where
  "dest_reports exe comm sets rs =
     concat (map (\<lambda>raddr. report (ps_baseline_decide_dest (fst sets) (snd sets) raddr) (exe @ ''|D|'' @ raddr)
         (\<lambda>kind. dest_finding kind exe raddr comm)) (filter (\<lambda>raddr. raddr \<noteq> []) rs))"

definition record_reports :: "(string \<Rightarrow> string) \<Rightarrow> file_map \<Rightarrow> string \<Rightarrow> string \<Rightarrow> (string \<times> string list) list" where
  \<comment> \<open>specification: the path, then the remote addresses, then the parent\<close>
  "record_reports stale fs dir rec =
     (case (extract_cstr rec ''exe'' 256, extract_cstr rec ''path'' 512, extract_cstr rec ''event'' 16) of
        (Some exe, Some path, Some event) \<Rightarrow>
          (let comm = extract_into stale rec ''comm'' 64;
               (bl, den) = ps_baseline_load stale fs dir exe;
               (pbl, pden) = ps_baseline_load_parents stale fs dir exe;
               parent = extract_parent_comm rec 64
           in if exe = [] then []
              else report (ps_baseline_decide bl den path) (exe @ ''|'' @ path) (\<lambda>kind. path_finding kind exe path event comm) @
                   dest_reports exe comm (ps_baseline_load_dests stale fs dir exe) (raddrs rec) @
                   (if parent = [] then []
                    else report (ps_baseline_decide pbl pden parent) (exe @ ''|P|'' @ parent)
                           (\<lambda>kind. spawn_finding kind exe parent comm)))
      | _ \<Rightarrow> [])"

definition reports_as :: "int \<times> string list \<times> file_map \<times> seen_set \<Rightarrow> file_map \<times> seen_set \<Rightarrow> (string \<times> string list) list \<Rightarrow> bool" where
  \<comment> \<open>the result of a stage is what the filter lets through, and the judging files stay\<close>
  "reports_as r st vs \<longleftrightarrow>
     (case r of (n, outs, fs, seen) \<Rightarrow>
        n = int (length (fst (feed seen_add (snd st) vs))) \<and> outs = concat (map snd (fst (feed seen_add (snd st) vs))) \<and>
        seen = snd (feed seen_add (snd st) vs) \<and> keeps (fst st) fs)"

lemma reports_as_append:
  assumes "reports_as (n, o1, st') st vs" "reports_as (m, o2, fs, seen) st' ws"
  shows "reports_as (n + m, o1 @ o2, fs, seen) st (vs @ ws)"
  using assms keeps_trans by (cases st') (auto simp: reports_as_def feed_append Let_def split_def)

lemma reports_as_Nil [simp]: "reports_as (0, [], st) st []"
  by (cases st) (simp add: reports_as_def)

lemma path_signal_reports:
  "reports_as (path_signal stale ops dir exe path event comm (fs, seen)) (fs, seen)
     (report (ps_baseline_decide (fst (ps_baseline_load stale fs dir exe)) (snd (ps_baseline_load stale fs dir exe)) path)
        (exe @ ''|'' @ path) (\<lambda>kind. path_finding kind exe path event comm))"
  using append_candidates_keep(1) [of fs stale ops dir exe path]
  by (simp add: path_signal_def reports_as_def report_def verdict_kind_def Let_def split_def)

lemma dest_signal_reports:
  "reports_as (dest_signal stale ops dir exe comm dbl dden raddr (fs, seen)) (fs, seen) (dest_reports exe comm (dbl, dden) [raddr])"
  using append_candidates_keep(2) [of fs stale ops dir exe raddr]
  by (simp add: dest_signal_def reports_as_def report_def dest_reports_def verdict_kind_def Let_def split_def)

lemma spawn_signal_reports:
  "reports_as (spawn_signal stale ops dir exe comm parent (fs, seen)) (fs, seen)
     (if parent = [] then []
      else report (ps_baseline_decide (fst (ps_baseline_load_parents stale fs dir exe)) (snd (ps_baseline_load_parents stale fs dir exe)) parent)
             (exe @ ''|P|'' @ parent) (\<lambda>kind. spawn_finding kind exe parent comm))"
  using append_candidates_keep(3) [of fs stale ops dir exe parent]
  by (simp add: spawn_signal_def reports_as_def report_def verdict_kind_def Let_def split_def)

lemma dest_reports_Cons: "dest_reports exe comm sets (r # rs) = dest_reports exe comm sets [r] @ dest_reports exe comm sets rs"
  by (simp add: dest_reports_def)

lemma dest_loop_reports:
  "reports_as (dest_loop stale ops dir exe comm dbl dden sp st) st (dest_reports exe comm (dbl, dden) (raddrs sp))"
proof (induction stale ops dir exe comm dbl dden sp st rule: dest_loop.induct)
  case (1 stale ops dir exe comm dbl dden sp st)
  show ?case
  proof (cases "strstr sp raddr_pat")
    case None
    then show ?thesis by (simp add: dest_loop.simps [of _ _ _ _ _ _ _ sp] raddrs.simps [of sp] dest_reports_def)
  next
    case (Some q)
    show ?thesis
    proof (cases "strchr (drop 9 q) (CHR 0x22)")
      case None
      with Some show ?thesis
        by (simp add: dest_loop.simps [of _ _ _ _ _ _ _ sp] raddrs.simps [of sp] dest_reports_def del: strchr_None_iff)
    next
      case se: (Some se)
      let ?raddr = "take (min 63 (ptr_off se (drop 9 q))) (drop 9 q)"
      have cut: "take (if ptr_off se (drop 9 q) \<ge> 64 then 63 else ptr_off se (drop 9 q)) (drop 9 q) = ?raddr"
        by (rule arg_cong [where f = "\<lambda>k. take k (drop 9 q)"]) simp
      obtain n out st1 where sig: "dest_signal stale ops dir exe comm dbl dden ?raddr st = (n, out, st1)" by (cases st) (metis prod_cases3)
      obtain m outs fs seen where rest: "dest_loop stale ops dir exe comm dbl dden (tl se) st1 = (m, outs, fs, seen)" by (metis prod_cases4)
      have "reports_as (m, outs, fs, seen) st1 (dest_reports exe comm (dbl, dden) (raddrs (tl se)))"
        using 1 [OF Some se refl refl, unfolded cut sig, OF refl refl] rest by simp
      moreover have "reports_as (n, out, st1) st (dest_reports exe comm (dbl, dden) [?raddr])"
        using dest_signal_reports [of stale ops dir exe comm dbl dden ?raddr "fst st" "snd st"] sig by simp
      ultimately have "reports_as (n + m, out @ outs, fs, seen) st (dest_reports exe comm (dbl, dden) (?raddr # raddrs (tl se)))"
        by (subst dest_reports_Cons) (rule reports_as_append)
      moreover have "raddrs sp = ?raddr # raddrs (tl se)" by (simp add: raddrs.simps [of sp] Some se)
      moreover have "dest_loop stale ops dir exe comm dbl dden sp st = (n + m, out @ outs, fs, seen)"
        by (simp add: dest_loop.simps [of _ _ _ _ _ _ _ sp] Some se Let_def cut sig rest)
      ultimately show ?thesis by simp
    qed
  qed
qed

lemma process_record_reports:
  assumes dir: "length dir \<le> 230"
  shows "reports_as (ps_baseline_process_record stale ops dir (fs, seen) rec) (fs, seen) (record_reports stale fs dir rec)"
proof (cases "\<exists>exe path event. extract_cstr rec ''exe'' 256 = Some exe \<and> exe \<noteq> [] \<and>
    extract_cstr rec ''path'' 512 = Some path \<and> extract_cstr rec ''event'' 16 = Some event")
  case False
  then show ?thesis
    by (auto simp: ps_baseline_process_record_def record_reports_def split: option.splits)
next
  case True
  then obtain exe path event where ex: "extract_cstr rec ''exe'' 256 = Some exe" "exe \<noteq> []"
    "extract_cstr rec ''path'' 512 = Some path" "extract_cstr rec ''event'' 16 = Some event" by blast
  let ?comm = "extract_into stale rec ''comm'' 64"
  let ?sets = "ps_baseline_load_dests stale fs dir exe"
  let ?parent = "extract_parent_comm rec 64"
  let ?sp = "\<lambda>fs. if ?parent = [] then []
      else report (ps_baseline_decide (fst (ps_baseline_load_parents stale fs dir exe)) (snd (ps_baseline_load_parents stale fs dir exe)) ?parent)
             (exe @ ''|P|'' @ ?parent) (\<lambda>kind. spawn_finding kind exe ?parent ?comm)"
  obtain n1 o1 fs1 s1 where r1: "path_signal stale ops dir exe path event ?comm (fs, seen) = (n1, o1, fs1, s1)" by (metis prod_cases4)
  obtain n2 o2 fs2 s2 where r2: "dest_loop stale ops dir exe ?comm (fst ?sets) (snd ?sets) rec (fs1, s1) = (n2, o2, fs2, s2)" by (metis prod_cases4)
  obtain n3 o3 fs3 s3 where r3: "spawn_signal stale ops dir exe ?comm ?parent (fs2, s2) = (n3, o3, fs3, s3)" by (metis prod_cases4)
  note p1 = path_signal_reports [of stale ops dir exe path event ?comm fs seen, unfolded r1]
  note p2 = dest_loop_reports [of stale ops dir exe ?comm "fst ?sets" "snd ?sets" rec "(fs1, s1)", unfolded r2]
  note p3 = spawn_signal_reports [of stale ops dir exe ?comm ?parent fs2 s2, unfolded r3]
  have k1: "keeps fs fs1" and "keeps fs1 fs2" using p1 p2 by (simp_all add: reports_as_def)
  then have k2: "keeps fs fs2" by (rule keeps_trans)
  have "reports_as (n1 + (n2 + n3), o1 @ o2 @ o3, fs3, s3) (fs, seen)
    (report (ps_baseline_decide (fst (ps_baseline_load stale fs dir exe)) (snd (ps_baseline_load stale fs dir exe)) path)
        (exe @ ''|'' @ path) (\<lambda>kind. path_finding kind exe path event ?comm) @
     dest_reports exe ?comm (fst ?sets, snd ?sets) (raddrs rec) @ ?sp fs)"
    using reports_as_append [OF p1 reports_as_append [OF p2 p3]] unfolding loads_keep(3) [OF k2 dir] .
  moreover have "ps_baseline_process_record stale ops dir (fs, seen) rec = (n1 + (n2 + n3), o1 @ o2 @ o3, fs3, s3)"
    using ex r1 r2 r3 loads_keep(2) [OF k1 dir] by (simp add: ps_baseline_process_record_def Let_def split_def)
  ultimately show ?thesis
    using ex by (simp add: record_reports_def Let_def split_def)
qed

lemma report_keys: "list_all (\<lambda>kx. length (fst kx) < 384) (report v key f)"
  by (simp add: report_def snprintf_s_length)

lemma dest_report_keys: "list_all (\<lambda>kx. length (fst kx) < 384) (dest_reports exe comm sets rs)"
  unfolding dest_reports_def by (induction rs) (simp_all add: report_keys)

lemma record_report_keys: "list_all (\<lambda>kx. length (fst kx) < 384) (record_reports stale fs dir rec)"
proof (cases "extract_cstr rec ''exe'' 256"; cases "extract_cstr rec ''path'' 512"; cases "extract_cstr rec ''event'' 16")
  fix exe path event
  assume "extract_cstr rec ''exe'' 256 = Some exe" "extract_cstr rec ''path'' 512 = Some path" "extract_cstr rec ''event'' 16 = Some event"
  then show ?thesis by (simp add: record_reports_def Let_def split_def report_keys dest_report_keys)
qed (simp_all add: record_reports_def)

lemma baseline_records_reports:
  assumes dir: "length dir \<le> 230"
  shows "fst (baseline_records stale ops dir (fs, seen) rs) =
      concat (map snd (fst (feed seen_add seen (concat (map (record_reports stale fs dir) rs))))) \<and>
    keeps fs (fst (snd (baseline_records stale ops dir (fs, seen) rs)))"
proof (induction rs arbitrary: fs seen)
  case (Cons rec rs)
  obtain n out fs1 s1 where r: "ps_baseline_process_record stale ops dir (fs, seen) rec = (n, out, fs1, s1)" by (metis prod_cases4)
  have p: "out = concat (map snd (fst (feed seen_add seen (record_reports stale fs dir rec))))"
    "s1 = snd (feed seen_add seen (record_reports stale fs dir rec))" "keeps fs fs1"
    using process_record_reports [OF dir, of stale ops fs seen rec] unfolding r by (simp_all add: reports_as_def)
  have "record_reports stale fs1 dir = record_reports stale fs dir"
    unfolding record_reports_def loads_keep [OF p(3) dir] ..
  with Cons.IH [of fs1 s1] p keeps_trans [OF p(3)] show ?case
    by (simp add: r feed_append Let_def split_def)
qed simp

lemma baseline_records_fresh:
  assumes "length dir \<le> 230" "seen_inv PS_BLSEEN_N seen"
    and "card (set (seen_recent PS_BLSEEN_N seen) \<union> fst ` set (concat (map (record_reports stale fs dir) rs))) \<le> PS_BLSEEN_N"
  shows "fst (baseline_records stale ops dir (fs, seen) rs) =
      concat (map snd (fresh (set (seen_recent PS_BLSEEN_N seen)) (concat (map (record_reports stale fs dir) rs)))) \<and>
    (\<forall>exe. ps_baseline_load stale (fst (snd (baseline_records stale ops dir (fs, seen) rs))) dir exe = ps_baseline_load stale fs dir exe)"
proof -
  have "list_all (\<lambda>kx. length (fst kx) < 384) (concat (map (record_reports stale fs dir) rs))"
    using record_report_keys [of stale fs dir] by (auto simp: list_all_iff)
  from blseen.feed_fresh [OF assms(2) this assms(3)] baseline_records_reports [OF assms(1), of stale ops fs seen rs]
  show ?thesis using loads_keep(1) [OF _ assms(1)] by simp
qed


lemma sample_reports:
  \<open>record_reports (\<lambda>_. []) (\<lambda>_. None) ''/d'' ''{"exe":"/b","path":"/p","event":"open"}'' =
     [(''/b|/p'', path_finding ''candidate'' ''/b'' ''/p'' ''open'' [])]\<close>
proof -
  let ?rec = \<open>''{"exe":"/b","path":"/p","event":"open"}''\<close>
  have ex: "extract_cstr ?rec ''exe'' 256 = Some ''/b''" "extract_cstr ?rec ''path'' 512 = Some ''/p''"
    "extract_cstr ?rec ''event'' 16 = Some ''open''" "extract_into (\<lambda>_. []) ?rec ''comm'' 64 = []"
    "extract_parent_comm ?rec 64 = []" "strstr ?rec raddr_pat = None" "ps_exe_slug ''/b'' 256 = Some ''b''"
    by code_simp+
  have r: "raddrs ?rec = []" by (subst raddrs.simps) (simp only: ex option.case)
  have l: "ps_baseline_load (\<lambda>_. []) (\<lambda>_. None) ''/d'' ''/b'' = (\<lparr>bl_exe = ''/b'', bl_path = []\<rparr>, \<lparr>bl_exe = ''/b'', bl_path = []\<rparr>)"
    by (simp add: ps_baseline_load_def ex load_one_def ps_blset_init_def)
  have d: "ps_baseline_decide \<lparr>bl_exe = ''/b'', bl_path = []\<rparr> \<lparr>bl_exe = ''/b'', bl_path = []\<rparr> ''/p'' = BL_NOVEL"
    by (simp add: ps_baseline_decide_def ps_blset_covered_def)
  have "record_reports (\<lambda>_. []) (\<lambda>_. None) ''/d'' ?rec =
      report BL_NOVEL (''/b'' @ ''|'' @ ''/p'') (\<lambda>kind. path_finding kind ''/b'' ''/p'' ''open'' [])"
    unfolding record_reports_def ex r l Let_def prod.case option.case d
    by (simp add: dest_reports_def split_def)
  then show ?thesis by (simp add: report_def verdict_kind_def)
qed


section \<open>A candidate is stored\<close>

lemma is_cstr_escape: "is_cstr (escape s)"
proof (induction s)
  case (Cons c s)
  have hex: "hex_digit n \<noteq> NUL" if "n < 16" for n
    using hexval_hex_digit [OF that] by (auto simp: hexval_def)
  have "is_cstr (escape_char c)" by (auto simp: escape_char_def hex)
  with Cons show ?case by simp
qed simp

lemma is_cstr_join: "list_all is_cstr xs \<Longrightarrow> is_cstr (join xs)"
  by (induction xs rule: join.induct) auto

lemma is_cstr_show_int: "is_cstr (show_int i)"
  by (auto simp: is_cstr_def show_int_def show_nat_only_digits is_digit_def)

lemma is_cstr_show_json: "is_cstr (show_json t)"
proof (induction t)
  case (JObj kvs)
  have "list_all is_cstr (map (\<lambda>(k, v). quoted k @ '':'' @ show_json v) kvs)"
    using JObj by (auto simp: list_all_iff quoted_def is_cstr_escape)
  from is_cstr_join [OF this] show ?case by simp
next
  case (JArr vs)
  then have "list_all is_cstr (map show_json vs)" by (auto simp: list_all_iff)
  from is_cstr_join [OF this] show ?case by simp
qed (auto simp: quoted_def is_cstr_escape is_cstr_show_int)

lemma read_json_printed: "ps_blset_to_json_key s key 65536 = Some js \<Longrightarrow> read_json js = js"
  by (auto simp: read_json_def blset_to_json_doc is_cstr_show_json split: if_splits)

definition stored_set :: "(string \<Rightarrow> string) \<Rightarrow> file_map \<Rightarrow> string \<Rightarrow> string \<Rightarrow> string \<Rightarrow> ps_baseline_set" where
  \<comment> \<open>specification: the set a file holds\<close>
  "stored_set stale fs path key exe =
     (case fs path of
        None \<Rightarrow> ps_blset_init (Some exe)
      | Some content \<Rightarrow> the (ps_blset_from_json_key stale (Some (read_json content)) key))"

lemma append_key_stored:
  assumes slug: "ps_exe_slug exe 256 = Some slug" and g: "g \<in> candidate_files"
    and path: "cpath = candidate_path dir slug g"
    and ops: "can_write ops (snprintf_s 600 (cpath @ ''.tmp''))" "can_rename ops (snprintf_s 600 (cpath @ ''.tmp'')) cpath"
    and key: "plain_key key" "key \<noteq> ''exe''" "length key < 60"
    and old: "blset_inv (stored_set stale fs cpath key exe)" "list_all verbatim (bl_path (stored_set stale fs cpath key exe))"
    and item: "is_cstr item" "verbatim item" "length item < PS_BL_PATHLEN"
    and room: "fst (ps_blset_add (stored_set stale fs cpath key exe) item) = 1"
    and fits: "ps_blset_to_json_key (blset_put (stored_set stale fs cpath key exe) item) key 65536 = Some js"
  shows "append_key stale ops fs dir g key exe item = (0, fs(snprintf_s 600 (cpath @ ''.tmp'') := None, cpath \<mapsto> js))"
    and "ps_blset_from_json_key stale (Some (read_json js)) key = Some (blset_put (stored_set stale fs cpath key exe) item)"
proof -
  let ?s = "stored_set stale fs cpath key exe"
  obtain c where put: "ps_blset_add ?s item = (1, c)" using room by (metis prod.collapse)
  show "append_key stale ops fs dir g key exe item = (0, fs(snprintf_s 600 (cpath @ ''.tmp'') := None, cpath \<mapsto> js))"
    unfolding append_key_def slug option.case Let_def path [symmetric] stored_set_def [of stale fs cpath key exe, symmetric]
    using fits by (simp add: put atomic_write_def ops Let_def)
  have paths: "bl_path (blset_put ?s item) = bl_path ?s @ [item]"
    using room item(3) unfolding ps_blset_add_def by (simp split: if_splits)
  show "ps_blset_from_json_key stale (Some (read_json js)) key = Some (blset_put ?s item)"
    unfolding read_json_printed [OF fits]
    by (rule blset_reads_back [OF blset_inv_put [OF old(1) item(1)] _ key fits])
       (use old(2) item(2) paths in simp)
qed

text \<open>A path that the monitor finds novel is stored: when the candidates of an executable are absent or a file
  printed earlier, and the path is new, short and needs no escape, appending it succeeds, the file
  then reads back as the earlier candidates followed by the path, and no other file is changed
  but the temporary one, which is gone.\<close>

theorem candidate_stored:
  assumes slug: "ps_exe_slug exe 256 = Some slug" and path: "cpath = candidate_path dir slug ''candidates.json''"
    and ops: "can_write ops (snprintf_s 600 (cpath @ ''.tmp''))" "can_rename ops (snprintf_s 600 (cpath @ ''.tmp'')) cpath"
    and old: "blset_inv (stored_set stale fs cpath ''paths'' exe)" "list_all verbatim (bl_path (stored_set stale fs cpath ''paths'' exe))"
    and item: "is_cstr item" "verbatim item" "length item < PS_BL_PATHLEN"
    and room: "fst (ps_blset_add (stored_set stale fs cpath ''paths'' exe) item) = 1"
    and fits: "ps_blset_to_json (blset_put (stored_set stale fs cpath ''paths'' exe) item) 65536 \<noteq> None"
  shows "\<exists>js. ps_baseline_append_candidate stale ops fs dir exe item =
      (0, fs(snprintf_s 600 (cpath @ ''.tmp'') := None, cpath \<mapsto> js)) \<and>
    ps_blset_from_json stale (Some (read_json js)) = Some (blset_put (stored_set stale fs cpath ''paths'' exe) item)"
proof -
  obtain js where js: "ps_blset_to_json_key (blset_put (stored_set stale fs cpath ''paths'' exe) item) ''paths'' 65536 = Some js"
    using fits by (auto simp: ps_blset_to_json_def)
  have key: "plain_key ''paths''" "''paths'' \<noteq> ''exe''" "length ''paths'' < 60"
    by (simp_all add: plain_key_def plain_char_def)
  have g: "''candidates.json'' \<in> candidate_files" by (simp add: candidate_files_def)
  from append_key_stored [OF slug g path ops key old item room js] show ?thesis
    by (auto simp: ps_baseline_append_candidate_def ps_blset_from_json_def)
qed

theorem candidate_stored_witness:
  "\<exists>js. ps_baseline_append_candidate (\<lambda>_. []) \<lparr>can_write = (\<lambda>_. True), can_rename = (\<lambda>_ _. True)\<rparr> (\<lambda>_. None) ''/d'' ''/b'' ''/p'' =
      (0, (\<lambda>_. None)(''/d/b/candidates.json.tmp'' := None, ''/d/b/candidates.json'' \<mapsto> js)) \<and>
    ps_blset_from_json (\<lambda>_. []) (Some (read_json js)) = Some \<lparr>bl_exe = ''/b'', bl_path = [''/p'']\<rparr>"
proof -
  let ?cpath = "''/d/b/candidates.json''"
  have slug: "ps_exe_slug ''/b'' 256 = Some ''b''" by code_simp
  have s: "stored_set (\<lambda>_. []) (\<lambda>_. None) ?cpath ''paths'' ''/b'' = \<lparr>bl_exe = ''/b'', bl_path = []\<rparr>"
    by (simp add: stored_set_def ps_blset_init_def)
  have put: "ps_blset_add \<lparr>bl_exe = ''/b'', bl_path = []\<rparr> ''/p'' = (1, \<lparr>bl_exe = ''/b'', bl_path = [''/p'']\<rparr>)"
    by (simp add: ps_blset_add_def)
  have fits: "ps_blset_to_json \<lparr>bl_exe = ''/b'', bl_path = [''/p'']\<rparr> 65536 \<noteq> None"
    by (simp add: ps_blset_to_json_def blset_to_json_doc blset_doc_def quoted_def escape_char_def)
  have path: "?cpath = candidate_path ''/d'' ''b'' ''candidates.json''" "snprintf_s 600 (?cpath @ ''.tmp'') = ''/d/b/candidates.json.tmp''"
    by (simp_all add: candidate_path_def)
  show ?thesis
    using candidate_stored [of "''/b''" "''b''" ?cpath "''/d''" "\<lparr>can_write = (\<lambda>_. True), can_rename = (\<lambda>_ _. True)\<rparr>"
        "\<lambda>_. []" "\<lambda>_. None" "''/p''", OF slug path(1), unfolded s put path(2) fst_conv snd_conv] fits
    by (simp add: blset_inv_def is_cstr_def verbatim_def)
qed

end
