(* ===== verification/Demux.thy ===== *)
theory Demux
  imports Packet_Parse
begin

text \<open>
  The table of frame handlers, \<open>agent/src/capture/protocol_demux.c\<close>: handlers are registered with an
  EtherType, an IP protocol, a UDP port or a predicate, can be switched off by name, and are
  called for every frame that matches. A handler is the pair of its function and its user data;
  the model returns the list of calls. As in the flow tracker a read behind the end of the frame
  is \<open>None\<close>.

  Shown: dispatching never reads behind the end and calls exactly the enabled handlers that match,
  in the order of registration; switching a handler affects no other handler.
\<close>

section \<open>The table\<close>

datatype ps_proto_match_type = MATCH_ETHERTYPE | MATCH_IP_PROTO | MATCH_UDP_PORT | MATCH_CUSTOM

abbreviation PS_DEMUX_MAX_HANDLERS :: nat where "PS_DEMUX_MAX_HANDLERS \<equiv> 32"

record 'h ps_demux_entry =
  de_name :: string
  de_match_type :: ps_proto_match_type
  de_match_value :: "32 word"
  de_match_fn :: "(bytes \<Rightarrow> bool) option"
  de_handler :: 'h
  de_enabled :: bool

type_synonym 'h ps_protocol_demux = "'h ps_demux_entry list"

definition ps_demux_init :: "'h ps_protocol_demux" where
  "ps_demux_init = []"

definition ps_demux_register ::
  "'h ps_protocol_demux \<Rightarrow> string \<Rightarrow> ps_proto_match_type \<Rightarrow> 32 word \<Rightarrow> 'h \<Rightarrow> int \<times> 'h ps_protocol_demux" where
  "ps_demux_register dmx name match_type match_value handler =
     (if length dmx \<ge> PS_DEMUX_MAX_HANDLERS then (- 1, dmx)
      else (0, dmx @ [\<lparr>de_name = snprintf_s 64 name, de_match_type = match_type, de_match_value = match_value,
                       de_match_fn = None, de_handler = handler, de_enabled = True\<rparr>]))"

definition ps_demux_register_custom ::
  "'h ps_protocol_demux \<Rightarrow> string \<Rightarrow> (bytes \<Rightarrow> bool) option \<Rightarrow> 'h \<Rightarrow> int \<times> 'h ps_protocol_demux" where
  "ps_demux_register_custom dmx name match_fn handler =
     (if length dmx \<ge> PS_DEMUX_MAX_HANDLERS then (- 1, dmx)
      else (0, dmx @ [\<lparr>de_name = snprintf_s 64 name, de_match_type = MATCH_CUSTOM, de_match_value = 0,
                       de_match_fn = match_fn, de_handler = handler, de_enabled = True\<rparr>]))"

fun ps_demux_set_enabled :: "'h ps_protocol_demux \<Rightarrow> string \<Rightarrow> bool \<Rightarrow> int \<times> 'h ps_protocol_demux" where
  "ps_demux_set_enabled [] name enabled = (- 1, [])"
| "ps_demux_set_enabled (e # es) name enabled =
     (if strncmp_eq (de_name e) name 64 then (0, e\<lparr>de_enabled := enabled\<rparr> # es)
      else let (r, es) = ps_demux_set_enabled es name enabled in (r, e # es))"

fun ps_demux_is_enabled :: "'h ps_protocol_demux \<Rightarrow> string \<Rightarrow> bool" where
  "ps_demux_is_enabled [] name = False"
| "ps_demux_is_enabled (e # es) name =
     (if strncmp_eq (de_name e) name 64 then de_enabled e else ps_demux_is_enabled es name)"

section \<open>Dispatching\<close>

abbreviation ETHERTYPE_IPV4 :: "16 word" where "ETHERTYPE_IPV4 \<equiv> 0x0800"
abbreviation ETHERTYPE_IPV6 :: "16 word" where "ETHERTYPE_IPV6 \<equiv> 0x86DD"

definition decode_ipv4 :: "bytes \<Rightarrow> (byte \<times> 16 word) option" where
  \<comment> \<open>the IP protocol and the UDP destination port, 0 where the frame is too short\<close>
  "decode_ipv4 pkt =
     (if length pkt \<ge> 14 + 9 + 1
      then do {
        ip_proto \<leftarrow> rd pkt (14 + 9);
        if ip_proto = PS_IPPROTO_UDP
        then do {
          b \<leftarrow> rd pkt 14;
          let udp_off = 14 + unat (b AND 0x0f) * 4;
          if length pkt \<ge> udp_off + 2 + 2
          then do { port \<leftarrow> read_u16_be pkt (udp_off + 2); Some (ip_proto, port) }
          else Some (ip_proto, 0)
        }
        else Some (ip_proto, 0)
      }
      else Some (0, 0))"

definition decode_ipv6 :: "bytes \<Rightarrow> (byte \<times> 16 word) option" where
  "decode_ipv6 pkt =
     (if length pkt \<ge> 14 + 6 + 1
      then do {
        ip_proto \<leftarrow> rd pkt (14 + 6);
        if ip_proto = PS_IPPROTO_UDP \<and> length pkt \<ge> 14 + 40 + 2 + 2
        then do { port \<leftarrow> read_u16_be pkt (14 + 40 + 2); Some (ip_proto, port) }
        else Some (ip_proto, 0)
      }
      else Some (0, 0))"

definition entry_matched :: "bytes \<Rightarrow> 16 word \<Rightarrow> byte \<Rightarrow> 16 word \<Rightarrow> 'h ps_demux_entry \<Rightarrow> bool" where
  \<comment> \<open>the \<open>switch\<close> on the kind of match\<close>
  "entry_matched pkt ethertype ip_proto udp_dstport e =
     (case de_match_type e of
        MATCH_ETHERTYPE \<Rightarrow> ethertype = ucast (de_match_value e)
      | MATCH_IP_PROTO \<Rightarrow> ip_proto \<noteq> 0 \<and> ip_proto = ucast (de_match_value e)
      | MATCH_UDP_PORT \<Rightarrow> udp_dstport \<noteq> 0 \<and> udp_dstport = ucast (de_match_value e)
      | MATCH_CUSTOM \<Rightarrow> (case de_match_fn e of Some f \<Rightarrow> f pkt | None \<Rightarrow> False))"

fun dispatch_loop :: "bytes \<Rightarrow> 16 word \<Rightarrow> byte \<Rightarrow> 16 word \<Rightarrow> 'h ps_demux_entry list \<Rightarrow> 'h list" where
  \<comment> \<open>the calls made, in order\<close>
  "dispatch_loop pkt ethertype ip_proto udp_dstport [] = []"
| "dispatch_loop pkt ethertype ip_proto udp_dstport (e # es) =
     (if \<not> de_enabled e then dispatch_loop pkt ethertype ip_proto udp_dstport es
      else if entry_matched pkt ethertype ip_proto udp_dstport e
      then de_handler e # dispatch_loop pkt ethertype ip_proto udp_dstport es
      else dispatch_loop pkt ethertype ip_proto udp_dstport es)"

definition ps_demux_dispatch :: "'h ps_protocol_demux \<Rightarrow> bytes \<Rightarrow> 'h list option" where
  "ps_demux_dispatch dmx pkt =
     (if length pkt < 14 then Some []
      else do {
        ethertype \<leftarrow> read_u16_be pkt 12;
        (ip_proto, udp_dstport) \<leftarrow>
          (if ethertype = ETHERTYPE_IPV4 then decode_ipv4 pkt
           else if ethertype = ETHERTYPE_IPV6 then decode_ipv6 pkt
           else Some (0, 0));
        Some (dispatch_loop pkt ethertype ip_proto udp_dstport dmx)
      })"

section \<open>Exactly the matching handlers are called\<close>

text \<open>What the fields of a frame are, independently of the decoding order.\<close>

definition ip_proto_offset :: "bytes \<Rightarrow> nat option" where
  "ip_proto_offset pkt =
     (if u16_at pkt 12 = ETHERTYPE_IPV4 then Some 23 else if u16_at pkt 12 = ETHERTYPE_IPV6 then Some 20 else None)"

definition udp_offset :: "bytes \<Rightarrow> nat" where
  "udp_offset pkt = (if u16_at pkt 12 = ETHERTYPE_IPV4 then 14 + unat (pkt ! 14 AND 0x0f) * 4 else 54)"

definition carries_proto :: "bytes \<Rightarrow> byte \<Rightarrow> bool" where
  \<comment> \<open>specification: an IP packet whose protocol byte was captured\<close>
  "carries_proto pkt proto \<longleftrightarrow> (\<exists>i. ip_proto_offset pkt = Some i \<and> i < length pkt \<and> pkt ! i = proto)"

definition carries_udp_to :: "bytes \<Rightarrow> 16 word \<Rightarrow> bool" where
  \<comment> \<open>specification: a UDP packet whose destination port was captured\<close>
  "carries_udp_to pkt port \<longleftrightarrow>
     carries_proto pkt PS_IPPROTO_UDP \<and> udp_offset pkt + 4 \<le> length pkt \<and> u16_at pkt (udp_offset pkt + 2) = port"

definition wants :: "'h ps_demux_entry \<Rightarrow> bytes \<Rightarrow> bool" where
  \<comment> \<open>specification: the frames a handler is registered for\<close>
  "wants e pkt \<longleftrightarrow> 14 \<le> length pkt \<and>
     (case de_match_type e of
        MATCH_ETHERTYPE \<Rightarrow> u16_at pkt 12 = ucast (de_match_value e)
      | MATCH_IP_PROTO \<Rightarrow> (ucast (de_match_value e) :: byte) \<noteq> 0 \<and> carries_proto pkt (ucast (de_match_value e))
      | MATCH_UDP_PORT \<Rightarrow> (ucast (de_match_value e) :: 16 word) \<noteq> 0 \<and> carries_udp_to pkt (ucast (de_match_value e))
      | MATCH_CUSTOM \<Rightarrow> (\<exists>f. de_match_fn e = Some f \<and> f pkt))"

lemma decode_ipv4_fields:
  "decode_ipv4 pkt = Some
     (if 24 \<le> length pkt then pkt ! 23 else 0,
      if 24 \<le> length pkt \<and> pkt ! 23 = PS_IPPROTO_UDP \<and> 14 + unat (pkt ! 14 AND 0x0f) * 4 + 4 \<le> length pkt
      then u16_at pkt (14 + unat (pkt ! 14 AND 0x0f) * 4 + 2) else 0)"
  by (simp add: decode_ipv4_def Let_def)

lemma decode_ipv6_fields:
  "decode_ipv6 pkt = Some
     (if 21 \<le> length pkt then pkt ! 20 else 0,
      if 58 \<le> length pkt \<and> pkt ! 20 = PS_IPPROTO_UDP then u16_at pkt 56 else 0)"
  by (simp add: decode_ipv6_def)

lemma dispatch_loop_filter:
  "dispatch_loop pkt ethertype ip_proto udp_dstport es =
     map de_handler (filter (\<lambda>e. de_enabled e \<and> entry_matched pkt ethertype ip_proto udp_dstport e) es)"
  by (induction es) auto

lemma entry_matched_wants:
  assumes len: "14 \<le> length pkt"
    and fields: "\<And>q. (ip_proto = q \<and> q \<noteq> 0) = (carries_proto pkt q \<and> q \<noteq> 0)"
      "\<And>q. (udp_dstport = q \<and> q \<noteq> 0) = (carries_udp_to pkt q \<and> q \<noteq> 0)"
  shows "entry_matched pkt (u16_at pkt 12) ip_proto udp_dstport e \<longleftrightarrow> wants e pkt"
  using len fields(1) [of "ucast (de_match_value e)"] fields(2) [of "ucast (de_match_value e)"]
  by (auto simp: entry_matched_def wants_def split: ps_proto_match_type.split option.split)

text \<open>C14. Dispatching a frame never reads behind its end and calls exactly the handlers that are enabled and
  registered for the frame, each once, in the order of registration.\<close>

theorem demux_dispatch_exact:
  fixes dmx :: "'h ps_protocol_demux"
  shows "ps_demux_dispatch dmx pkt = Some (map de_handler (filter (\<lambda>e. de_enabled e \<and> wants e pkt) dmx))"
proof (cases "length pkt < 14")
  case True
  then show ?thesis by (simp add: ps_demux_dispatch_def wants_def)
next
  case False
  then have len: "14 \<le> length pkt" by simp
  obtain p q where dec: "(if u16_at pkt 12 = ETHERTYPE_IPV4 then decode_ipv4 pkt
      else if u16_at pkt 12 = ETHERTYPE_IPV6 then decode_ipv6 pkt else Some (0, 0)) = Some (p, q)"
    by (metis decode_ipv4_fields decode_ipv6_fields)
  have "(p = x \<and> x \<noteq> 0) = (carries_proto pkt x \<and> x \<noteq> 0)" for x
    using dec len by (auto simp: decode_ipv4_fields decode_ipv6_fields carries_proto_def ip_proto_offset_def split: if_splits)
  moreover have "(q = x \<and> x \<noteq> 0) = (carries_udp_to pkt x \<and> x \<noteq> 0)" for x
    using dec len
    by (auto simp: decode_ipv4_fields decode_ipv6_fields carries_udp_to_def carries_proto_def ip_proto_offset_def udp_offset_def split: if_splits)
  ultimately have "entry_matched pkt (u16_at pkt 12) p q e \<longleftrightarrow> wants e pkt" for e :: "'h ps_demux_entry"
    using entry_matched_wants [OF len] by blast
  with dec len show ?thesis
    by (simp add: ps_demux_dispatch_def dispatch_loop_filter)
qed

section \<open>Switching a handler\<close>

lemma set_enabled_is_enabled:
  "fst (ps_demux_set_enabled dmx name b) = 0 \<Longrightarrow> ps_demux_is_enabled (snd (ps_demux_set_enabled dmx name b)) name = b"
  by (induction dmx) (auto simp: Let_def split: prod.splits if_splits)

lemma set_enabled_others:
  "length (snd (ps_demux_set_enabled dmx name b)) = length dmx \<and>
   (\<forall>i < length dmx. \<not> strncmp_eq (de_name (dmx ! i)) name 64 \<longrightarrow> snd (ps_demux_set_enabled dmx name b) ! i = dmx ! i)"
  by (induction dmx) (auto simp: Let_def nth_Cons split: prod.splits if_splits nat.splits)

text \<open>A name of 64 characters or more is cut when it is registered and then compared in full.\<close>

lemma long_name_not_found:
  assumes "64 \<le> length name"
  shows "ps_demux_is_enabled (snd (ps_demux_register ps_demux_init name t v h)) name = False"
proof -
  have "take 64 (snprintf_s 64 name) \<noteq> take 64 name"
  proof
    assume "take 64 (snprintf_s 64 name) = take 64 name"
    then have "length (take 64 (snprintf_s 64 name)) = length (take 64 name)" by simp
    with assms show False by (simp add: snprintf_s_def)
  qed
  then show ?thesis by (simp add: ps_demux_register_def ps_demux_init_def strncmp_eq_def)
qed

end
