(* ===== verification/Host_Table.thy ===== *)
theory Host_Table
  imports Json_Writer "HOL-Library.Word"
begin

text \<open>
  The table of hosts seen on the network, \<open>agent/src/host_table.c\<close>: a fixed array of entries that
  merges what the listeners report under a MAC address or an IP address.

  Shown: every sequence of updates keeps the table well formed, with the bounds of all its arrays,
  the count of valid entries and at most one entry for each MAC address; an update changes
  one entry only and is dropped only when the table is full.
\<close>

section \<open>The table\<close>

abbreviation PS_MAX_HOSTS :: nat where "PS_MAX_HOSTS \<equiv> 4096"
abbreviation PS_MAX_HOST_IPS :: nat where "PS_MAX_HOST_IPS \<equiv> 8"
abbreviation PS_MAX_HOST_SRCS :: nat where "PS_MAX_HOST_SRCS \<equiv> 16"

record ps_host_entry =
  he_valid :: bool
  he_mac :: "8 word list"
  he_has_mac :: bool
  he_ips :: "string list"
  he_hostname :: string
  he_device_type :: string
  he_sources :: "string list"
  he_first_seen :: "64 word"
  he_last_seen :: "64 word"
  he_event_count :: int

definition zero_host :: ps_host_entry where
  "zero_host = \<lparr>he_valid = False, he_mac = replicate 6 0, he_has_mac = False, he_ips = [], he_hostname = [],
     he_device_type = [], he_sources = [], he_first_seen = 0, he_last_seen = 0, he_event_count = 0\<rparr>"

record ps_host_table =
  ht_entries :: "ps_host_entry list"
  ht_count :: nat

definition ps_host_table_init :: ps_host_table where
  "ps_host_table_init = \<lparr>ht_entries = replicate PS_MAX_HOSTS zero_host, ht_count = 0\<rparr>"

fun first_index :: "('a \<Rightarrow> bool) \<Rightarrow> 'a list \<Rightarrow> nat option" where
  \<comment> \<open>a loop over the array that stops at the first entry with a property\<close>
  "first_index P [] = None"
| "first_index P (x # xs) = (if P x then Some 0 else map_option Suc (first_index P xs))"

definition ps_host_table_find_by_mac :: "ps_host_table \<Rightarrow> 8 word list option \<Rightarrow> nat option" where
  \<comment> \<open>an entry is its index\<close>
  "ps_host_table_find_by_mac ht mac =
     (case mac of
        None \<Rightarrow> None
      | Some m \<Rightarrow> first_index (\<lambda>e. he_valid e \<and> he_has_mac e \<and> he_mac e = take 6 m) (ht_entries ht))"

definition ps_host_table_find_by_ip :: "ps_host_table \<Rightarrow> string option \<Rightarrow> nat option" where
  "ps_host_table_find_by_ip ht ip =
     (case ip of
        None \<Rightarrow> None
      | Some s \<Rightarrow> if s = [] then None else first_index (\<lambda>e. he_valid e \<and> s \<in> set (he_ips e)) (ht_entries ht))"

section \<open>Updates\<close>

record host_report =
  hr_ip :: "string option"
  hr_mac :: "8 word list option"
  hr_hostname :: "string option"
  hr_device_type :: "string option"
  hr_source :: "string option"

definition given :: "string option \<Rightarrow> bool" where
  \<comment> \<open>\<open>s && s[0] != 0\<close>\<close>
  "given s = (s \<noteq> None \<and> s \<noteq> Some [])"

definition add_once :: "nat \<Rightarrow> nat \<Rightarrow> string list \<Rightarrow> string \<Rightarrow> string list" where
  \<comment> \<open>a string is added to an array of \<open>n\<close> buffers of \<open>cap\<close> bytes unless it is there\<close>
  "add_once n cap xs s = (if s \<in> set xs then xs else if length xs < n then xs @ [snprintf_s cap s] else xs)"

definition merge_report :: "host_report \<Rightarrow> 64 word \<Rightarrow> ps_host_entry \<Rightarrow> ps_host_entry" where
  \<comment> \<open>the second half of \<open>ps_host_table_update\<close>\<close>
  "merge_report r now_usec e =
     (let e = (case hr_mac r of
                 Some m \<Rightarrow> if he_has_mac e then e else e\<lparr>he_mac := take 6 m, he_has_mac := True\<rparr>
               | None \<Rightarrow> e);
          e = (if given (hr_ip r) then e\<lparr>he_ips := add_once PS_MAX_HOST_IPS 46 (he_ips e) (the (hr_ip r))\<rparr> else e);
          e = (if given (hr_hostname r) \<and> he_hostname e = [] then e\<lparr>he_hostname := snprintf_s 256 (the (hr_hostname r))\<rparr> else e);
          e = (if given (hr_device_type r) \<and> he_device_type e = []
               then e\<lparr>he_device_type := snprintf_s 32 (the (hr_device_type r))\<rparr> else e);
          e = (if given (hr_source r) then e\<lparr>he_sources := add_once PS_MAX_HOST_SRCS 32 (he_sources e) (the (hr_source r))\<rparr> else e)
      in e\<lparr>he_last_seen := now_usec, he_event_count := cast_int (he_event_count e + 1)\<rparr>)"

definition find_host :: "ps_host_table \<Rightarrow> host_report \<Rightarrow> nat option" where
  "find_host ht r =
     (case ps_host_table_find_by_mac ht (hr_mac r) of
        Some i \<Rightarrow> Some i
      | None \<Rightarrow> ps_host_table_find_by_ip ht (hr_ip r))"

definition ps_host_table_update :: "ps_host_table \<Rightarrow> host_report \<Rightarrow> 64 word \<Rightarrow> nat option \<times> ps_host_table" where
  "ps_host_table_update ht r now_usec =
     (case find_host ht r of
        Some i \<Rightarrow> (Some i, ht\<lparr>ht_entries := (ht_entries ht)[i := merge_report r now_usec (ht_entries ht ! i)]\<rparr>)
      | None \<Rightarrow>
          if ht_count ht \<ge> PS_MAX_HOSTS then (None, ht)
          else case first_index (\<lambda>e. \<not> he_valid e) (ht_entries ht) of
                 None \<Rightarrow> (None, ht)
               | Some i \<Rightarrow>
                   (let e = zero_host\<lparr>he_valid := True, he_first_seen := now_usec\<rparr>
                    in (Some i, ht\<lparr>ht_entries := (ht_entries ht)[i := merge_report r now_usec e], ht_count := ht_count ht + 1\<rparr>)))"

section \<open>Printing\<close>

definition hex2 :: "8 word \<Rightarrow> string" where
  "hex2 b = [hex_digit (unat b div 16), hex_digit (unat b mod 16)]"

definition show_mac :: "8 word list \<Rightarrow> string" where
  "show_mac m = hex2 (m ! 0) @ '':'' @ hex2 (m ! 1) @ '':'' @ hex2 (m ! 2) @ '':'' @ hex2 (m ! 3) @ '':'' @
     hex2 (m ! 4) @ '':'' @ hex2 (m ! 5)"

definition ps_host_entry_emit :: "ps_json \<Rightarrow> ps_host_entry \<Rightarrow> ps_json" where
  "ps_host_entry_emit j e =
     (let j = (if he_has_mac e then ps_json_key_string j ''mac'' (show_mac (he_mac e)) else ps_json_key_null j ''mac'');
          j = ps_json_array_end (foldl ps_json_array_string (ps_json_array_begin j ''ips'') (he_ips e));
          j = ps_json_key_string j ''hostname'' (he_hostname e);
          j = ps_json_key_string j ''device_type'' (he_device_type e);
          j = ps_json_array_end (foldl ps_json_array_string (ps_json_array_begin j ''sources'') (he_sources e));
          j = ps_json_key_int j ''first_seen_usec'' (sint (he_first_seen e));
          j = ps_json_key_int j ''last_seen_usec'' (sint (he_last_seen e))
      in ps_json_key_int j ''event_count'' (he_event_count e))"

definition ps_host_entry_to_json :: "ps_host_entry \<Rightarrow> nat \<Rightarrow> string option" where
  "ps_host_entry_to_json e bufsz =
     ps_json_finish (ps_json_object_end (ps_host_entry_emit (ps_json_object_begin (ps_json_init bufsz)) e))"

definition ps_host_table_to_json :: "ps_host_table \<Rightarrow> nat \<Rightarrow> string option" where
  "ps_host_table_to_json ht bufsz =
     (let j = ps_json_object_begin (ps_json_init bufsz);
          j = ps_json_key_int j ''host_count'' (int (ht_count ht));
          j = ps_json_array_begin j ''hosts'';
          j = foldl (\<lambda>j e. if \<not> he_valid e then j
                 else ps_json_object_end (ps_host_entry_emit (ps_json_object_begin j) e)) j (ht_entries ht)
      in ps_json_finish (ps_json_object_end (ps_json_array_end j)))"

section \<open>Well-formed tables\<close>

definition entry_ok :: "ps_host_entry \<Rightarrow> bool" where
  "entry_ok e \<longleftrightarrow> length (he_ips e) \<le> PS_MAX_HOST_IPS \<and> list_all (\<lambda>s. s \<noteq> [] \<and> length s < 46) (he_ips e) \<and>
     length (he_hostname e) < 256 \<and> length (he_device_type e) < 32 \<and>
     length (he_sources e) \<le> PS_MAX_HOST_SRCS \<and> list_all (\<lambda>s. s \<noteq> [] \<and> length s < 32) (he_sources e) \<and>
     - (2 ^ 31) \<le> he_event_count e \<and> he_event_count e < 2 ^ 31"

definition owns_mac :: "8 word list \<Rightarrow> ps_host_entry \<Rightarrow> bool" where
  "owns_mac m e \<longleftrightarrow> he_valid e \<and> he_has_mac e \<and> he_mac e = m"

definition host_inv :: "ps_host_table \<Rightarrow> bool" where
  "host_inv ht \<longleftrightarrow> length (ht_entries ht) = PS_MAX_HOSTS \<and> ht_count ht = length (filter he_valid (ht_entries ht)) \<and>
     list_all entry_ok (ht_entries ht) \<and> (\<forall>m. length (filter (owns_mac m) (ht_entries ht)) \<le> 1)"

lemma first_index_None: "first_index P xs = None \<longleftrightarrow> (\<forall>x \<in> set xs. \<not> P x)"
  by (induction xs) auto

lemma first_index_Some: "first_index P xs = Some i \<Longrightarrow> i < length xs \<and> P (xs ! i)"
  by (induction xs arbitrary: i) (auto split: if_splits)

lemma length_filter_update:
  assumes "i < length xs"
  shows "int (length (filter P (xs[i := y]))) =
     int (length (filter P xs)) - (if P (xs ! i) then 1 else 0) + (if P y then 1 else 0)"
proof -
  have "filter P xs = filter P (take i xs) @ filter P [xs ! i] @ filter P (drop (Suc i) xs)"
    using id_take_nth_drop [OF assms] by (metis append_Cons append_Nil filter_append)
  then show ?thesis by (simp add: upd_conv_take_nth_drop [OF assms])
qed

lemma add_once_ok:
  "s \<noteq> [] \<Longrightarrow> 1 < cap \<Longrightarrow> length xs \<le> n \<Longrightarrow> list_all (\<lambda>s. s \<noteq> [] \<and> length s < cap) xs \<Longrightarrow>
   length (add_once n cap xs s) \<le> n \<and> list_all (\<lambda>s. s \<noteq> [] \<and> length s < cap) (add_once n cap xs s)"
  by (auto simp: add_once_def snprintf_s_def)

lemma merge_fields:
  "he_valid (merge_report r t e) = he_valid e"
  "he_has_mac (merge_report r t e) = (he_has_mac e \<or> hr_mac r \<noteq> None)"
  "he_mac (merge_report r t e) = (case hr_mac r of Some m \<Rightarrow> if he_has_mac e then he_mac e else take 6 m | None \<Rightarrow> he_mac e)"
  "he_ips (merge_report r t e) = (if given (hr_ip r) then add_once PS_MAX_HOST_IPS 46 (he_ips e) (the (hr_ip r)) else he_ips e)"
  "he_hostname (merge_report r t e) =
     (if given (hr_hostname r) \<and> he_hostname e = [] then snprintf_s 256 (the (hr_hostname r)) else he_hostname e)"
  "he_device_type (merge_report r t e) =
     (if given (hr_device_type r) \<and> he_device_type e = [] then snprintf_s 32 (the (hr_device_type r)) else he_device_type e)"
  "he_sources (merge_report r t e) =
     (if given (hr_source r) then add_once PS_MAX_HOST_SRCS 32 (he_sources e) (the (hr_source r)) else he_sources e)"
  "he_event_count (merge_report r t e) = cast_int (he_event_count e + 1)"
  by (auto simp: merge_report_def Let_def split: option.split)

lemma merge_ok:
  assumes "entry_ok e"
  shows "entry_ok (merge_report r t e)"
proof -
  have "- (2 ^ 31) \<le> cast_int i \<and> cast_int i < 2 ^ 31" for i
    using sint_ge [of "word_of_int i :: 32 word"] sint_lt [of "word_of_int i :: 32 word"] by (simp add: cast_int_def)
  moreover have "length (snprintf_s 256 s) < 256" "length (snprintf_s 32 s) < 32" for s by (simp_all add: snprintf_s_length)
  moreover have "the s \<noteq> []" if "given s" for s using that by (auto simp: given_def)
  ultimately show ?thesis
    using assms add_once_ok [of _ 46 "he_ips e" PS_MAX_HOST_IPS] add_once_ok [of _ 32 "he_sources e" PS_MAX_HOST_SRCS]
    by (simp add: entry_ok_def merge_fields)
qed

lemma owner_free:
  assumes "ps_host_table_find_by_mac ht (Some m) = None"
  shows "filter (owns_mac (take 6 m)) (ht_entries ht) = []"
  using assms by (auto simp: ps_host_table_find_by_mac_def first_index_None owns_mac_def filter_empty_conv)

lemma update_entry_inv:
  assumes inv: "host_inv ht" and i: "i < length (ht_entries ht)" and e: "entry_ok e" "he_valid e"
    and old: "e = ht_entries ht ! i \<or> \<not> he_valid (ht_entries ht ! i) \<and> \<not> he_has_mac e"
    and mac: "\<And>m. hr_mac r = Some m \<Longrightarrow> he_has_mac e \<or> ps_host_table_find_by_mac ht (Some m) = None"
    and c: "c = ht_count ht + (if he_valid (ht_entries ht ! i) then 0 else 1)"
  shows "host_inv \<lparr>ht_entries = (ht_entries ht)[i := merge_report r t e], ht_count = c\<rparr>"
proof -
  let ?es = "ht_entries ht"
  let ?e = "merge_report r t e"
  have "list_all entry_ok (?es[i := ?e])"
    using inv merge_ok [OF e(1)] by (auto simp: host_inv_def list_all_iff dest: set_update_subset_insert [THEN subsetD])
  moreover have "int (length (filter he_valid (?es[i := ?e]))) = int c"
    unfolding length_filter_update [OF i] using inv e(2) c by (simp add: host_inv_def merge_fields)
  moreover have "length (filter (owns_mac m) (?es[i := ?e])) \<le> 1" for m
  proof -
    have one: "length (filter (owns_mac m) ?es) \<le> 1" using inv by (simp add: host_inv_def)
    have "owns_mac m ?e \<Longrightarrow> owns_mac m (?es ! i) \<or> filter (owns_mac m) ?es = []"
    proof -
      assume own: "owns_mac m ?e"
      show "owns_mac m (?es ! i) \<or> filter (owns_mac m) ?es = []"
      proof (cases "he_has_mac e")
        case True
        then have "he_mac ?e = he_mac e" by (simp add: merge_fields split: option.split)
        with own True e(2) old show ?thesis by (auto simp: owns_mac_def)
      next
        case False
        with own obtain n where "hr_mac r = Some n" "m = take 6 n" by (auto simp: owns_mac_def merge_fields)
        with mac False owner_free show ?thesis by blast
      qed
    qed
    then have "int (length (filter (owns_mac m) (?es[i := ?e]))) \<le> 1"
      unfolding length_filter_update [OF i] using one by auto
    then show ?thesis by simp
  qed
  ultimately show ?thesis using inv by (simp add: host_inv_def)
qed

lemma zero_host_ok: "entry_ok zero_host" "\<not> he_valid zero_host" "\<not> he_has_mac zero_host"
  by (simp_all add: zero_host_def entry_ok_def)

lemma find_host_valid:
  assumes "find_host ht r = Some i"
  shows "i < length (ht_entries ht) \<and> he_valid (ht_entries ht ! i) \<and>
    (\<forall>m. hr_mac r = Some m \<longrightarrow> he_has_mac (ht_entries ht ! i) \<or> ps_host_table_find_by_mac ht (Some m) = None)"
proof (cases "ps_host_table_find_by_mac ht (hr_mac r)")
  case None
  with assms show ?thesis
    by (auto simp: find_host_def ps_host_table_find_by_ip_def dest!: first_index_Some split: option.splits if_splits)
next
  case (Some j)
  with assms show ?thesis
    by (auto simp: find_host_def ps_host_table_find_by_mac_def dest!: first_index_Some split: option.splits)
qed

lemma update_inv:
  assumes inv: "host_inv ht"
  shows "host_inv (snd (ps_host_table_update ht r t))"
proof (cases "find_host ht r")
  case (Some i)
  note f = find_host_valid [OF Some]
  have "entry_ok (ht_entries ht ! i)" using f inv by (auto simp: host_inv_def list_all_iff)
  with f have "host_inv \<lparr>ht_entries = (ht_entries ht)[i := merge_report r t (ht_entries ht ! i)], ht_count = ht_count ht\<rparr>"
    by (intro update_entry_inv [OF inv]) auto
  with Some show ?thesis by (cases ht) (simp add: ps_host_table_update_def)
next
  case None
  then have free: "\<And>m. hr_mac r = Some m \<Longrightarrow> ps_host_table_find_by_mac ht (Some m) = None"
    by (auto simp: find_host_def split: option.splits)
  show ?thesis
  proof (cases "first_index (\<lambda>e. \<not> he_valid e) (ht_entries ht)")
    case (Some i)
    let ?e = "zero_host\<lparr>he_valid := True, he_first_seen := t\<rparr>"
    have i: "i < length (ht_entries ht)" "\<not> he_valid (ht_entries ht ! i)" using first_index_Some [OF Some] by auto
    have "entry_ok ?e" "\<not> he_has_mac ?e" using zero_host_ok by (simp_all add: entry_ok_def)
    with i free have "host_inv \<lparr>ht_entries = (ht_entries ht)[i := merge_report r t ?e], ht_count = ht_count ht + 1\<rparr>"
      by (intro update_entry_inv [OF inv]) auto
    with Some \<open>find_host ht r = None\<close> inv show ?thesis by (cases ht) (simp add: ps_host_table_update_def Let_def)
  qed (use None inv in \<open>simp add: ps_host_table_update_def\<close>)
qed

lemma init_inv: "host_inv ps_host_table_init"
  using zero_host_ok by (simp add: host_inv_def ps_host_table_init_def owns_mac_def list_all_iff)

text \<open>The table refuses an update only when it is full; the branch for a missing slot is never taken.\<close>

lemma update_full:
  assumes inv: "host_inv ht"
  shows "fst (ps_host_table_update ht r t) = None \<longleftrightarrow> find_host ht r = None \<and> ht_count ht = PS_MAX_HOSTS"
proof -
  have "first_index (\<lambda>e. \<not> he_valid e) (ht_entries ht) = None \<Longrightarrow> ht_count ht = PS_MAX_HOSTS"
    using inv unfolding first_index_None host_inv_def by (metis filter_True)
  moreover have "ht_count ht \<le> PS_MAX_HOSTS" using inv length_filter_le unfolding host_inv_def by metis
  ultimately show ?thesis by (auto simp: ps_host_table_update_def Let_def split: option.split)
qed

text \<open>C37. Every sequence of reports leaves the host table well formed: all arrays and strings within their
  bounds, the count equal to the number of valid entries, and no MAC address in two entries.\<close>

theorem host_table_well_formed:
  "host_inv (foldl (\<lambda>ht (r, t). snd (ps_host_table_update ht r t)) ps_host_table_init reports)"
proof -
  have "host_inv ht \<Longrightarrow> host_inv (foldl (\<lambda>ht (r, t). snd (ps_host_table_update ht r t)) ht reports)" for ht
    by (induction reports arbitrary: ht) (auto simp: update_inv)
  then show ?thesis using init_inv .
qed

end
