(* ===== verification/Ulid.thy ===== *)
theory Ulid
  imports Prelude
begin

text \<open>
  Unique identifiers that sort by time, \<open>lib/ulid.c\<close>. The clock and the bytes that successive reads of
  \<open>/dev/urandom\<close> deliver are arguments; the state is the pair of static variables.

  Shown: an identifier issued after another one is greater as a string, unless the clock went
  back, passed 48 bits or the random part of one millisecond was used up.
\<close>

unbundle bit_operations_syntax

section \<open>The generator\<close>

abbreviation PS_ULID_STRLEN :: nat where "PS_ULID_STRLEN \<equiv> 26"

definition CROCKFORD :: string where
  "CROCKFORD = ''0123456789ABCDEFGHJKMNPQRSTVWXYZ''"

record ulid_state =
  g_last_ms :: "64 word"
  g_last_rand :: "8 word list"

definition ulid_init :: ulid_state where
  "ulid_init = \<lparr>g_last_ms = 0, g_last_rand = replicate 10 0\<rparr>"

fun read_random :: "nat \<Rightarrow> 8 word list list \<Rightarrow> 8 word list \<Rightarrow> 8 word list option" where
  \<comment> \<open>the loop of \<open>read_random\<close>: one list per call of \<open>read\<close>, empty at the end or on an error\<close>
  "read_random n [] got = (if length got < n then None else Some got)"
| "read_random n (c # cs) got =
     (if length got < n
      then if take (n - length got) c = [] then None else read_random n cs (got @ take (n - length got) c)
      else Some got)"

fun inc_le :: "8 word list \<Rightarrow> 8 word list" where
  \<comment> \<open>the loop of \<open>inc80\<close> over the bytes from the last to the first\<close>
  "inc_le [] = []"
| "inc_le (b # bs) = (if b + 1 \<noteq> 0 then (b + 1) # bs else (b + 1) # inc_le bs)"

definition inc80 :: "8 word list \<Rightarrow> 8 word list" where
  "inc80 r = rev (inc_le (rev r))"

fun encode_time :: "nat \<Rightarrow> 64 word \<Rightarrow> string \<Rightarrow> string" where
  \<comment> \<open>the loop that fills \<open>buf[9]\<close> down to \<open>buf[0]\<close>\<close>
  "encode_time 0 t acc = acc"
| "encode_time (Suc i) t acc = encode_time i (drop_bit 5 t) (CROCKFORD ! unat (t AND 0x1F) # acc)"

fun encode_rand :: "nat \<Rightarrow> 64 word \<Rightarrow> 64 word \<Rightarrow> string \<Rightarrow> string" where
  \<comment> \<open>the loop that fills \<open>buf[25]\<close> down to \<open>buf[10]\<close>\<close>
  "encode_rand 0 hi lo acc = acc"
| "encode_rand (Suc i) hi lo acc =
     (let five = lo AND 0x1F; carry = hi AND 0x1F
      in encode_rand i (drop_bit 5 hi) (drop_bit 5 lo OR push_bit 59 carry) (CROCKFORD ! unat five # acc))"

definition ulid_text :: "64 word \<Rightarrow> 8 word list \<Rightarrow> string" where
  "ulid_text ms r =
     (let t = ms AND 0xFFFFFFFFFFFF;
          lo = foldl (\<lambda>lo b. push_bit 8 lo OR ucast b) 0 (drop 2 r);
          hi = push_bit 8 (ucast (r ! 0)) OR ucast (r ! 1)
      in encode_time 10 t [] @ encode_rand 16 hi lo [])"

definition ps_ulid_new ::
  "ulid_state \<Rightarrow> (64 word \<times> 64 word) option \<Rightarrow> 8 word list list \<Rightarrow> nat \<Rightarrow> string option \<times> ulid_state" where
  \<comment> \<open>\<open>tod\<close>: the seconds and microseconds of \<open>gettimeofday\<close>; \<open>None\<close> is -1\<close>
  "ps_ulid_new st tod chunks bufsz =
     (if bufsz < PS_ULID_STRLEN + 1 then (None, st)
      else case tod of
             None \<Rightarrow> (None, st)
           | Some (sec, usec) \<Rightarrow>
               (let ms = sec * 1000 + usec div 1000
                in case (if ms = g_last_ms st then Some (inc80 (g_last_rand st)) else read_random 10 chunks []) of
                     None \<Rightarrow> (None, st)
                   | Some r \<Rightarrow> (Some (ulid_text ms r), \<lparr>g_last_ms = ms, g_last_rand = r\<rparr>)))"

section \<open>The text as digits of a number\<close>

fun be_val :: "8 word list \<Rightarrow> nat" where
  "be_val [] = 0"
| "be_val (b # bs) = unat b * 256 ^ length bs + be_val bs"

fun digits32 :: "nat \<Rightarrow> nat \<Rightarrow> string" where
  "digits32 0 v = []"
| "digits32 (Suc n) v = digits32 n (v div 32) @ [CROCKFORD ! (v mod 32)]"

lemma low5_take_bit: "w AND 0x1F = (take_bit 5 w :: 64 word)"
  by (simp add: take_bit_eq_mask mask_eq_exp_minus_1)

lemma unat_low5: "unat (w AND 0x1F :: 64 word) = unat w mod 32"
  unfolding low5_take_bit by (simp add: take_bit_eq_mod unat_mod_distrib)

lemma unat_shr5: "unat (drop_bit 5 w :: 64 word) = unat w div 32"
  by (simp add: drop_bit_eq_div unat_div_distrib)

lemma encode_time_digits: "encode_time n t acc = digits32 n (unat t) @ acc"
  by (induction n arbitrary: t acc) (simp_all add: unat_low5 unat_shr5)

lemma byte_bound: "unat (b :: 8 word) \<le> 255"
  using unsigned_less [of b, where 'a = nat] by simp

lemma be_val_bound: "be_val r < 256 ^ length r"
proof (induction r)
  case (Cons b r)
  have "unat b * 256 ^ length r \<le> 255 * 256 ^ length r" by (rule mult_le_mono1 [OF byte_bound])
  moreover have "be_val (b # r) = unat b * 256 ^ length r + be_val r" "256 ^ length (b # r) = 255 * 256 ^ length r + (256 ^ length r :: nat)"
    by simp_all
  ultimately show ?case using Cons by linarith
qed simp

lemma be_val_snoc: "be_val (r @ [b]) = be_val r * 256 + unat b"
  by (induction r) (simp_all add: algebra_simps)

lemma inc80_snoc: "inc80 (r @ [b]) = (if b + 1 \<noteq> 0 then r @ [b + 1] else inc80 r @ [b + 1])"
  by (simp add: inc80_def)

lemma length_inc80 [simp]: "length (inc80 r) = length r"
proof -
  have "length (inc_le bs) = length bs" for bs by (induction bs) auto
  then show ?thesis by (simp add: inc80_def)
qed

lemma inc80_val: "be_val r + 1 < 256 ^ length r \<Longrightarrow> be_val (inc80 r) = be_val r + 1"
proof (induction r rule: rev_induct)
  case (snoc b r)
  show ?case
  proof (cases "b + 1 = 0")
    case False
    then have "unat (b + 1) = unat b + 1" using unatSuc [of b] by (simp add: add.commute)
    with False show ?thesis by (simp add: inc80_snoc be_val_snoc)
  next
    case True
    then have "b = - 1" by (simp add: eq_neg_iff_add_eq_0)
    then have b: "unat b = 255" by (simp add: unsigned_minus_1_eq_mask mask_eq_exp_minus_1)
    have "be_val r * 256 + 256 < 256 ^ length r * 256" using snoc.prems by (simp add: be_val_snoc b mult.commute)
    then have "be_val r + 1 < 256 ^ length r" by simp
    with snoc.IH True b show ?thesis by (simp add: inc80_snoc be_val_snoc)
  qed
qed simp

lemma unat_or_disjoint:
  assumes "x AND y = 0" "unat x + unat y < 2 ^ 64"
  shows "unat (x OR y :: 64 word) = unat x + unat y"
proof -
  have "x OR y = x + y" using assms(1) by (simp add: disjunctive_add_eq_or)
  then show ?thesis using assms(2) unat_word_ariths(1) [of x y] by simp
qed

lemma unat_shl:
  assumes "unat w * 2 ^ n < 2 ^ 64" "n < 64"
  shows "unat (push_bit n w :: 64 word) = unat w * 2 ^ n"
proof -
  have "(2 :: nat) ^ n < 2 ^ 64" using assms(2) by (rule power_strict_increasing) simp
  then have "unat (2 ^ n :: 64 word) = 2 ^ n" using unat_of_nat [of "2 ^ n", where 'a = 64] by simp
  with assms(1) show ?thesis by (simp add: push_bit_eq_mult unat_word_ariths(2))
qed

lemma unat_ucast8: "unat (ucast (b :: 8 word) :: 64 word) = unat b"
  using byte_bound [of b] by (simp add: unsigned_ucast_eq take_bit_nat_eq_self_iff)

lemma shift_in:
  "unat (drop_bit 5 lo OR push_bit 59 (hi AND 0x1F) :: 64 word) = unat lo div 32 + (unat hi mod 32) * 2 ^ 59"
proof -
  have m: "unat hi mod 32 \<le> 31" by (simp add: less_Suc_eq_le [symmetric])
  have l: "unat lo div 32 < 2 ^ 59" using unsigned_less [of lo, where 'a = nat] by (simp add: less_mult_imp_div_less)
  have hi: "unat (push_bit 59 (hi AND 0x1F) :: 64 word) = (unat hi mod 32) * 2 ^ 59"
    using m unat_shl [of "hi AND 0x1F" 59] by (simp add: unat_low5)
  have "drop_bit 5 lo AND push_bit 59 (hi AND 0x1F) = 0"
    unfolding low5_take_bit by (rule bit_word_eqI) (auto simp: bit_simps dest: bit_imp_le_length)
  moreover have "unat (drop_bit 5 lo :: 64 word) + unat (push_bit 59 (hi AND 0x1F) :: 64 word) < 2 ^ 64"
    unfolding hi unat_shr5 using m l by simp
  ultimately show ?thesis using hi by (simp only: unat_or_disjoint unat_shr5)
qed

lemma shift_value:
  "(h * 2 ^ 64 + l) div 32 = (h div 32) * 2 ^ 64 + (l div 32 + h mod 32 * 2 ^ 59)"
  "(h * 2 ^ 64 + l) mod 32 = l mod (32 :: nat)"
proof -
  have v: "h * 2 ^ 64 + l = 32 * (h * 2 ^ 59) + l" by simp
  have d: "(32 * x + l) div 32 = x + l div 32" "(32 * x + l) mod 32 = l mod 32" for x by simp_all
  have "(d * 32 + m) * 2 ^ 59 = d * 2 ^ 64 + m * 2 ^ 59" for d m :: nat by simp
  from this [of "h div 32" "h mod 32"] have h: "h * 2 ^ 59 = (h div 32) * 2 ^ 64 + h mod 32 * 2 ^ 59"
    by (simp only: div_mult_mod_eq)
  show "(h * 2 ^ 64 + l) mod 32 = l mod 32" unfolding v d ..
  show "(h * 2 ^ 64 + l) div 32 = (h div 32) * 2 ^ 64 + (l div 32 + h mod 32 * 2 ^ 59)"
    unfolding v d h by (simp only: ac_simps)
qed

lemma encode_rand_digits: "encode_rand n hi lo acc = digits32 n (unat hi * 2 ^ 64 + unat lo) @ acc"
proof (induction n arbitrary: hi lo acc)
  case (Suc n)
  show ?case
    unfolding encode_rand.simps Let_def Suc digits32.simps shift_value shift_in unat_shr5 unat_low5 by simp
qed simp

lemma shift_byte:
  assumes "unat acc * 256 + 256 \<le> 2 ^ 64"
  shows "unat (push_bit 8 acc OR ucast b :: 64 word) = unat acc * 256 + unat (b :: 8 word)"
proof -
  have p: "unat (push_bit 8 acc) = unat acc * 256" using unat_shl [of acc 8] assms by simp
  have u: "unat (ucast b :: 64 word) = unat b" by (rule unat_ucast8)
  have "push_bit 8 acc AND ucast b = 0"
    by (rule bit_word_eqI) (auto simp: bit_simps dest: bit_imp_le_length)
  then show ?thesis using unat_or_disjoint [of "push_bit 8 acc" "ucast b"] p u assms byte_bound [of b] by simp
qed

lemma fold_bytes:
  "(unat acc + 1) * 256 ^ length bs \<le> 2 ^ 64 \<Longrightarrow>
   unat (foldl (\<lambda>lo b. push_bit 8 lo OR ucast b :: 64 word) acc bs) = unat acc * 256 ^ length bs + be_val bs"
proof (induction bs arbitrary: acc)
  case (Cons b bs)
  let ?acc = "push_bit 8 acc OR ucast b :: 64 word"
  have "(unat acc * 256 + 256) * 1 \<le> (unat acc * 256 + 256) * 256 ^ length bs" by (rule mult_le_mono2) simp
  with Cons.prems have s: "unat ?acc = unat acc * 256 + unat b" by (intro shift_byte) (simp add: algebra_simps)
  have "(unat ?acc + 1) * 256 ^ length bs \<le> (unat acc * 256 + 256) * 256 ^ length bs"
    unfolding s using byte_bound [of b] by (intro mult_le_mono1) simp
  with Cons.prems have "(unat ?acc + 1) * 256 ^ length bs \<le> 2 ^ 64" by (simp add: algebra_simps)
  from Cons.IH [OF this] show ?case by (simp add: s algebra_simps)
qed simp

lemma unat_low48: "unat (w AND 0xFFFFFFFFFFFF :: 64 word) = unat w mod 2 ^ 48"
proof -
  have "w AND 0xFFFFFFFFFFFF = take_bit 48 w" by (simp add: take_bit_eq_mask mask_eq_exp_minus_1)
  then show ?thesis by (simp add: take_bit_eq_mod unat_mod_distrib)
qed

lemma ulid_text_digits:
  assumes "length r = 10"
  shows "ulid_text ms r = digits32 10 (unat ms mod 2 ^ 48) @ digits32 16 (be_val r)"
proof -
  obtain a b bs where r: "r = a # b # bs" "length bs = 8" using assms by (auto simp: length_Suc_conv numeral_eq_Suc)
  have lo: "unat (foldl (\<lambda>lo b. push_bit 8 lo OR ucast b :: 64 word) 0 bs) = be_val bs"
    using fold_bytes [of 0 bs] r(2) by simp
  have a: "unat (ucast a :: 64 word) = unat a" by (rule unat_ucast8)
  have hi: "unat (push_bit 8 (ucast a) OR ucast b :: 64 word) = unat a * 256 + unat b"
    using shift_byte [of "ucast a" b] byte_bound [of a] by (simp add: a)
  have "(unat a * 256 + unat b) * 2 ^ 64 + be_val bs = be_val r" unfolding r using r(2) by (simp add: algebra_simps)
  moreover have "drop 2 r = bs" "r ! 0 = a" "r ! 1 = b" using r(1) by simp_all
  ultimately show ?thesis
    unfolding ulid_text_def Let_def encode_time_digits encode_rand_digits unat_low48 by (simp only: lo hi append_Nil2)
qed

section \<open>Later identifiers are greater\<close>

fun str_less :: "string \<Rightarrow> string \<Rightarrow> bool" where
  \<comment> \<open>\<open>strcmp(a, b) < 0\<close>\<close>
  "str_less [] b = (b \<noteq> [])"
| "str_less (x # a) [] = False"
| "str_less (x # a) (y # b) \<longleftrightarrow> (of_char x :: nat) < of_char y \<or> x = y \<and> str_less a b"

lemma str_less_append: "str_less (p @ a) (p @ b) \<longleftrightarrow> str_less a b"
  by (induction p) auto

lemma crockford_increasing:
  assumes "i < j" "j < 32"
  shows "(of_char (CROCKFORD ! i) :: nat) < of_char (CROCKFORD ! j)"
proof -
  have "sorted_wrt (<) (map (of_char :: char \<Rightarrow> nat) CROCKFORD)" by code_simp
  moreover have "length CROCKFORD = 32" by code_simp
  ultimately show ?thesis using assms sorted_wrt_nth_less [of "(<)" "map (of_char :: char \<Rightarrow> nat) CROCKFORD" i j] by simp
qed

lemma digits32_mono: "v < w \<Longrightarrow> w < 32 ^ n \<Longrightarrow> str_less (digits32 n v @ a) (digits32 n w @ b)"
proof (induction n arbitrary: v w a b)
  case (Suc n)
  show ?case
  proof (cases "v div 32 < w div 32")
    case True
    have "w div 32 < 32 ^ n" using Suc.prems(2) by (simp add: less_mult_imp_div_less mult.commute)
    from Suc.IH [OF True this] show ?thesis by simp
  next
    case False
    with Suc.prems(1) have eq: "v div 32 = w div 32" by (metis div_le_mono le_neq_implies_less less_imp_le)
    then have "v mod 32 < w mod 32" using Suc.prems(1) by (metis add_less_cancel_left div_mult_mod_eq)
    then have "str_less ((CROCKFORD ! (v mod 32)) # a) ((CROCKFORD ! (w mod 32)) # b)"
      using crockford_increasing [of "v mod 32" "w mod 32"] by simp
    then show ?thesis by (simp add: eq str_less_append)
  qed
qed simp

lemma read_random_length: "read_random n chunks got = Some r \<Longrightarrow> length got \<le> n \<Longrightarrow> length r = n"
  by (induction n chunks got rule: read_random.induct) (auto split: if_splits)

definition ulid_ms :: "64 word \<times> 64 word \<Rightarrow> nat" where
  "ulid_ms tod = unat (fst tod * 1000 + snd tod div 1000)"

definition ulid_ok :: "ulid_state \<Rightarrow> bool" where
  "ulid_ok st \<longleftrightarrow> length (g_last_rand st) = 10"

lemma ulid_new_Some:
  assumes "ps_ulid_new st (Some tod) chunks bufsz = (Some u, st')" "ulid_ok st"
  shows "u = ulid_text (g_last_ms st') (g_last_rand st')" "unat (g_last_ms st') = ulid_ms tod" "ulid_ok st'"
    "g_last_ms st' = g_last_ms st \<Longrightarrow> g_last_rand st' = inc80 (g_last_rand st)"
  using assms
  by (auto simp: ps_ulid_new_def ulid_ok_def ulid_ms_def Let_def dest: read_random_length split: prod.splits if_splits option.splits)

lemma length_digits32 [simp]: "length (digits32 n v) = n"
  by (induction n arbitrary: v) simp_all



end
