(* ===== verification/Ptr_Cache.thy ===== *)
theory Ptr_Cache
  imports Prelude
begin

text \<open>
  The cache of reverse names, \<open>lib/ptr_cache.c\<close>: clients look addresses up under a lock and schedule
  the unknown ones; one worker thread resolves the scheduled addresses without holding the
  lock. The shared state is a record, one critical section is one step, and a run is any
  interleaving of the steps of the clients and of the worker; the resolver is a parameter.

  Shown, for every reachable state: the counter of pending entries is exact, so the defensive branch
  of the worker is never taken; a resolved entry holds the answer of the resolver; and the worker
  always comes to rest with every scheduled address resolved.
\<close>

section \<open>The shared state\<close>

abbreviation PTR_MAX :: nat where "PTR_MAX \<equiv> 256"

datatype entry_state = Empty | Pending | Resolved

record ptr_entry =
  pe_ip :: string
  pe_name :: string
  pe_state :: entry_state

record ptr_cache =
  pc_e :: "ptr_entry list"
  pc_shutdown :: bool
  pc_pending :: int

definition ptr_cache_new :: ptr_cache where
  \<comment> \<open>\<open>new_with\<close> after its allocations; \<open>pc_e\<close> holds the first \<open>n\<close> entries\<close>
  "ptr_cache_new = \<lparr>pc_e = [], pc_shutdown = False, pc_pending = 0\<rparr>"

fun find_entry :: "(ptr_entry \<Rightarrow> bool) \<Rightarrow> ptr_entry list \<Rightarrow> nat option" where
  "find_entry P [] = None"
| "find_entry P (e # es) = (if P e then Some 0 else map_option Suc (find_entry P es))"

definition ptr_find :: "ptr_cache \<Rightarrow> string \<Rightarrow> nat option" where
  "ptr_find c ip = find_entry (\<lambda>e. pe_ip e = ip) (pc_e c)"

definition ptr_ensure :: "ptr_cache \<Rightarrow> string \<Rightarrow> nat option \<times> ptr_cache" where
  \<comment> \<open>\<open>None\<close> is -1\<close>
  "ptr_ensure c ip =
     (case ptr_find c ip of
        Some i \<Rightarrow> (Some i, c)
      | None \<Rightarrow>
          if length (pc_e c) \<ge> PTR_MAX then (None, c)
          else (Some (length (pc_e c)),
                c\<lparr>pc_e := pc_e c @ [\<lparr>pe_ip = snprintf_s 64 ip, pe_name = [], pe_state = Pending\<rparr>],
                  pc_pending := pc_pending c + 1\<rparr>))"

definition ps_ptr_cache_lookup :: "ptr_cache \<Rightarrow> string \<Rightarrow> nat \<Rightarrow> string option \<times> ptr_cache" where
  \<comment> \<open>the name when the result is 1, \<open>None\<close> when it is 0\<close>
  "ps_ptr_cache_lookup c ip cap =
     (case ptr_find c ip of
        Some i \<Rightarrow>
          if pe_state (pc_e c ! i) = Resolved then (Some (snprintf_s cap (pe_name (pc_e c ! i))), c)
          else (None, snd (ptr_ensure c ip))
      | None \<Rightarrow> (None, snd (ptr_ensure c ip)))"

definition wait_enter :: "ptr_cache \<Rightarrow> string \<Rightarrow> nat option \<times> ptr_cache" where
  \<comment> \<open>\<open>ps_ptr_cache_wait\<close> up to its loop, for a positive timeout\<close>
  "wait_enter c ip = ptr_ensure c ip"

definition wait_leave :: "ptr_cache \<Rightarrow> nat \<Rightarrow> nat \<Rightarrow> string option" where
  \<comment> \<open>\<open>ps_ptr_cache_wait\<close> when it leaves its loop, resolved or timed out\<close>
  "wait_leave c i cap =
     (if pe_state (pc_e c ! i) = Resolved then Some (snprintf_s cap (pe_name (pc_e c ! i))) else None)"

definition ps_ptr_cache_free :: "ptr_cache \<Rightarrow> ptr_cache" where
  \<comment> \<open>the critical section; the worker is joined afterwards\<close>
  "ps_ptr_cache_free c = c\<lparr>pc_shutdown := True\<rparr>"

section \<open>The worker\<close>

datatype worker = Waiting | Resolving nat string | Stopped

type_synonym resolver = "string \<Rightarrow> string option"

definition dec_pending :: "ptr_cache \<Rightarrow> ptr_cache" where
  "dec_pending c = (if pc_pending c > 0 then c\<lparr>pc_pending := pc_pending c - 1\<rparr> else c)"

fun worker_step :: "resolver \<Rightarrow> ptr_cache \<times> worker \<Rightarrow> (ptr_cache \<times> worker) option" where
  \<comment> \<open>one critical section of \<open>worker_main\<close>; \<open>None\<close>: the worker sleeps on the condition or has ended\<close>
  "worker_step r (c, Waiting) =
     (if pc_shutdown c then Some (c, Stopped)
      else if pc_pending c = 0 then None
      else case find_entry (\<lambda>e. pe_state e = Pending) (pc_e c) of
             None \<Rightarrow> Some (dec_pending c, Waiting)
           | Some idx \<Rightarrow> Some (c, Resolving idx (snprintf_s 64 (pe_ip (pc_e c ! idx)))))"
| "worker_step r (c, Resolving idx ip) =
     (let name = (case r ip of Some n \<Rightarrow> snprintf_s 256 n | None \<Rightarrow> []);
          e = (pc_e c ! idx)\<lparr>pe_name := name, pe_state := Resolved\<rparr>
      in Some (dec_pending (c\<lparr>pc_e := (pc_e c)[idx := e]\<rparr>), Waiting))"
| "worker_step r (c, Stopped) = None"

section \<open>Interleavings\<close>

inductive ptr_step :: "resolver \<Rightarrow> ptr_cache \<times> worker \<Rightarrow> ptr_cache \<times> worker \<Rightarrow> bool" for r where
  lookup: "ptr_step r (c, w) (snd (ps_ptr_cache_lookup c ip cap), w)"
| wait: "ptr_step r (c, w) (snd (wait_enter c ip), w)"
| free: "ptr_step r (c, w) (ps_ptr_cache_free c, w)"
| work: "worker_step r s = Some s' \<Longrightarrow> ptr_step r s s'"

inductive ptr_reachable :: "resolver \<Rightarrow> ptr_cache \<times> worker \<Rightarrow> bool" for r where
  start: "ptr_reachable r (ptr_cache_new, Waiting)"
| step: "ptr_reachable r s \<Longrightarrow> ptr_step r s s' \<Longrightarrow> ptr_reachable r s'"

inductive_cases ptr_stepE: "ptr_step r s s'"

definition answer :: "resolver \<Rightarrow> string \<Rightarrow> string" where
  \<comment> \<open>specification: the name stored for an address\<close>
  "answer r ip = (case r ip of Some n \<Rightarrow> snprintf_s 256 n | None \<Rightarrow> [])"

definition pending_count :: "ptr_cache \<Rightarrow> nat" where
  "pending_count c = length (filter (\<lambda>e. pe_state e = Pending) (pc_e c))"

definition entry_fine :: "resolver \<Rightarrow> ptr_entry \<Rightarrow> bool" where
  "entry_fine r e \<longleftrightarrow> length (pe_ip e) < 64 \<and>
     (pe_state e = Pending \<or> pe_state e = Resolved \<and> pe_name e = answer r (pe_ip e))"

definition cache_fine :: "resolver \<Rightarrow> ptr_cache \<times> worker \<Rightarrow> bool" where
  \<comment> \<open>the invariant\<close>
  "cache_fine r s \<longleftrightarrow>
     length (pc_e (fst s)) \<le> PTR_MAX \<and> pc_pending (fst s) = int (pending_count (fst s)) \<and>
     list_all (entry_fine r) (pc_e (fst s)) \<and> (snd s = Stopped \<longrightarrow> pc_shutdown (fst s)) \<and>
     (\<forall>idx ip. snd s = Resolving idx ip \<longrightarrow>
        idx < length (pc_e (fst s)) \<and> pe_state (pc_e (fst s) ! idx) = Pending \<and> pe_ip (pc_e (fst s) ! idx) = ip)"

lemma find_entry_None: "find_entry P es = None \<longleftrightarrow> (\<forall>e \<in> set es. \<not> P e)"
  by (induction es) auto

lemma find_entry_Some: "find_entry P es = Some i \<Longrightarrow> i < length es \<and> P (es ! i)"
  by (induction es arbitrary: i) (auto split: if_splits)

lemma pending_zero: "pending_count c = 0 \<longleftrightarrow> (\<forall>e \<in> set (pc_e c). pe_state e \<noteq> Pending)"
  by (auto simp: pending_count_def filter_empty_conv)

lemma pending_find: "find_entry (\<lambda>e. pe_state e = Pending) (pc_e c) = None \<longleftrightarrow> pending_count c = 0"
  by (simp add: find_entry_None pending_zero)

lemma ensure_fine:
  assumes "cache_fine r (c, w)"
  shows "cache_fine r (snd (ptr_ensure c ip), w)"
proof (cases "ptr_find c ip")
  case None
  show ?thesis
  proof (cases "length (pc_e c) \<ge> PTR_MAX")
    case False
    with None assms show ?thesis
      by (auto simp: ptr_ensure_def cache_fine_def pending_count_def entry_fine_def nth_append snprintf_s_length)
  qed (use None assms in \<open>simp add: ptr_ensure_def\<close>)
qed (use assms in \<open>simp add: ptr_ensure_def\<close>)

lemma lookup_ensure: "snd (ps_ptr_cache_lookup c ip cap) = c \<or> snd (ps_ptr_cache_lookup c ip cap) = snd (ptr_ensure c ip)"
  by (simp add: ps_ptr_cache_lookup_def split: option.split)

lemma pending_update:
  assumes "i < length (pc_e c)" "pe_state (pc_e c ! i) = Pending" "pe_state e = Resolved"
  shows "Suc (pending_count (c\<lparr>pc_e := (pc_e c)[i := e]\<rparr>)) = pending_count c"
proof -
  have "filter P (pc_e c) = filter P (take i (pc_e c)) @ filter P [pc_e c ! i] @ filter P (drop (Suc i) (pc_e c))" for P
    using id_take_nth_drop [OF assms(1)] by (metis append_Cons append_Nil filter_append)
  then show ?thesis using assms by (simp add: pending_count_def upd_conv_take_nth_drop)
qed

lemma worker_fine:
  assumes fine: "cache_fine r s" and step: "worker_step r s = Some s'"
  shows "cache_fine r s'"
proof -
  obtain c w where s: "s = (c, w)" by (cases s)
  show ?thesis
  proof (cases w)
    case Waiting
    show ?thesis
    proof (cases "find_entry (\<lambda>e. pe_state e = Pending) (pc_e c)")
      case None
      then have "pc_pending c = 0" using fine s by (simp add: cache_fine_def pending_find)
      with step fine s Waiting show ?thesis by (auto simp: cache_fine_def split: if_splits)
    next
      case (Some idx)
      note idx = find_entry_Some [OF Some]
      have "length (pe_ip (pc_e c ! idx)) < 64"
        using idx fine s by (auto simp: cache_fine_def entry_fine_def list_all_iff)
      with idx Some step fine s Waiting show ?thesis by (auto simp: cache_fine_def split: if_splits)
    qed
  next
    case (Resolving idx ip)
    let ?e = "(pc_e c ! idx)\<lparr>pe_name := answer r ip, pe_state := Resolved\<rparr>"
    have idx: "idx < length (pc_e c)" "pe_state (pc_e c ! idx) = Pending" "pe_ip (pc_e c ! idx) = ip"
      using fine s Resolving by (auto simp: cache_fine_def)
    then have "entry_fine r ?e" using fine s by (auto simp: cache_fine_def entry_fine_def list_all_iff)
    then have "list_all (entry_fine r) ((pc_e c)[idx := ?e])"
      using fine s by (auto simp: cache_fine_def list_all_iff dest: set_update_subset_insert [THEN subsetD])
    with step fine s Resolving pending_update [OF idx(1,2), of ?e] show ?thesis
      by (auto simp: cache_fine_def dec_pending_def pending_count_def answer_def Let_def)
  qed (use step s in simp)
qed

lemma reachable_fine: "ptr_reachable r s \<Longrightarrow> cache_fine r s"
proof (induction rule: ptr_reachable.induct)
  case start
  show ?case by (simp add: cache_fine_def ptr_cache_new_def pending_count_def)
next
  case (step s s')
  from step.hyps(2) show ?case
  proof (cases rule: ptr_step.cases)
    case (lookup c w ip cap)
    with step.IH ensure_fine lookup_ensure show ?thesis by metis
  next
    case (wait c w ip)
    with step.IH ensure_fine show ?thesis by (simp add: wait_enter_def)
  next
    case (free c w)
    with step.IH show ?thesis by (simp add: cache_fine_def ps_ptr_cache_free_def pending_count_def)
  next
    case work
    with step.IH worker_fine show ?thesis by blast
  qed
qed

text \<open>The worker never meets a positive counter without a pending entry.\<close>

lemma defensive_branch_dead:
  "ptr_reachable r (c, w) \<Longrightarrow> pc_pending c > 0 \<Longrightarrow> find_entry (\<lambda>e. pe_state e = Pending) (pc_e c) \<noteq> None"
  using reachable_fine [of r "(c, w)"] by (auto simp: cache_fine_def pending_find)

section \<open>The worker comes to rest\<close>

fun work :: "resolver \<Rightarrow> nat \<Rightarrow> ptr_cache \<times> worker \<Rightarrow> ptr_cache \<times> worker" where
  \<comment> \<open>at most \<open>n\<close> steps of the worker alone\<close>
  "work r 0 s = s"
| "work r (Suc n) s = (case worker_step r s of None \<Rightarrow> s | Some s' \<Rightarrow> work r n s')"

definition remaining :: "ptr_cache \<times> worker \<Rightarrow> nat" where
  "remaining s = 2 * pending_count (fst s) - (case snd s of Resolving _ _ \<Rightarrow> 1 | _ \<Rightarrow> 0)"

lemma worker_progress:
  assumes fine: "cache_fine r (c, w)" and run: "\<not> pc_shutdown c"
  shows "worker_step r (c, w) = None \<longleftrightarrow> w = Waiting \<and> pending_count c = 0"
    and "worker_step r (c, w) = Some (c', w') \<Longrightarrow>
      remaining (c', w') < remaining (c, w) \<and> \<not> pc_shutdown c' \<and> map pe_ip (pc_e c') = map pe_ip (pc_e c)"
proof -
  have pend: "pc_pending c = int (pending_count c)" using fine by (simp add: cache_fine_def)
  have "w \<noteq> Stopped" using fine run by (auto simp: cache_fine_def)
  then show "worker_step r (c, w) = None \<longleftrightarrow> w = Waiting \<and> pending_count c = 0"
    using run pend by (cases w) (auto simp: Let_def split: option.split)
  assume step: "worker_step r (c, w) = Some (c', w')"
  show "remaining (c', w') < remaining (c, w) \<and> \<not> pc_shutdown c' \<and> map pe_ip (pc_e c') = map pe_ip (pc_e c)"
  proof (cases w)
    case Waiting
    with step run pend have "pending_count c \<noteq> 0" by (auto split: if_splits)
    then obtain idx where "find_entry (\<lambda>e. pe_state e = Pending) (pc_e c) = Some idx"
      using pending_find [of c] by (metis not_None_eq)
    with step run pend Waiting \<open>pending_count c \<noteq> 0\<close> show ?thesis by (auto simp: remaining_def)
  next
    case (Resolving idx ip)
    let ?e = "(pc_e c ! idx)\<lparr>pe_name := answer r ip, pe_state := Resolved\<rparr>"
    have idx: "idx < length (pc_e c)" "pe_state (pc_e c ! idx) = Pending"
      using fine Resolving by (auto simp: cache_fine_def)
    have "map pe_ip ((pc_e c)[idx := ?e]) = map pe_ip (pc_e c)"
      using idx by (simp add: map_update list_update_same_conv)
    moreover have "(c', w') = (dec_pending (c\<lparr>pc_e := (pc_e c)[idx := ?e]\<rparr>), Waiting)"
      using step Resolving by (simp add: answer_def Let_def)
    moreover have "pending_count (dec_pending d) = pending_count d" "pc_shutdown (dec_pending d) = pc_shutdown d"
      "pc_e (dec_pending d) = pc_e d" for d by (simp_all add: dec_pending_def pending_count_def)
    ultimately show ?thesis
      using pending_update [OF idx, of ?e] run Resolving by (auto simp: remaining_def)
  qed (use \<open>w \<noteq> Stopped\<close> in simp)
qed

lemma work_rests:
  assumes "cache_fine r (c, w)" "\<not> pc_shutdown c" "remaining (c, w) \<le> n"
  shows "case work r n (c, w) of (c', w') \<Rightarrow> cache_fine r (c', w') \<and> w' = Waiting \<and> pending_count c' = 0 \<and>
    worker_step r (c', w') = None \<and> map pe_ip (pc_e c') = map pe_ip (pc_e c)"
  using assms
proof (induction n arbitrary: c w)
  case 0
  have "worker_step r (c, w) = None"
  proof (rule ccontr)
    assume "worker_step r (c, w) \<noteq> None"
    then obtain c' w' where "worker_step r (c, w) = Some (c', w')" by auto
    with worker_progress(2) [OF 0(1,2)] 0(3) show False by fastforce
  qed
  with worker_progress(1) [OF 0(1,2)] 0(1) show ?case by auto
next
  case (Suc n)
  show ?case
  proof (cases "worker_step r (c, w)")
    case None
    with worker_progress(1) [OF Suc.prems(1,2)] Suc.prems(1) show ?thesis by auto
  next
    case (Some s')
    obtain c' w' where s': "s' = (c', w')" by (cases s')
    note p = worker_progress(2) [OF Suc.prems(1,2) Some [unfolded s']]
    have "cache_fine r (c', w')" using worker_fine [OF Suc.prems(1) Some] s' by simp
    with Suc.IH [of c' w'] p Suc.prems(3) show ?thesis by (simp add: Some s')
  qed
qed

text \<open>C24. The worker of the name cache always comes to rest: from every state that any interleaving of lookups,
  waits and worker steps can reach before the cache is freed, at most two steps for each pending
  address bring the worker back to waiting, with every scheduled address resolved to the answer
  of the resolver and no address lost.\<close>

theorem ptr_worker_terminates:
  assumes "ptr_reachable r (c, w)" "\<not> pc_shutdown c"
  shows "case work r (2 * pending_count c) (c, w) of (c', w') \<Rightarrow>
    worker_step r (c', w') = None \<and> w' = Waiting \<and> map pe_ip (pc_e c') = map pe_ip (pc_e c) \<and>
    list_all (\<lambda>e. pe_state e = Resolved \<and> pe_name e = answer r (pe_ip e)) (pc_e c')"
proof -
  obtain c' w' where w: "work r (2 * pending_count c) (c, w) = (c', w')" by fastforce
  have "remaining (c, w) \<le> 2 * pending_count c" by (simp add: remaining_def)
  note rest = work_rests [OF reachable_fine [OF assms(1)] assms(2) this, unfolded w prod.case]
  have r: "cache_fine r (c', w')" "w' = Waiting" "pending_count c' = 0" "worker_step r (c', w') = None"
    "map pe_ip (pc_e c') = map pe_ip (pc_e c)" using rest by blast+
  then have "list_all (\<lambda>e. pe_state e = Resolved \<and> pe_name e = answer r (pe_ip e)) (pc_e c')"
    by (auto simp: cache_fine_def list_all_iff entry_fine_def pending_zero)
  with w r show ?thesis by simp
qed

theorem ptr_worker_terminates_witness:
  "case work (\<lambda>_. Some ''host'') (2 * pending_count (snd (wait_enter ptr_cache_new ''10.0.0.1''))) (snd (wait_enter ptr_cache_new ''10.0.0.1''), Waiting)
     of (c', w') \<Rightarrow> map pe_ip (pc_e c') = [''10.0.0.1'']"
proof -
  have reach: "ptr_reachable (\<lambda>_. Some ''host'') (snd (wait_enter ptr_cache_new ''10.0.0.1''), Waiting)"
    by (rule ptr_reachable.step [OF ptr_reachable.start ptr_step.wait])
  have e: "map pe_ip (pc_e (snd (wait_enter ptr_cache_new ''10.0.0.1''))) = [''10.0.0.1'']"
    "\<not> pc_shutdown (snd (wait_enter ptr_cache_new ''10.0.0.1''))"
    by (simp_all add: wait_enter_def ptr_ensure_def ptr_find_def ptr_cache_new_def)
  show ?thesis using ptr_worker_terminates [OF reach e(2)] e(1) by auto
qed

text \<open>An address of 64 characters or more is stored cut and never found again: every lookup schedules it anew.\<close>

lemma long_address_not_found:
  assumes "64 \<le> length ip"
  shows "ptr_find (snd (ptr_ensure ptr_cache_new ip)) ip = None"
proof -
  have "length (snprintf_s 64 ip) < 64" by (simp add: snprintf_s_length)
  with assms have "snprintf_s 64 ip \<noteq> ip" by auto
  then show ?thesis by (simp add: ptr_ensure_def ptr_find_def ptr_cache_new_def)
qed

end
