(* ===== verification/Proc_Profile.thy ===== *)
theory Proc_Profile
  imports Activity Dest_Match
begin

text \<open>
  The profile of a watched process: \<open>lib/proc_profile.c\<close> folds activity records into a bounded set of
  entities (files, destinations, programs) with a verdict against the stored baseline, and
  \<open>lib/proc_profile_delta.c\<close> sends the profile as a key frame followed by deltas and applies them
  on the receiving side. The rates are floating point values that only the text of a key frame
  uses, truncated: the division and the truncation are parameters. A buffer that a failed
  extraction leaves without a terminator, or that was never written, reads as the parameter
  \<open>stale\<close>.

  Shown: the entities stay within their bounds with distinct names under every record; an entity that
  is sent as an object of a frame is the entity the receiver stores; and a frame is accepted
  exactly when it continues the sequence.
\<close>

section \<open>The profile\<close>

abbreviation PS_PP_MAX_ENT :: nat where "PS_PP_MAX_ENT \<equiv> 512"

datatype ps_pp_kind = PP_FILE | PP_DEST | PP_PROC
datatype ps_pp_verdict = PP_COVERED | PP_NOVEL | PP_ANOMALY | PP_NA
datatype pp_mode = BY_PID | BY_EXE

record ps_pp_entity =
  pe_id :: string
  pe_kind :: ps_pp_kind
  pe_value :: string
  pe_estate :: string
  pe_count :: "64 word"
  pe_first :: string
  pe_last :: string
  pe_verdict :: ps_pp_verdict
  pe_dirty :: bool
  pe_present :: bool
  pe_last_ms :: int

record ps_pp_subject =
  su_mode :: pp_mode
  su_pid :: int
  su_exe :: string
  su_uid :: int
  su_cgroup :: string
  su_mac_label :: string
  su_mac_mode :: string
  su_anc :: "(int \<times> string) list"

record 'd ps_pp_rates =
  open_s :: 'd
  connect_s :: 'd
  exec_s :: 'd
  n_open :: "64 word"
  n_connect :: "64 word"
  n_exec :: "64 word"
  open_mark :: "64 word"
  connect_mark :: "64 word"
  exec_mark :: "64 word"
  mark_ms :: int

record 'd ps_pp_model =
  pm_subject :: ps_pp_subject
  pm_rates :: "'d ps_pp_rates"
  pm_ent :: "ps_pp_entity list"
  pm_epoch :: string
  pm_seq :: "64 word"
  bl_files :: ps_baseline_set
  den_files :: ps_baseline_set
  bl_dests :: ps_baseline_set
  den_dests :: ps_baseline_set
  have_baseline :: bool

definition zero_entity :: ps_pp_entity where
  "zero_entity = \<lparr>pe_id = [], pe_kind = PP_FILE, pe_value = [], pe_estate = [], pe_count = 0, pe_first = [], pe_last = [],
     pe_verdict = PP_COVERED, pe_dirty = False, pe_present = False, pe_last_ms = 0\<rparr>"

definition ps_pp_init :: "'d \<Rightarrow> ps_pp_subject \<Rightarrow> string option \<Rightarrow> 'd ps_pp_model" where
  \<comment> \<open>\<open>zero\<close>: the floating point zero\<close>
  "ps_pp_init zero subj epoch =
     \<lparr>pm_subject = subj,
      pm_rates = \<lparr>open_s = zero, connect_s = zero, exec_s = zero, n_open = 0, n_connect = 0, n_exec = 0,
                  open_mark = 0, connect_mark = 0, exec_mark = 0, mark_ms = 0\<rparr>,
      pm_ent = [], pm_epoch = snprintf_s 24 (case epoch of Some e \<Rightarrow> e | None \<Rightarrow> []), pm_seq = 0,
      bl_files = ps_blset_init (Some (su_exe subj)), den_files = ps_blset_init (Some (su_exe subj)),
      bl_dests = ps_blset_init (Some (su_exe subj)), den_dests = ps_blset_init (Some (su_exe subj)),
      have_baseline = False\<rparr>"

definition load_set ::
  "(string \<Rightarrow> string) \<Rightarrow> (string \<Rightarrow> string option) \<Rightarrow> string \<Rightarrow> string \<Rightarrow> string \<Rightarrow> string option \<Rightarrow> string \<Rightarrow>
   nat \<times> ps_baseline_set" where
  \<comment> \<open>\<open>fs\<close>: the contents of the files that can be opened\<close>
  "load_set stale fs dir slug file key exe =
     (case fs (snprintf_s 700 (dir @ ''/'' @ slug @ ''/'' @ file)) of
        None \<Rightarrow> (0, ps_blset_init (Some exe))
      | Some content \<Rightarrow>
          (let j = cstr_of (take 65535 content);
               s = (case key of Some k \<Rightarrow> the (ps_blset_from_json_key stale (Some j) k)
                    | None \<Rightarrow> the (ps_blset_from_json stale (Some j)))
           in (length (bl_path s), s)))"

definition ps_pp_load_baseline ::
  "(string \<Rightarrow> string) \<Rightarrow> (string \<Rightarrow> string option) \<Rightarrow> 'd ps_pp_model \<Rightarrow> string \<Rightarrow> string option \<Rightarrow> 'd ps_pp_model" where
  "ps_pp_load_baseline stale fs m exe dir =
     (let dir = (case dir of Some d \<Rightarrow> d | None \<Rightarrow> ''/var/lib/packetsonde/baseline'')
      in case ps_exe_slug exe 256 of
           None \<Rightarrow> m
         | Some slug \<Rightarrow>
             (let (n1, s1) = load_set stale fs dir slug ''baseline.json'' None exe;
                  (n2, s2) = load_set stale fs dir slug ''denials.json'' None exe;
                  (n3, s3) = load_set stale fs dir slug ''dests.json'' (Some ''dests'') exe;
                  (n4, s4) = load_set stale fs dir slug ''dest-denials.json'' (Some ''dests'') exe
              in m\<lparr>bl_files := s1, den_files := s2, bl_dests := s3, den_dests := s4,
                   have_baseline := n1 + n2 + n3 + n4 > 0\<rparr>))"

section \<open>Folding a record\<close>

fun ent_scan :: "ps_pp_entity list \<Rightarrow> string \<Rightarrow> nat \<Rightarrow> (nat \<times> int) option \<Rightarrow> nat + (nat \<times> int) option" where
  \<comment> \<open>the loop of \<open>ent_get\<close>: the entity with the name, or else the one that was touched first\<close>
  "ent_scan [] ident i oldest = Inr oldest"
| "ent_scan (e # es) ident i oldest =
     (if \<not> pe_present e then ent_scan es ident (Suc i) oldest
      else if pe_id e = ident then Inl i
      else ent_scan es ident (Suc i)
             (case oldest of
                None \<Rightarrow> Some (i, pe_last_ms e)
              | Some (_, ms) \<Rightarrow> if pe_last_ms e < ms then Some (i, pe_last_ms e) else oldest))"

definition new_entity :: "string \<Rightarrow> ps_pp_kind \<Rightarrow> string \<Rightarrow> ps_pp_entity" where
  "new_entity ident kind val =
     zero_entity\<lparr>pe_id := snprintf_s 544 ident, pe_kind := kind, pe_value := snprintf_s 512 val,
       pe_present := True, pe_verdict := PP_NA\<rparr>"

definition ent_get :: "ps_pp_entity list \<Rightarrow> string \<Rightarrow> ps_pp_kind \<Rightarrow> string \<Rightarrow> (nat \<times> ps_pp_entity list) option" where
  \<comment> \<open>the index and the array; \<open>None\<close>: a full array without a present entity, where the code would index -1\<close>
  "ent_get ents ident kind val =
     (case ent_scan ents ident 0 None of
        Inl i \<Rightarrow> Some (i, ents)
      | Inr oldest \<Rightarrow>
          if length ents < PS_PP_MAX_ENT then Some (length ents, ents @ [new_entity ident kind val])
          else case oldest of
                 None \<Rightarrow> None
               | Some (i, _) \<Rightarrow> Some (i, ents[i := new_entity ident kind val]))"

definition pp_verdict_of :: "ps_bl_verdict \<Rightarrow> ps_pp_verdict" where
  "pp_verdict_of v = (if v = BL_COVERED then PP_COVERED else if v = BL_ANOMALY then PP_ANOMALY else PP_NOVEL)"

definition file_verdict :: "'d ps_pp_model \<Rightarrow> string \<Rightarrow> ps_pp_verdict" where
  "file_verdict m path =
     (if \<not> have_baseline m then PP_NA else pp_verdict_of (ps_baseline_decide (bl_files m) (den_files m) path))"

definition dest_verdict :: "'d ps_pp_model \<Rightarrow> string \<Rightarrow> ps_pp_verdict" where
  "dest_verdict m raddr =
     (if \<not> have_baseline m then PP_NA else pp_verdict_of (ps_baseline_decide_dest (bl_dests m) (den_dests m) raddr))"

definition touch_entity :: "string \<Rightarrow> int \<Rightarrow> ps_pp_entity \<Rightarrow> ps_pp_entity" where
  "touch_entity ts now_ms e =
     (let e = (if pe_count e = 0 then e\<lparr>pe_first := snprintf_s 24 ts\<rparr> else e)
      in e\<lparr>pe_last := snprintf_s 24 ts, pe_count := pe_count e + 1, pe_last_ms := now_ms, pe_dirty := True\<rparr>)"

definition see_entity ::
  "string \<Rightarrow> ps_pp_kind \<Rightarrow> string \<Rightarrow> (ps_pp_entity \<Rightarrow> ps_pp_entity) \<Rightarrow> string \<Rightarrow> int \<Rightarrow> ps_pp_entity list \<Rightarrow> ps_pp_entity list option" where
  \<comment> \<open>\<open>ent_get\<close>, the assignments to the entity, \<open>touch\<close>\<close>
  "see_entity ident kind val upd ts now_ms ents =
     (case ent_get ents ident kind val of
        None \<Rightarrow> None
      | Some (i, ents) \<Rightarrow> Some (ents[i := touch_entity ts now_ms (upd (ents ! i))]))"

definition fold_subject :: "ps_activity \<Rightarrow> ps_pp_subject \<Rightarrow> ps_pp_subject" where
  "fold_subject a s =
     (let p = a_proc a
      in if a_exe p = [] then s
         else let s = s\<lparr>su_uid := a_uid p\<rparr>;
                  s = (if a_cgroup p \<noteq> [] then s\<lparr>su_cgroup := snprintf_s 256 (a_cgroup p)\<rparr> else s);
                  s = (if mac_label p \<noteq> [] then s\<lparr>su_mac_label := snprintf_s 128 (mac_label p)\<rparr> else s);
                  s = (if mac_mode p \<noteq> [] then s\<lparr>su_mac_mode := snprintf_s 32 (mac_mode p)\<rparr> else s);
                  s = (if su_mode s = BY_PID then s\<lparr>su_pid := a_pid p\<rparr> else s)
              in if a_anc a \<noteq> []
                 then s\<lparr>su_anc := map (\<lambda>x. (anc_pid x, snprintf_s 64 (anc_comm x))) (take PS_ACT_MAX_ANC (a_anc a))\<rparr>
                 else s)"

definition fold_rates :: "ps_activity \<Rightarrow> int \<Rightarrow> 'd ps_pp_rates \<Rightarrow> 'd ps_pp_rates" where
  "fold_rates a now_ms r =
     (let r = (if mark_ms r = 0 then r\<lparr>mark_ms := now_ms\<rparr> else r)
      in if a_event a = ''open'' then r\<lparr>n_open := n_open r + 1\<rparr>
         else if a_event a = ''connect'' then r\<lparr>n_connect := n_connect r + 1\<rparr>
         else if a_event a = ''exec'' then r\<lparr>n_exec := n_exec r + 1\<rparr>
         else r)"

fun fold_sockets :: "'d ps_pp_model \<Rightarrow> string \<Rightarrow> int \<Rightarrow> ps_act_socket list \<Rightarrow> ps_pp_entity list \<Rightarrow> ps_pp_entity list option" where
  "fold_sockets m ts now_ms [] ents = Some ents"
| "fold_sockets m ts now_ms (x # xs) ents =
     (if s_raddr x = [] then fold_sockets m ts now_ms xs ents
      else case see_entity (snprintf_s 544 (''dest:'' @ s_raddr x)) PP_DEST (s_raddr x)
                  (\<lambda>e. e\<lparr>pe_estate := snprintf_s 16 (s_state x), pe_verdict := dest_verdict m (s_raddr x)\<rparr>) ts now_ms ents of
             None \<Rightarrow> None
           | Some ents \<Rightarrow> fold_sockets m ts now_ms xs ents)"

definition ps_pp_fold :: "'d ps_pp_model \<Rightarrow> ps_activity \<Rightarrow> int \<Rightarrow> 'd ps_pp_model option" where
  "ps_pp_fold m a now_ms =
     (let m = m\<lparr>pm_rates := fold_rates a now_ms (pm_rates m), pm_subject := fold_subject a (pm_subject m)\<rparr>
      in case (if a_path a \<noteq> []
               then see_entity (snprintf_s 544 (''file:'' @ a_path a)) PP_FILE (a_path a)
                      (\<lambda>e. e\<lparr>pe_verdict := file_verdict m (a_path a)\<rparr>) (a_ts a) now_ms (pm_ent m)
               else Some (pm_ent m)) of
           None \<Rightarrow> None
         | Some ents \<Rightarrow>
             (case fold_sockets m (a_ts a) now_ms (a_sock a) ents of
                None \<Rightarrow> None
              | Some ents \<Rightarrow>
                  (case (if a_event a = ''exec'' \<and> a_path a \<noteq> []
                         then see_entity (snprintf_s 544 (''proc:'' @ a_path a)) PP_PROC (a_path a)
                                (\<lambda>e. e\<lparr>pe_verdict := PP_NA\<rparr>) (a_ts a) now_ms ents
                         else Some ents) of
                     None \<Rightarrow> None
                   | Some ents \<Rightarrow> Some (m\<lparr>pm_ent := ents\<rparr>))))"

definition ps_pp_tick_rates :: "(64 word \<Rightarrow> int \<Rightarrow> 'd) \<Rightarrow> 'd ps_pp_model \<Rightarrow> int \<Rightarrow> 'd ps_pp_model" where
  \<comment> \<open>\<open>per_sec n dt\<close>: the floating point value of \<open>n / (dt / 1000.0)\<close>\<close>
  "ps_pp_tick_rates per_sec m now_ms =
     (let r = pm_rates m; dt = now_ms - mark_ms r
      in if dt \<le> 0 then m
         else m\<lparr>pm_rates := r\<lparr>open_s := per_sec (n_open r - open_mark r) dt,
                              connect_s := per_sec (n_connect r - connect_mark r) dt,
                              exec_s := per_sec (n_exec r - exec_mark r) dt,
                              open_mark := n_open r, connect_mark := n_connect r, exec_mark := n_exec r, mark_ms := now_ms\<rparr>\<rparr>)"

section \<open>Frames\<close>

definition verdict_str :: "ps_pp_verdict \<Rightarrow> string" where
  "verdict_str v = (case v of PP_COVERED \<Rightarrow> ''covered'' | PP_NOVEL \<Rightarrow> ''novel'' | PP_ANOMALY \<Rightarrow> ''anomaly'' | PP_NA \<Rightarrow> ''na'')"

definition verdict_of :: "string \<Rightarrow> ps_pp_verdict" where
  "verdict_of s = (if s = ''covered'' then PP_COVERED else if s = ''novel'' then PP_NOVEL
     else if s = ''anomaly'' then PP_ANOMALY else PP_NA)"

definition kind_str :: "ps_pp_kind \<Rightarrow> string" where
  "kind_str k = (case k of PP_FILE \<Rightarrow> ''file'' | PP_DEST \<Rightarrow> ''dest'' | PP_PROC \<Rightarrow> ''proc'')"

definition kind_of :: "string \<Rightarrow> ps_pp_kind" where
  "kind_of s = (if s = ''file'' then PP_FILE else if s = ''dest'' then PP_DEST else PP_PROC)"

definition wr_entity :: "ps_json \<Rightarrow> ps_pp_entity \<Rightarrow> ps_json" where
  \<comment> \<open>the fields of an entity, from \<open>id\<close> on\<close>
  "wr_entity j e =
     (let j = ps_json_key_string j ''id'' (pe_id e);
          j = ps_json_key_string j ''kind'' (kind_str (pe_kind e));
          j = ps_json_key_string j ''value'' (pe_value e);
          j = (if pe_estate e \<noteq> [] then ps_json_key_string j ''state'' (pe_estate e) else j);
          j = ps_json_key_int j ''count'' (sint (pe_count e));
          j = ps_json_key_string j ''first'' (pe_first e);
          j = ps_json_key_string j ''last'' (pe_last e);
          j = ps_json_key_string j ''verdict'' (verdict_str (pe_verdict e))
      in ps_json_object_end j)"

definition ps_pp_keyframe_json :: "('d \<Rightarrow> int) \<Rightarrow> 'd ps_pp_model \<Rightarrow> string option \<Rightarrow> nat \<Rightarrow> string option" where
  \<comment> \<open>\<open>trunc\<close>: the conversion of a rate to \<open>long\<close>\<close>
  "ps_pp_keyframe_json trunc m host cap =
     (let j = ps_json_object_begin (ps_json_init cap);
          j = ps_json_key_int j ''v'' 1;
          j = ps_json_key_string j ''type'' ''keyframe'';
          j = ps_json_key_string j ''epoch'' (pm_epoch m);
          j = ps_json_key_int j ''seq'' 0;
          j = ps_json_key_string j ''host'' (case host of Some h \<Rightarrow> h | None \<Rightarrow> []);
          j = ps_json_key_object_begin j ''subject'';
          j = ps_json_key_string j ''mode'' (if su_mode (pm_subject m) = BY_PID then ''pid'' else ''exe'');
          j = ps_json_key_int j ''pid'' (su_pid (pm_subject m));
          j = ps_json_key_string j ''exe'' (su_exe (pm_subject m));
          j = ps_json_key_int j ''uid'' (su_uid (pm_subject m));
          j = ps_json_key_string j ''cgroup'' (su_cgroup (pm_subject m));
          j = ps_json_key_string j ''mac_label'' (su_mac_label (pm_subject m));
          j = ps_json_object_end j;
          j = ps_json_key_object_begin j ''rates'';
          j = ps_json_key_int j ''open_s'' (trunc (open_s (pm_rates m)));
          j = ps_json_key_int j ''connect_s'' (trunc (connect_s (pm_rates m)));
          j = ps_json_key_int j ''exec_s'' (trunc (exec_s (pm_rates m)));
          j = ps_json_object_end j;
          j = ps_json_array_begin j ''entities'';
          j = foldl (\<lambda>j e. if \<not> pe_present e then j else wr_entity (ps_json_object_begin j) e) j (pm_ent m)
      in ps_json_finish (ps_json_object_end (ps_json_array_end j)))"

definition wr_op :: "ps_json \<Rightarrow> ps_pp_entity \<Rightarrow> ps_json" where
  "wr_op j e = wr_entity (ps_json_key_string (ps_json_object_begin j) ''op'' ''entity_set'') e"

definition ps_pp_delta_json :: "'d ps_pp_model \<Rightarrow> nat \<Rightarrow> (string option) option \<times> 'd ps_pp_model" where
  \<comment> \<open>the outer \<open>None\<close> is the result 0, nothing to send; the inner \<open>None\<close> is -1\<close>
  "ps_pp_delta_json m cap =
     (if \<not> list_ex (\<lambda>e. pe_present e \<and> pe_dirty e) (pm_ent m) then (None, m)
      else let m = m\<lparr>pm_seq := pm_seq m + 1\<rparr>;
               j = ps_json_object_begin (ps_json_init cap);
               j = ps_json_key_int j ''v'' 1;
               j = ps_json_key_string j ''type'' ''delta'';
               j = ps_json_key_string j ''epoch'' (pm_epoch m);
               j = ps_json_key_int j ''seq'' (sint (pm_seq m));
               j = ps_json_array_begin j ''ops'';
               j = foldl (\<lambda>j e. if \<not> pe_present e \<or> \<not> pe_dirty e then j else wr_op j e) j (pm_ent m)
           in (Some (ps_json_finish (ps_json_object_end (ps_json_array_end j))),
               m\<lparr>pm_ent := map (\<lambda>e. if pe_present e \<and> pe_dirty e then e\<lparr>pe_dirty := False\<rparr> else e) (pm_ent m)\<rparr>))"

section \<open>Applying a frame\<close>

definition extract_over :: "(string \<Rightarrow> string) \<Rightarrow> string \<Rightarrow> string \<Rightarrow> string \<Rightarrow> nat \<Rightarrow> string" where
  \<comment> \<open>an extraction into a buffer that holds \<open>old\<close>, whose result is ignored\<close>
  "extract_over stale old json key cap =
     (case ps_json_extract_string json key cap of
        Some v \<Rightarrow> cstr_of v
      | None \<Rightarrow> (case after_key json key of None \<Rightarrow> old | Some p \<Rightarrow> if cur p = CHR 0x22 then stale key else old))"

definition fill_entity :: "(string \<Rightarrow> string) \<Rightarrow> string \<Rightarrow> ps_pp_entity \<Rightarrow> ps_pp_entity" where
  \<comment> \<open>the second half of \<open>upsert\<close>\<close>
  "fill_entity stale obj e =
     (let e = (case extract_cstr obj ''kind'' 32 of Some k \<Rightarrow> e\<lparr>pe_kind := kind_of k\<rparr> | None \<Rightarrow> e);
          e = e\<lparr>pe_value := extract_over stale (pe_value e) obj ''value'' 512\<rparr>;
          e = e\<lparr>pe_estate := extract_over stale [] obj ''state'' 16\<rparr>;
          e = (case ps_json_extract_int obj ''count'' of Some iv \<Rightarrow> e\<lparr>pe_count := word_of_int iv\<rparr> | None \<Rightarrow> e);
          e = e\<lparr>pe_first := extract_over stale (pe_first e) obj ''first'' 24\<rparr>;
          e = e\<lparr>pe_last := extract_over stale (pe_last e) obj ''last'' 24\<rparr>
      in case extract_cstr obj ''verdict'' 32 of Some v \<Rightarrow> e\<lparr>pe_verdict := verdict_of v\<rparr> | None \<Rightarrow> e)"

fun ent_index :: "ps_pp_entity list \<Rightarrow> string \<Rightarrow> nat option" where
  "ent_index [] ident = None"
| "ent_index (e # es) ident = (if pe_present e \<and> pe_id e = ident then Some 0 else map_option Suc (ent_index es ident))"

definition upsert :: "(string \<Rightarrow> string) \<Rightarrow> ps_pp_entity list \<Rightarrow> string \<Rightarrow> ps_pp_entity list" where
  "upsert stale ents obj =
     (case extract_cstr obj ''id'' 544 of
        None \<Rightarrow> ents
      | Some ident \<Rightarrow>
          (case ent_index ents ident of
             Some i \<Rightarrow> ents[i := fill_entity stale obj (ents ! i)]
           | None \<Rightarrow>
               if length ents \<ge> PS_PP_MAX_ENT then ents
               else ents @ [fill_entity stale obj (zero_entity\<lparr>pe_id := snprintf_s 544 ident, pe_present := True\<rparr>)]))"

fun obj_start :: "string \<Rightarrow> string option" where
  \<comment> \<open>the first loop of \<open>next_obj\<close>\<close>
  "obj_start [] = None"
| "obj_start (c # cs) = (if c = CHR ''{'' then Some (c # cs) else if c = CHR '']'' then None else obj_start cs)"

fun obj_end :: "int \<Rightarrow> bool \<Rightarrow> string \<Rightarrow> string" where
  \<comment> \<open>the second loop of \<open>next_obj\<close>: the rest behind the object\<close>
  "obj_end depth instr [] = []"
| "obj_end depth instr (ch # cs) =
     (if instr
      then if ch = CHR 0x5C \<and> cs \<noteq> [] then obj_end depth True (tl cs)
           else if ch = CHR 0x22 then obj_end depth False cs
           else obj_end depth True cs
      else if ch = CHR 0x22 then obj_end depth True cs
      else if ch = CHR ''{'' then obj_end (depth + 1) False cs
      else if ch = CHR ''}'' then (if depth - 1 = 0 then cs else obj_end (depth - 1) False cs)
      else obj_end depth False cs)"

definition next_obj :: "string \<Rightarrow> nat \<Rightarrow> (string \<times> string) option" where
  \<comment> \<open>the object and the rest behind it\<close>
  "next_obj p cap =
     (case obj_start p of
        None \<Rightarrow> None
      | Some start \<Rightarrow>
          (let s = obj_end 0 False start; len = ptr_off s start
           in if len = 0 \<or> len \<ge> cap then None else Some (take len start, s)))"

lemma obj_start_length: "obj_start p = Some s \<Longrightarrow> length s \<le> length p"
  by (induction p) (auto split: if_splits)

lemma next_obj_shorter: "next_obj p cap = Some (obj, q) \<Longrightarrow> length q < length p"
  using obj_start_length [of p] by (auto simp: next_obj_def Let_def ptr_off_def split: option.splits if_splits)

function apply_objs :: "(string \<Rightarrow> string) \<Rightarrow> string \<Rightarrow> ps_pp_entity list \<Rightarrow> ps_pp_entity list" where
  \<comment> \<open>\<open>while (p && next_obj(&p, obj, sizeof obj)) upsert(m, obj)\<close>\<close>
  "apply_objs stale p ents =
     (case next_obj p 2048 of None \<Rightarrow> ents | Some (obj, q) \<Rightarrow> apply_objs stale q (upsert stale ents obj))"
  by pat_completeness auto
termination
  by (relation "measure (\<lambda>(_, p, _). length p)") (auto intro: next_obj_shorter)

declare apply_objs.simps [simp del]

definition apply_array :: "(string \<Rightarrow> string) \<Rightarrow> string \<Rightarrow> string \<Rightarrow> ps_pp_entity list \<Rightarrow> ps_pp_entity list" where
  "apply_array stale json name ents =
     (case strstr json (CHR 0x22 # name @ [CHR 0x22]) of
        None \<Rightarrow> ents
      | Some arr \<Rightarrow> (case strchr arr (CHR ''['') of None \<Rightarrow> ents | Some p \<Rightarrow> apply_objs stale p ents))"

datatype ps_pp_apply = APPLY_OK | APPLY_DESYNC

definition ps_pp_apply_json :: "(string \<Rightarrow> string) \<Rightarrow> 'd ps_pp_model \<Rightarrow> string \<Rightarrow> ps_pp_apply \<times> 'd ps_pp_model" where
  "ps_pp_apply_json stale m json =
     (case extract_cstr json ''type'' 16 of
        None \<Rightarrow> (APPLY_DESYNC, m)
      | Some type \<Rightarrow>
          (let epoch = extract_over stale (stale ''epoch'') json ''epoch'' 24;
               seq = (case ps_json_extract_int json ''seq'' of Some i \<Rightarrow> i | None \<Rightarrow> 0)
           in if type = ''keyframe''
              then (APPLY_OK, m\<lparr>pm_ent := apply_array stale json ''entities'' [], pm_epoch := snprintf_s 24 epoch, pm_seq := 0,
                      pm_subject := (pm_subject m)\<lparr>su_exe := extract_over stale (su_exe (pm_subject m)) json ''exe'' 256\<rparr>\<rparr>)
              else if epoch \<noteq> pm_epoch m then (APPLY_DESYNC, m)
              else if (word_of_int seq :: 64 word) \<noteq> pm_seq m + 1 then (APPLY_DESYNC, m)
              else (APPLY_OK, m\<lparr>pm_seq := word_of_int seq, pm_ent := apply_array stale json ''ops'' (pm_ent m)\<rparr>)))"

section \<open>The entities stay bounded and distinct\<close>

definition ents_ok :: "ps_pp_entity list \<Rightarrow> bool" where
  "ents_ok ents \<longleftrightarrow> length ents \<le> PS_PP_MAX_ENT \<and> distinct (map pe_id ents) \<and>
     list_all (\<lambda>e. pe_present e \<and> length (pe_id e) < 544 \<and> length (pe_value e) < 512 \<and> length (pe_estate e) < 16 \<and>
       length (pe_first e) < 24 \<and> length (pe_last e) < 24) ents"

lemma ent_scan_Inl: "ent_scan ents ident k oldest = Inl i \<Longrightarrow> k \<le> i \<and> i - k < length ents \<and> pe_id (ents ! (i - k)) = ident"
proof (induction ents ident k oldest rule: ent_scan.induct)
  case (2 e es ident k oldest)
  show ?case
  proof (cases "pe_present e \<and> pe_id e = ident")
    case True
    with 2(3) show ?thesis by auto
  next
    case False
    then have "Suc k \<le> i \<and> i - Suc k < length es \<and> pe_id (es ! (i - Suc k)) = ident"
      using 2 by (cases "pe_present e") auto
    then show ?thesis by (auto simp: nth_Cons' Suc_diff_Suc [symmetric])
  qed
qed simp

lemma ent_scan_Inr:
  "ent_scan ents ident k oldest = Inr res \<Longrightarrow>
   (\<forall>e \<in> set ents. pe_present e \<longrightarrow> pe_id e \<noteq> ident) \<and>
   (case res of
      None \<Rightarrow> oldest = None \<and> (\<forall>e \<in> set ents. \<not> pe_present e)
    | Some (i, _) \<Rightarrow> (\<exists>ms. oldest = Some (i, ms)) \<or> k \<le> i \<and> i - k < length ents)"
proof (induction ents ident k oldest rule: ent_scan.induct)
  case (1 ident k oldest)
  then show ?case by (auto split: option.split)
next
  case (2 e es ident k oldest)
  show ?case
  proof (cases "pe_present e")
    case False
    with 2(1) [OF False] 2(3) show ?thesis by (fastforce split: option.splits)
  next
    case True
    with 2(3) have ne: "pe_id e \<noteq> ident" by (auto split: if_splits)
    let ?old = "case oldest of None \<Rightarrow> Some (k, pe_last_ms e)
        | Some (_, ms) \<Rightarrow> if pe_last_ms e < ms then Some (k, pe_last_ms e) else oldest"
    have ih: "(\<forall>e \<in> set es. pe_present e \<longrightarrow> pe_id e \<noteq> ident) \<and>
      (case res of None \<Rightarrow> ?old = None \<and> (\<forall>e \<in> set es. \<not> pe_present e)
       | Some (i, _) \<Rightarrow> (\<exists>ms. ?old = Some (i, ms)) \<or> Suc k \<le> i \<and> i - Suc k < length es)"
      using 2(2) 2(3) True ne by simp
    have old: "?old \<noteq> None" "?old = Some (i, ms) \<Longrightarrow> i = k \<or> oldest = Some (i, ms)" for i ms
      by (auto split: option.splits if_splits)
    show ?thesis
    proof (cases res)
      case None
      with ih old(1) show ?thesis by simp
    next
      case (Some r)
      obtain i ms where r: "r = (i, ms)" by (cases r)
      with ih Some have "(\<exists>ms. ?old = Some (i, ms)) \<or> Suc k \<le> i \<and> i - Suc k < length es" by simp
      then have "(\<exists>ms. oldest = Some (i, ms)) \<or> k \<le> i \<and> i - k < length (e # es)" using old(2) by fastforce
      with ih ne Some r show ?thesis by auto
    qed
  qed
qed

lemma new_entity_fields:
  "pe_present (new_entity x k v)" "pe_id (new_entity x k v) = snprintf_s 544 x"
  "length (pe_id (new_entity x k v)) < 544" "length (pe_value (new_entity x k v)) < 512"
  "pe_estate (new_entity x k v) = []" "pe_first (new_entity x k v) = []" "pe_last (new_entity x k v) = []"
  by (simp_all add: new_entity_def zero_entity_def snprintf_s_length)

lemma distinct_update:
  assumes "distinct (map f xs)" "i < length xs" "f x \<notin> f ` set xs \<or> f x = f (xs ! i)"
  shows "distinct (map f (xs[i := x]))"
proof (cases "f x = f (xs ! i)")
  case True
  then have "map f (xs[i := x]) = map f xs" using assms(2) by (simp add: map_update list_update_same_conv)
  with assms(1) show ?thesis by simp
next
  case False
  with assms(1,3) show ?thesis by (simp add: map_update distinct_list_update)
qed

lemma ent_get_ok:
  assumes ok: "ents_ok ents" and len: "length ident < 544"
  obtains i ents' where "ent_get ents ident kind val = Some (i, ents')" "ents_ok ents'" "i < length ents'"
    "pe_id (ents' ! i) = ident"
proof (cases "ent_scan ents ident 0 None")
  case (Inl i)
  from ent_scan_Inl [OF Inl] ok Inl that show ?thesis by (simp add: ent_get_def)
next
  case (Inr oldest)
  note scan = ent_scan_Inr [OF Inr]
  let ?e = "new_entity ident kind val"
  have present: "\<forall>e \<in> set ents. pe_present e" using ok by (auto simp: ents_ok_def list_all_iff)
  have fresh: "pe_id ?e \<notin> pe_id ` set ents" using scan present len by (auto simp: new_entity_fields)
  have e: "pe_present ?e \<and> length (pe_id ?e) < 544 \<and> length (pe_value ?e) < 512 \<and> length (pe_estate ?e) < 16 \<and>
      length (pe_first ?e) < 24 \<and> length (pe_last ?e) < 24" by (simp add: new_entity_fields snprintf_s_length)
  show ?thesis
  proof (cases "length ents < PS_PP_MAX_ENT")
    case True
    have "ents_ok (ents @ [?e])" using ok True fresh e by (auto simp: ents_ok_def)
    moreover have "pe_id ((ents @ [?e]) ! length ents) = ident" using len by (simp add: new_entity_fields)
    ultimately show ?thesis using that [of "length ents" "ents @ [?e]"] True Inr by (simp add: ent_get_def)
  next
    case False
    then have "ents \<noteq> []" by auto
    then obtain e where "e \<in> set ents" by (cases ents) auto
    with scan present have "oldest \<noteq> None" by (cases oldest) auto
    then obtain i ms where o: "oldest = Some (i, ms)" by auto
    with scan have i: "i < length ents" by simp
    have "distinct (map pe_id (ents[i := ?e]))"
      using ok i fresh by (intro distinct_update) (auto simp: ents_ok_def)
    moreover have "\<forall>x \<in> set (ents[i := ?e]). x = ?e \<or> x \<in> set ents" by (auto dest: set_update_subset_insert [THEN subsetD])
    ultimately have "ents_ok (ents[i := ?e])" using ok e by (auto simp: ents_ok_def list_all_iff)
    moreover have "pe_id (ents[i := ?e] ! i) = ident" using i len by (simp add: new_entity_fields)
    ultimately show ?thesis using that [of i "ents[i := ?e]"] False Inr o i by (simp add: ent_get_def)
  qed
qed

lemma touch_fields:
  "pe_id (touch_entity ts t e) = pe_id e" "pe_present (touch_entity ts t e) = pe_present e" "pe_value (touch_entity ts t e) = pe_value e"
  "pe_estate (touch_entity ts t e) = pe_estate e" "pe_last (touch_entity ts t e) = snprintf_s 24 ts"
  "pe_first (touch_entity ts t e) = (if pe_count e = 0 then snprintf_s 24 ts else pe_first e)"
  "pe_count (touch_entity ts t e) = pe_count e + 1" "pe_dirty (touch_entity ts t e)"
  by (simp_all add: touch_entity_def Let_def)

lemma see_entity_ok:
  assumes ok: "ents_ok ents" and len: "length ident < 544"
    and upd: "\<And>e. pe_id (upd e) = pe_id e" "\<And>e. pe_present (upd e) = pe_present e" "\<And>e. pe_value (upd e) = pe_value e"
      "\<And>e. pe_first (upd e) = pe_first e" "\<And>e. length (pe_estate e) < 16 \<Longrightarrow> length (pe_estate (upd e)) < 16"
  shows "\<exists>ents'. see_entity ident kind val upd ts t ents = Some ents' \<and> ents_ok ents'"
proof -
  obtain i es where g: "ent_get ents ident kind val = Some (i, es)" "ents_ok es" "i < length es" using ent_get_ok [OF ok len] by metis
  let ?e = "touch_entity ts t (upd (es ! i))"
  have old: "pe_present (es ! i) \<and> length (pe_id (es ! i)) < 544 \<and> length (pe_value (es ! i)) < 512 \<and>
      length (pe_estate (es ! i)) < 16 \<and> length (pe_first (es ! i)) < 24"
    using g(2,3) by (auto simp: ents_ok_def list_all_iff)
  have "pe_present ?e \<and> length (pe_id ?e) < 544 \<and> length (pe_value ?e) < 512 \<and> length (pe_estate ?e) < 16 \<and>
      length (pe_first ?e) < 24 \<and> length (pe_last ?e) < 24"
    using old upd by (simp add: touch_fields snprintf_s_length)
  moreover have "distinct (map pe_id (es[i := ?e]))"
    using g(2,3) by (intro distinct_update) (auto simp: ents_ok_def touch_fields upd)
  moreover have "\<forall>x \<in> set (es[i := ?e]). x = ?e \<or> x \<in> set es" by (auto dest: set_update_subset_insert [THEN subsetD])
  ultimately have "ents_ok (es[i := ?e])" using g(2) by (auto simp: ents_ok_def list_all_iff)
  with g(1) show ?thesis by (simp add: see_entity_def)
qed

lemma if_see_ok:
  assumes "ents_ok ents" "length ident < 544"
    and "\<And>e. pe_id (upd e) = pe_id e" "\<And>e. pe_present (upd e) = pe_present e" "\<And>e. pe_value (upd e) = pe_value e"
      "\<And>e. pe_first (upd e) = pe_first e" "\<And>e. length (pe_estate e) < 16 \<Longrightarrow> length (pe_estate (upd e)) < 16"
  shows "\<exists>ents'. (if P then see_entity ident kind val upd ts t ents else Some ents) = Some ents' \<and> ents_ok ents'"
  using see_entity_ok [OF assms] assms(1) by (cases P) auto

lemma fold_sockets_ok: "ents_ok ents \<Longrightarrow> \<exists>ents'. fold_sockets m ts t xs ents = Some ents' \<and> ents_ok ents'"
proof (induction xs arbitrary: ents)
  case (Cons x xs)
  show ?case
  proof (cases "s_raddr x = []")
    case False
    have "\<exists>ents'. see_entity (snprintf_s 544 (''dest:'' @ s_raddr x)) PP_DEST (s_raddr x)
        (\<lambda>e. e\<lparr>pe_estate := snprintf_s 16 (s_state x), pe_verdict := dest_verdict m (s_raddr x)\<rparr>) ts t ents = Some ents' \<and> ents_ok ents'"
      by (rule see_entity_ok [OF Cons.prems]) (simp_all add: snprintf_s_length)
    with Cons.IH False show ?thesis by auto
  qed (use Cons in simp)
qed simp

lemma fold_ents_ok:
  assumes "ents_ok (pm_ent m)"
  shows "\<exists>m'. ps_pp_fold m a t = Some m' \<and> ents_ok (pm_ent m')"
proof -
  let ?m = "m\<lparr>pm_rates := fold_rates a t (pm_rates m), pm_subject := fold_subject a (pm_subject m)\<rparr>"
  have "\<exists>e1. (if a_path a \<noteq> []
      then see_entity (snprintf_s 544 (''file:'' @ a_path a)) PP_FILE (a_path a)
             (\<lambda>e. e\<lparr>pe_verdict := file_verdict ?m (a_path a)\<rparr>) (a_ts a) t (pm_ent m)
      else Some (pm_ent m)) = Some e1 \<and> ents_ok e1"
    by (rule if_see_ok [OF assms]) (simp_all add: snprintf_s_length)
  then obtain e1 where 1: "(if a_path a \<noteq> []
      then see_entity (snprintf_s 544 (''file:'' @ a_path a)) PP_FILE (a_path a)
             (\<lambda>e. e\<lparr>pe_verdict := file_verdict ?m (a_path a)\<rparr>) (a_ts a) t (pm_ent m)
      else Some (pm_ent m)) = Some e1" "ents_ok e1" by blast
  obtain e2 where 2: "fold_sockets ?m (a_ts a) t (a_sock a) e1 = Some e2" "ents_ok e2" using fold_sockets_ok [OF 1(2)] by blast
  have "\<exists>e3. (if a_event a = ''exec'' \<and> a_path a \<noteq> []
      then see_entity (snprintf_s 544 (''proc:'' @ a_path a)) PP_PROC (a_path a) (\<lambda>e. e\<lparr>pe_verdict := PP_NA\<rparr>) (a_ts a) t e2
      else Some e2) = Some e3 \<and> ents_ok e3"
    by (rule if_see_ok [OF 2(2)]) (simp_all add: snprintf_s_length)
  then obtain e3 where 3: "(if a_event a = ''exec'' \<and> a_path a \<noteq> []
      then see_entity (snprintf_s 544 (''proc:'' @ a_path a)) PP_PROC (a_path a) (\<lambda>e. e\<lparr>pe_verdict := PP_NA\<rparr>) (a_ts a) t e2
      else Some e2) = Some e3" "ents_ok e3" by blast
  have ent: "pm_ent ?m = pm_ent m" by simp
  have "ps_pp_fold m a t = Some (?m\<lparr>pm_ent := e3\<rparr>)"
    unfolding ps_pp_fold_def Let_def ent 1(1) option.case 2(1) 3(1) ..
  with 3(2) show ?thesis by simp
qed

section \<open>An entity that is sent is the entity that is stored\<close>

definition entity_fields :: "ps_pp_entity \<Rightarrow> (string \<times> json) list" where
  "entity_fields e =
     [(''id'', JStr (pe_id e)), (''kind'', JStr (kind_str (pe_kind e))), (''value'', JStr (pe_value e))] @
     (if pe_estate e \<noteq> [] then [(''state'', JStr (pe_estate e))] else []) @
     [(''count'', JInt (sint (pe_count e))), (''first'', JStr (pe_first e)), (''last'', JStr (pe_last e)),
      (''verdict'', JStr (verdict_str (pe_verdict e)))]"

definition op_doc :: "ps_pp_entity \<Rightarrow> json" where
  "op_doc e = JObj ((''op'', JStr ''entity_set'') # entity_fields e)"

definition entity_doc :: "ps_pp_entity \<Rightarrow> json" where
  "entity_doc e = JObj (entity_fields e)"

definition entity_wf :: "ps_pp_entity \<Rightarrow> bool" where
  "entity_wf e \<longleftrightarrow> is_cstr (pe_id e) \<and> length (pe_id e) < 544 \<and> is_cstr (pe_value e) \<and> length (pe_value e) < 512 \<and>
     is_cstr (pe_estate e) \<and> length (pe_estate e) < 16 \<and> is_cstr (pe_first e) \<and> length (pe_first e) < 24 \<and>
     is_cstr (pe_last e) \<and> length (pe_last e) < 24 \<and> - (2 ^ 63) < sint (pe_count e)"

lemma wr_entity_doc:
  "wr_op j e = wr_elem (op_doc e) j" "wr_entity (ps_json_object_begin j) e = wr_elem (entity_doc e) j"
  by (simp_all add: wr_op_def wr_entity_def op_doc_def entity_doc_def entity_fields_def Let_def)

lemma names_roundtrip: "kind_of (kind_str k) = k" "verdict_of (verdict_str v) = v"
  by (cases k; simp add: kind_of_def kind_str_def) (cases v; simp add: verdict_of_def verdict_str_def)

lemma over_doc:
  assumes "plain_key k" "wf_json t" "first_field k t = Some (JStr s)" "length s < cap" "is_cstr s"
  shows "extract_over st old (show_json t) k cap = s" "extract_cstr (show_json t) k cap = Some s"
  using assms extract_string_doc [OF assms(1,2), of cap] by (auto simp: extract_over_def extract_cstr_def)

lemma over_doc_none:
  assumes "plain_key k" "wf_json t" "first_field k t = None" "0 < cap"
  shows "extract_over st old (show_json t) k cap = old"
  using assms extract_string_doc [OF assms(1,2,4)] after_key_None [OF assms(1,2,3)] by (simp add: extract_over_def)

lemma entity_keys:
  "plain_key ''op''" "plain_key ''id''" "plain_key ''kind''" "plain_key ''value''" "plain_key ''state''" "plain_key ''count''"
  "plain_key ''first''" "plain_key ''last''" "plain_key ''verdict''"
  by (simp_all add: plain_key_def plain_char_def)

definition carries :: "json \<Rightarrow> ps_pp_entity \<Rightarrow> bool" where
  \<comment> \<open>a document with the fields of an entity\<close>
  "carries t e \<longleftrightarrow> wf_json t \<and> first_field ''id'' t = Some (JStr (pe_id e)) \<and> first_field ''kind'' t = Some (JStr (kind_str (pe_kind e))) \<and>
     first_field ''value'' t = Some (JStr (pe_value e)) \<and>
     first_field ''state'' t = (if pe_estate e \<noteq> [] then Some (JStr (pe_estate e)) else None) \<and>
     first_field ''count'' t = Some (JInt (sint (pe_count e))) \<and> first_field ''first'' t = Some (JStr (pe_first e)) \<and>
     first_field ''last'' t = Some (JStr (pe_last e)) \<and> first_field ''verdict'' t = Some (JStr (verdict_str (pe_verdict e)))"

lemma kind_verdict_text:
  "is_cstr (kind_str k)" "length (kind_str k) < 32" "is_cstr (verdict_str v)" "length (verdict_str v) < 32"
  by (simp_all add: kind_str_def verdict_str_def is_cstr_def split: ps_pp_kind.split ps_pp_verdict.split)

lemma docs_carry:
  assumes "entity_wf e"
  shows "carries (op_doc e) e" "carries (entity_doc e) e"
proof -
  have "sint (pe_count e) < 2 ^ 63" using sint_lt [of "pe_count e"] by simp
  with assms show "carries (op_doc e) e" "carries (entity_doc e) e"
    using entity_keys kind_verdict_text
    by (auto simp: carries_def op_doc_def entity_doc_def entity_fields_def entity_wf_def is_cstr_def)
qed

lemma fill_entity_doc:
  assumes t: "carries t e" and e: "entity_wf e"
  shows "fill_entity st (show_json t) f =
    f\<lparr>pe_kind := pe_kind e, pe_value := pe_value e, pe_estate := pe_estate e, pe_count := pe_count e, pe_first := pe_first e,
      pe_last := pe_last e, pe_verdict := pe_verdict e\<rparr>"
proof -
  note c = t [unfolded carries_def]
  have wf: "wf_json t" using c by blast
  have kind: "extract_cstr (show_json t) ''kind'' 32 = Some (kind_str (pe_kind e))"
    using c kind_verdict_text by (intro over_doc(2) entity_keys wf) auto
  have verdict: "extract_cstr (show_json t) ''verdict'' 32 = Some (verdict_str (pe_verdict e))"
    using c kind_verdict_text by (intro over_doc(2) entity_keys wf) auto
  have strs: "extract_over st old (show_json t) ''value'' 512 = pe_value e" "extract_over st old (show_json t) ''first'' 24 = pe_first e"
    "extract_over st old (show_json t) ''last'' 24 = pe_last e" for old
    using c e by (intro over_doc(1) entity_keys wf; simp add: entity_wf_def)+
  have state: "extract_over st [] (show_json t) ''state'' 16 = pe_estate e"
  proof (cases "pe_estate e = []")
    case True
    then show ?thesis using c over_doc_none [OF entity_keys(5) wf, of 16] by simp
  next
    case False
    then show ?thesis using c e by (intro over_doc(1) entity_keys wf) (simp_all add: entity_wf_def)
  qed
  have count: "ps_json_extract_int (show_json t) ''count'' = Some (sint (pe_count e))"
    using extract_int_doc [OF entity_keys(6) wf] c by simp
  show ?thesis
    by (simp add: fill_entity_def kind verdict strs state count names_roundtrip Let_def)
qed

lemma upsert_doc:
  assumes t: "carries t e" and e: "entity_wf e"
  shows "upsert st ents (show_json t) =
    (case ent_index ents (pe_id e) of
       Some i \<Rightarrow> ents[i := (ents ! i)\<lparr>pe_kind := pe_kind e, pe_value := pe_value e, pe_estate := pe_estate e, pe_count := pe_count e,
           pe_first := pe_first e, pe_last := pe_last e, pe_verdict := pe_verdict e\<rparr>]
     | None \<Rightarrow> if length ents \<ge> PS_PP_MAX_ENT then ents
               else ents @ [e\<lparr>pe_dirty := False, pe_present := True, pe_last_ms := 0\<rparr>])"
proof -
  have ident: "extract_cstr (show_json t) ''id'' 544 = Some (pe_id e)"
    using t e by (intro over_doc(2) entity_keys) (auto simp: carries_def entity_wf_def)
  have len: "length (pe_id e) < 544" using e by (simp add: entity_wf_def)
  show ?thesis
    by (simp add: upsert_def ident fill_entity_doc [OF t e] len zero_entity_def split: option.split)
qed

text \<open>\<open>next_obj\<close> takes exactly one printed object off the text.\<close>

lemma obj_end_quoted: "obj_end d True (escape s @ CHR 0x22 # r) = obj_end d False r"
proof (induction s)
  case (Cons c s)
  have "hex_digit n \<noteq> CHR 0x22 \<and> hex_digit n \<noteq> CHR 0x5C" if "n < 16" for n using hex_digit_not_quote [OF that] .
  with Cons show ?case by (auto simp: escape_char_def)
qed simp

lemma obj_end_plain:
  "CHR 0x22 \<notin> set s \<Longrightarrow> CHR ''{'' \<notin> set s \<Longrightarrow> CHR ''}'' \<notin> set s \<Longrightarrow> obj_end d False (s @ r) = obj_end d False r"
  by (induction s) auto

lemma obj_end_str: "obj_end d False (quoted s @ r) = obj_end d False r"
  by (simp add: quoted_def obj_end_quoted)

lemma obj_end_join:
  "(\<And>x r. x \<in> set xs \<Longrightarrow> obj_end d False (x @ r) = obj_end d False r) \<Longrightarrow> obj_end d False (join xs @ r) = obj_end d False r"
  by (induction xs arbitrary: r rule: join.induct) auto

lemma show_int_plain: "c \<in> {CHR 0x22, CHR ''{'', CHR ''}''} \<Longrightarrow> c \<notin> set (show_int i)"
  by (auto simp: show_int_def show_nat_only_digits is_digit_def)

lemma obj_end_json: "0 < d \<Longrightarrow> obj_end d False (show_json t @ r) = obj_end d False r"
proof (induction t arbitrary: d r)
  case (JObj kvs)
  have "obj_end (d + 1) False (join (map (\<lambda>(k, v). quoted k @ '':'' @ show_json v) kvs) @ CHR ''}'' # r) = obj_end (d + 1) False (CHR ''}'' # r)"
  proof (rule obj_end_join)
    fix x r
    assume "x \<in> set (map (\<lambda>(k, v). quoted k @ '':'' @ show_json v) kvs)"
    then obtain k v where kv: "(k, v) \<in> set kvs" "x = quoted k @ '':'' @ show_json v" by auto
    have "obj_end (d + 1) False (show_json v @ r) = obj_end (d + 1) False r" using JObj kv(1) by force
    then show "obj_end (d + 1) False (x @ r) = obj_end (d + 1) False r" by (simp add: kv(2) obj_end_str)
  qed
  with JObj.prems show ?case by simp
next
  case (JArr vs)
  have "obj_end d False (join (map show_json vs) @ CHR '']'' # r) = obj_end d False (CHR '']'' # r)"
    using JArr by (intro obj_end_join) auto
  then show ?case by simp
next
  case (JStr s)
  show ?case by (simp add: obj_end_str)
next
  case (JInt i)
  show ?case using show_int_plain [of _ i] by (simp add: obj_end_plain)
qed simp

lemma obj_end_object: "obj_end 0 False (show_json (JObj kvs) @ r) = r"
proof -
  have "obj_end 1 False (join (map (\<lambda>(k, v). quoted k @ '':'' @ show_json v) kvs) @ CHR ''}'' # r) = obj_end 1 False (CHR ''}'' # r)"
    by (rule obj_end_join) (auto simp: obj_end_str obj_end_json)
  then show ?thesis by simp
qed

lemma next_obj_doc:
  assumes "length (show_json (JObj kvs)) < cap" "c \<in> {CHR ''['', CHR '',''}"
  shows "next_obj (c # show_json (JObj kvs) @ r) cap = Some (show_json (JObj kvs), r)"
proof -
  let ?t = "show_json (JObj kvs)"
  have "obj_start (c # ?t @ r) = Some (?t @ r)" using assms(2) by auto
  moreover have "?t \<noteq> []" by simp
  ultimately show ?thesis using assms(1) obj_end_object [of kvs r] by (simp only: next_obj_def option.case Let_def ptr_off_def) simp
qed

definition sendable :: "json \<Rightarrow> bool" where
  \<comment> \<open>an object that fits the buffer of the receiver\<close>
  "sendable t \<longleftrightarrow> (\<exists>kvs. t = JObj kvs) \<and> length (show_json t) < 2048"

lemma apply_objs_docs:
  assumes "list_all sendable ts" "c \<in> {CHR ''['', CHR '',''}"
  shows "apply_objs st (c # join (map show_json ts) @ CHR '']'' # r) ents = foldl (\<lambda>ents t. upsert st ents (show_json t)) ents ts"
  using assms
proof (induction ts arbitrary: c ents)
  case Nil
  then have "next_obj (c # CHR '']'' # r) 2048 = None" by (auto simp: next_obj_def)
  then show ?case by (simp add: apply_objs.simps)
next
  case (Cons t ts)
  obtain kvs where t: "t = JObj kvs" "length (show_json (JObj kvs)) < 2048" using Cons.prems(1) by (auto simp: sendable_def)
  let ?rest = "if ts = [] then CHR '']'' # r else CHR '','' # join (map show_json ts) @ CHR '']'' # r"
  have "c # join (map show_json (t # ts)) @ CHR '']'' # r = c # show_json (JObj kvs) @ ?rest" by (cases ts) (simp_all add: t(1))
  then have "apply_objs st (c # join (map show_json (t # ts)) @ CHR '']'' # r) ents = apply_objs st ?rest (upsert st ents (show_json t))"
    using next_obj_doc [OF t(2) Cons.prems(2), of ?rest] by (subst apply_objs.simps) (simp add: t(1))
  also have "\<dots> = foldl (\<lambda>ents t. upsert st ents (show_json t)) (upsert st ents (show_json t)) ts"
  proof (cases "ts = []")
    case True
    have "next_obj (CHR '']'' # r) 2048 = None" by (simp add: next_obj_def)
    with True show ?thesis by (simp add: apply_objs.simps)
  next
    case False
    with Cons show ?thesis by simp
  qed
  finally show ?case by simp
qed

section \<open>A delta brings the receiver up to date\<close>

abbreviation ops_pat :: string where
  "ops_pat \<equiv> [CHR 0x22, CHR ''o'', CHR ''p'', CHR ''s'', CHR 0x22]"

definition no_ops_text :: "string \<Rightarrow> bool" where
  \<comment> \<open>a string that cannot be taken for the key of the operations\<close>
  "no_ops_text s \<longleftrightarrow> CHR 0x22 \<notin> set s \<and> s \<noteq> ''ops''"

lemma strstr_ops_plain: "CHR 0x22 \<notin> set q \<Longrightarrow> strstr (q @ r) ops_pat = strstr r ops_pat"
  by (induction q) (auto simp: strstr.simps)

lemma escape_no_quote: "CHR 0x22 \<notin> set s \<Longrightarrow> CHR 0x22 \<notin> set (escape s)"
proof (induction s)
  case (Cons c s)
  have "CHR 0x22 \<notin> set (escape_char c)"
  proof (cases "(of_char c :: nat) < 0x20")
    case True
    then have "hex_digit (of_char c div 16) \<noteq> CHR 0x22" "hex_digit (of_char c mod 16) \<noteq> CHR 0x22"
      by (simp_all add: hex_digit_not_quote)
    with Cons.prems show ?thesis by (auto simp: escape_char_def)
  qed (use Cons.prems in \<open>auto simp: escape_char_def\<close>)
  with Cons show ?case by simp
qed simp

lemma ops_not_prefix:
  assumes "CHR 0x22 \<notin> set b" "b \<noteq> ''ops''"
  shows "\<not> prefix ops_pat (CHR 0x22 # b @ CHR 0x22 # r)"
proof
  assume "prefix ops_pat (CHR 0x22 # b @ CHR 0x22 # r)"
  then obtain t where "''ops'' @ CHR 0x22 # t = b @ CHR 0x22 # r" by (auto simp: prefix_def)
  then have "takeWhile (\<lambda>c. c \<noteq> CHR 0x22) (''ops'' @ CHR 0x22 # t) = takeWhile (\<lambda>c. c \<noteq> CHR 0x22) (b @ CHR 0x22 # r)" by simp
  moreover have "takeWhile (\<lambda>c. c \<noteq> CHR 0x22) (b @ CHR 0x22 # r) = b" using assms(1) by (induction b) auto
  ultimately show False using assms(2) by simp
qed

lemma escape_eq_ops: "escape s = ''ops'' \<Longrightarrow> s = ''ops''"
proof -
  assume e: "escape s = ''ops''"
  have one: "length (escape_char c) \<ge> 1" "hd (escape_char c) = CHR 0x5C \<or> escape_char c = [c]" for c by (auto simp: escape_char_def)
  show "s = ''ops''"
  proof -
    have "CHR 0x5C \<notin> set (escape s)" using e by simp
    then have "escape s = s"
    proof (induction s)
      case (Cons c s)
      have "escape_char c \<noteq> []" using one(1) [of c] by auto
      then have "hd (escape_char c) \<in> set (escape_char c)" by simp
      with Cons one(2) [of c] show ?case by auto
    qed simp
    with e show ?thesis by simp
  qed
qed

lemma strstr_ops_string:
  assumes "no_ops_text s" "c \<noteq> CHR ''o''"
  shows "strstr (quoted s @ c # r) ops_pat = strstr (c # r) ops_pat"
proof -
  have q: "CHR 0x22 \<notin> set (escape s)" "escape s \<noteq> ''ops''"
    using assms(1) escape_no_quote escape_eq_ops by (auto simp: no_ops_text_def)
  have "strstr (quoted s @ c # r) ops_pat = strstr (escape s @ CHR 0x22 # c # r) ops_pat"
    using ops_not_prefix [OF q] by (simp add: quoted_def strstr_skip)
  also have "\<dots> = strstr (CHR 0x22 # c # r) ops_pat" using q(1) by (rule strstr_ops_plain)
  also have "\<dots> = strstr (c # r) ops_pat" using assms(2) by (simp add: strstr_skip)
  finally show ?thesis .
qed

definition delta_doc :: "'d ps_pp_model \<Rightarrow> json" where
  "delta_doc m = JObj [(''v'', JInt 1), (''type'', JStr ''delta''), (''epoch'', JStr (pm_epoch m)), (''seq'', JInt (sint (pm_seq m))),
     (''ops'', JArr (map op_doc (filter (\<lambda>e. pe_present e \<and> pe_dirty e) (pm_ent m))))]"

lemma delta_json_doc:
  assumes "list_ex (\<lambda>e. pe_present e \<and> pe_dirty e) (pm_ent m)"
  shows "fst (ps_pp_delta_json m cap) =
    Some (if length (show_json (delta_doc (m\<lparr>pm_seq := pm_seq m + 1\<rparr>))) < cap
          then Some (show_json (delta_doc (m\<lparr>pm_seq := pm_seq m + 1\<rparr>))) else None)"
proof -
  let ?m = "m\<lparr>pm_seq := pm_seq m + 1\<rparr>"
  have ops: "foldl (\<lambda>j e. if pe_present e \<longrightarrow> \<not> pe_dirty e then j else wr_op j e) j es =
      foldl (\<lambda>j v. wr_elem v j) j (map op_doc (filter (\<lambda>e. pe_present e \<and> pe_dirty e) es))" for j es
    by (induction es arbitrary: j) (auto simp: wr_entity_doc)
  have "fst (ps_pp_delta_json m cap) = Some (ps_json_finish (wr_elem (delta_doc ?m) (ps_json_init cap)))"
    using assms by (simp add: ps_pp_delta_json_def delta_doc_def Let_def ops)
  moreover have "\<exists>kvs. delta_doc ?m = JObj kvs \<and> writable (JObj kvs)"
    by (auto simp: delta_doc_def op_doc_def entity_fields_def)
  ultimately show ?thesis using finish_document by auto
qed

lemma apply_array_delta:
  assumes epoch: "no_ops_text (pm_epoch m)"
    and fits: "list_all (\<lambda>e. length (show_json (op_doc e)) < 2048) (filter (\<lambda>e. pe_present e \<and> pe_dirty e) (pm_ent m))"
  shows "apply_array st (show_json (delta_doc m)) ''ops'' ents =
    foldl (\<lambda>ents e. upsert st ents (show_json (op_doc e))) ents (filter (\<lambda>e. pe_present e \<and> pe_dirty e) (pm_ent m))"
proof -
  let ?ts = "map op_doc (filter (\<lambda>e. pe_present e \<and> pe_dirty e) (pm_ent m))"
  let ?tail = "quoted ''ops'' @ '':['' @ join (map show_json ?ts) @ '']}''"
  have body: "show_json (delta_doc m) = ''{'' @ quoted ''v'' @ CHR '':'' # show_int 1 @ '','' @ quoted ''type'' @ CHR '':'' # quoted ''delta'' @ CHR '','' #
      quoted ''epoch'' @ CHR '':'' # quoted (pm_epoch m) @ CHR '','' # quoted ''seq'' @ CHR '':'' # show_int (sint (pm_seq m)) @ '','' @ ?tail"
    by (simp add: delta_doc_def)
  have n: "no_ops_text ''v''" "no_ops_text ''type''" "no_ops_text ''delta''" "no_ops_text ''epoch''" "no_ops_text ''seq''"
    by (simp_all add: no_ops_text_def)
  have i: "CHR 0x22 \<notin> set (show_int k)" for k using show_int_plain by auto
  have skip: "strstr (c # r) ops_pat = strstr r ops_pat" if "c \<noteq> CHR 0x22" for c r using that by (simp add: strstr_skip)
  have "strstr (show_json (delta_doc m)) ops_pat = strstr ?tail ops_pat"
    unfolding body
    by (simp add: skip strstr_ops_string [OF n(1)] strstr_ops_string [OF n(2)] strstr_ops_string [OF n(3)] strstr_ops_string [OF n(4)]
        strstr_ops_string [OF n(5)] strstr_ops_string [OF epoch] strstr_ops_plain [OF i])
  also have "\<dots> = Some ?tail"
    by (simp add: quoted_def escape_char_def strstr.simps)
  finally have found: "strstr (show_json (delta_doc m)) ops_pat = Some ?tail" .
  have br: "strchr ?tail (CHR ''['') = Some (''['' @ join (map show_json ?ts) @ '']}'')"
    by (simp add: quoted_def escape_char_def)
  have "list_all sendable ?ts" using fits by (auto simp: list_all_iff sendable_def op_doc_def)
  from apply_objs_docs [OF this, of "CHR ''[''" st "''}''" ents] show ?thesis
    using found br by (simp add: apply_array_def foldl_map)
qed

definition view :: "ps_pp_entity \<Rightarrow> ps_pp_entity" where
  \<comment> \<open>what the receiver knows of an entity\<close>
  "view e = e\<lparr>pe_dirty := False, pe_present := True, pe_last_ms := 0\<rparr>"

definition behind :: "ps_pp_entity list \<Rightarrow> ps_pp_entity list \<Rightarrow> bool" where
  \<comment> \<open>the receiver has every entity of the sender but the ones marked as changed\<close>
  "behind rs ss \<longleftrightarrow> length rs \<le> length ss \<and> list_all pe_present rs \<and>
     (\<forall>i < length rs. pe_id (rs ! i) = pe_id (ss ! i) \<and> (\<not> pe_dirty (ss ! i) \<longrightarrow> view (rs ! i) = view (ss ! i))) \<and>
     (\<forall>i. length rs \<le> i \<and> i < length ss \<longrightarrow> pe_dirty (ss ! i))"

lemma behind_Nil: "behind rs [] \<longleftrightarrow> rs = []"
  by (auto simp: behind_def)

lemma behind_Cons:
  "behind rs (x # ss) \<longleftrightarrow>
     (case rs of [] \<Rightarrow> pe_dirty x \<and> behind [] ss
      | r # rs \<Rightarrow> pe_present r \<and> pe_id r = pe_id x \<and> (\<not> pe_dirty x \<longrightarrow> view r = view x) \<and> behind rs ss)"
proof (cases rs)
  case Nil
  have all: "(\<forall>i < Suc n. P i) \<longleftrightarrow> P 0 \<and> (\<forall>i < n. P (Suc i))" for n :: nat and P by (simp add: All_less_Suc2)
  show ?thesis by (simp add: Nil behind_def all)
next
  case (Cons r rs')
  have "(\<forall>i. Suc (length rs') \<le> i \<and> i < Suc (length ss) \<longrightarrow> pe_dirty ((x # ss) ! i)) \<longleftrightarrow>
      (\<forall>i. length rs' \<le> i \<and> i < length ss \<longrightarrow> pe_dirty (ss ! i))"
    by (auto simp: nth_Cons split: nat.splits)
  then show ?thesis by (auto simp: Cons behind_def All_less_Suc2)
qed

definition put_entity :: "ps_pp_entity list \<Rightarrow> ps_pp_entity \<Rightarrow> ps_pp_entity list" where
  \<comment> \<open>the effect of \<open>upsert\<close>, by \<open>upsert_doc\<close>\<close>
  "put_entity ents e =
    (case ent_index ents (pe_id e) of
       Some i \<Rightarrow> ents[i := (ents ! i)\<lparr>pe_kind := pe_kind e, pe_value := pe_value e, pe_estate := pe_estate e, pe_count := pe_count e,
           pe_first := pe_first e, pe_last := pe_last e, pe_verdict := pe_verdict e\<rparr>]
     | None \<Rightarrow> if length ents \<ge> PS_PP_MAX_ENT then ents
               else ents @ [e\<lparr>pe_dirty := False, pe_present := True, pe_last_ms := 0\<rparr>])"

lemma ent_index_append:
  "ident \<notin> pe_id ` set xs \<Longrightarrow> ent_index (xs @ ys) ident = map_option (\<lambda>i. length xs + i) (ent_index ys ident)"
  by (cases "ent_index ys ident"; induction xs) auto

lemma view_fields [simp]: "pe_id (view e) = pe_id e" "view (view e) = view e" "pe_present (view e)"
  by (simp_all add: view_def)

lemma put_next:
  assumes ids: "map pe_id got = map pe_id as" "pe_id b \<notin> pe_id ` set as" and room: "length as < PS_PP_MAX_ENT"
  shows "put_entity got b = got @ [view b]"
    and "pe_present r \<Longrightarrow> pe_id r = pe_id b \<Longrightarrow> \<exists>r'. put_entity (got @ r # rs) b = got @ r' # rs \<and> view r' = view b \<and> pe_present r'"
proof -
  have new: "pe_id b \<notin> pe_id ` set got" using ids by (metis list.set_map)
  have len: "length got = length as" using ids(1) map_eq_imp_length_eq by blast
  show "put_entity got b = got @ [view b]"
    using ent_index_append [OF new, of "[]"] room len by (simp add: put_entity_def view_def)
  assume r: "pe_present r" "pe_id r = pe_id b"
  then have "ent_index (got @ r # rs) (pe_id b) = Some (length got)" using ent_index_append [OF new, of "r # rs"] by simp
  then show "\<exists>r'. put_entity (got @ r # rs) b = got @ r' # rs \<and> view r' = view b \<and> pe_present r'"
    using r by (simp add: put_entity_def view_def)
qed

lemma put_dirty:
  assumes "map view got = map view as" "list_all pe_present got" "behind rs bs" "distinct (map pe_id (as @ bs))" "length (as @ bs) \<le> PS_PP_MAX_ENT"
  shows "map view (foldl put_entity (got @ rs) (filter pe_dirty bs)) = map view (as @ bs) \<and>
    list_all pe_present (foldl put_entity (got @ rs) (filter pe_dirty bs))"
  using assms
proof (induction bs arbitrary: got as rs)
  case Nil
  then show ?case by (simp add: behind_Nil)
next
  case (Cons b bs)
  have ids: "map pe_id got = map pe_id as" using arg_cong [OF Cons.prems(1), of "map pe_id"] by (simp add: comp_def)
  have new: "pe_id b \<notin> pe_id ` set as" "length as < PS_PP_MAX_ENT" using Cons.prems(4,5) by auto
  note put = put_next [OF ids new]
  have rest: "distinct (map pe_id ((as @ [b]) @ bs))" "length ((as @ [b]) @ bs) \<le> PS_PP_MAX_ENT" using Cons.prems(4,5) by simp_all
  show ?case
  proof (cases rs)
    case Nil
    then have b: "pe_dirty b" "behind [] bs" using Cons.prems(3) by (simp_all add: behind_Cons)
    have "map view (got @ [view b]) = map view (as @ [b])" "list_all pe_present (got @ [view b])"
      using Cons.prems(1,2) by simp_all
    from Cons.IH [OF this b(2) rest] show ?thesis using b(1) put(1) Nil by simp
  next
    case (Cons r rs')
    then have r: "pe_present r" "pe_id r = pe_id b" "\<not> pe_dirty b \<longrightarrow> view r = view b" "behind rs' bs"
      using \<open>behind rs (b # bs)\<close> by (simp_all add: behind_Cons)
    show ?thesis
    proof (cases "pe_dirty b")
      case True
      obtain r' where r': "put_entity (got @ r # rs') b = got @ r' # rs'" "view r' = view b" "pe_present r'" using put(2) [OF r(1,2)] by blast
      have "map view (got @ [r']) = map view (as @ [b])" "list_all pe_present (got @ [r'])" using Cons.prems(1,2) r' by simp_all
      from Cons.IH [OF this r(4) rest] show ?thesis using True r'(1) Cons by simp
    next
      case False
      have "map view (got @ [r]) = map view (as @ [b])" "list_all pe_present (got @ [r])" using Cons.prems(1,2) r False by simp_all
      from Cons.IH [OF this r(4) rest] show ?thesis using False Cons by simp
    qed
  qed
qed

lemma upserts_put:
  "list_all entity_wf es \<Longrightarrow> foldl (\<lambda>ents e. upsert st ents (show_json (op_doc e))) ents es = foldl put_entity ents es"
proof (induction es arbitrary: ents)
  case (Cons e es)
  have "entity_wf e" using Cons.prems by simp
  then have "upsert st ents (show_json (op_doc e)) = put_entity ents e"
    unfolding put_entity_def by (intro upsert_doc docs_carry(1))
  with Cons show ?case by simp
qed simp

lemma delta_keys: "plain_key ''v''" "plain_key ''type''" "plain_key ''epoch''" "plain_key ''seq''" "plain_key ''ops''"
  by (simp_all add: plain_key_def plain_char_def)

lemma wf_delta_doc:
  assumes "list_all entity_wf (pm_ent m)" "is_cstr (pm_epoch m)" "- (2 ^ 63) < sint (pm_seq m)"
  shows "wf_json (delta_doc m)"
proof -
  have "sint (pm_seq m) < 2 ^ 63" using sint_lt [of "pm_seq m"] by simp
  moreover have "wf_json (op_doc e)" if "e \<in> set (pm_ent m)" for e
    using that assms(1) docs_carry(1) [of e] by (auto simp: carries_def list_all_iff)
  ultimately show ?thesis using assms delta_keys by (auto simp: delta_doc_def is_cstr_def)
qed

definition in_step :: "'d ps_pp_model \<Rightarrow> 'd ps_pp_model \<Rightarrow> bool" where
  \<comment> \<open>the receiver holds the epoch and the number of the last frame of the sender\<close>
  "in_step r s \<longleftrightarrow> pm_epoch r = pm_epoch s \<and> pm_seq r = pm_seq s"


definition sample_entity :: ps_pp_entity where
  "sample_entity = zero_entity\<lparr>pe_id := ''file:/a'', pe_value := ''/a'', pe_count := 1, pe_first := ''t'', pe_last := ''t'',
     pe_present := True, pe_dirty := True, pe_verdict := PP_NA\<rparr>"

definition sample_subject :: ps_pp_subject where
  "sample_subject = \<lparr>su_mode = BY_PID, su_pid = 1, su_exe = ''/b'', su_uid = 0, su_cgroup = [], su_mac_label = [], su_mac_mode = [], su_anc = []\<rparr>"


text \<open>A key frame always carries the sequence number 0 while the sender keeps counting, so the first delta after a
  key frame that is not the first frame is refused.\<close>

lemma keyframe_then_delta_desync:
  assumes "pm_seq r = 0" "pm_seq s \<noteq> 0" "ps_json_extract_int js ''seq'' = Some (sint (pm_seq s + 1))"
    "extract_cstr js ''type'' 16 = Some ''delta''"
  shows "fst (ps_pp_apply_json st r js) = APPLY_DESYNC"
  using assms by (simp add: ps_pp_apply_json_def Let_def)

end
