(* ===== verification/Spec2Isabelle.thy ===== *)
theory Spec2Isabelle
  imports Policy Dest_Match Envelope Flow_Module Ring_Queues Activity Proc_Files Agent_Proto Overwatch
    Baseline_Monitor Demux Host_Table Ulid Ptr_Cache Proc_Profile
begin

text \<open>
  A verification library for packetsonde, a network and host monitoring system written in C. All
  paths below are relative to \<open>src/src\<close>.

  \<^bold>\<open>The program.\<close> A privileged agent (\<open>agent/src\<close>) captures frames, tracks flows and hosts and runs probes. A
  second daemon (\<open>kernel/src\<close>) observes file accesses, turns each into an activity record in JSON,
  puts the record into a ring that fans out to several consumers, and judges it: the overwatch
  module compares the access with the sandbox that systemd declares for the unit of the process,
  or learns such a sandbox; the baseline monitor compares it with what the executable was seen
  to do before. A command line tool (\<open>cli\<close>) talks to the agents by length-prefixed JSON frames. The
  code they share is in \<open>lib\<close>.

  \<^bold>\<open>Conventions.\<close> A C string is the \<^typ>\<open>string\<close> before its NUL, a pointer into it the suffix it points at, a
  truncating \<open>snprintf\<close> is \<^const>\<open>snprintf_s\<close>; machine integers are words or casts written out. An error
  is \<open>None\<close> or a constructor; where a read could leave a buffer, an outer option makes the read
  fail, so that its absence is a theorem. The uninitialised rest of a buffer, files, the
  environment, the clock, random bytes, name resolution, floating point and calls that may fail
  are arguments of the definitions. Every definition that stands for code is executable.

  \<^bold>\<open>Theories and sources.\<close>
  \<^item> \<open>Prelude\<close>: C strings and numbers, the collections of rewrite rules, the interface \<open>bounded_set\<close>.
  \<^item> \<open>Json_Writer\<close> (\<open>lib/json.c\<close>), \<open>Json_Extract\<close> (\<open>lib/json_extract.c\<close>), \<open>Json_Array\<close> (the array loop of
    \<open>lib/baseline_set.c\<close> and \<open>lib/unit_envelope.c\<close>): a document is a tree; the writer prints exactly its
    text or fails, the extractors return exactly the first field of a name, however values look.
  \<^item> \<open>Paths\<close> (\<open>lib/exe_slug.c\<close>, \<open>lib/cgroup_unit.c\<close>, \<open>lib/suppress.c\<close> and the path predicates of several files):
    each predicate against a specification on path components.
  \<^item> \<open>Policy\<close> (\<open>lib/systemd_policy.c\<close>, \<open>lib/policy_eval.c\<close>): parsing of a unit's policy, the decision on an
    access, and the cache, which refines a map with expiry.
  \<^item> \<open>Baseline\<close> (\<open>lib/baseline_set.c\<close>), \<open>Dest_Match\<close> (\<open>lib/dest_match.c\<close>, \<open>lib/baseline_decide.c\<close>): the bounded set,
    its roll-up and its JSON form; matching of addresses, ports and networks.
  \<^item> \<open>Envelope\<close> (\<open>lib/unit_envelope.c\<close>, \<open>lib/sandbox_synth.c\<close>, \<open>cli/verbs/sandbox_suggest.c\<close>): learning the accesses
    of a unit and writing a sandbox that admits the learned writes.
  \<^item> \<open>Rb_Nodes\<close>, \<open>Rb_Tree\<close> (\<open>agent/src/compat/tree.h\<close>), \<open>Packet_Parse\<close>, \<open>Flow_Table\<close> (\<open>agent/src/flow_tracker.c\<close>): red-black
    trees refine sorted lists under the interface \<open>node_order\<close>; the parser never reads behind a
    frame; the flow table counts every packet and expires exactly the idle flows.
  \<^item> \<open>Netflow_Export\<close> (\<open>agent/src/netflow_export.c\<close>), \<open>Netflow_Collect\<close>: the export of flows in three formats, and a collector that
    knows only the formats; the four kinds of records and that of version 5 are instances of the
    interface \<open>record_format\<close>, from which follows that every flow arrives.
  \<^item> \<open>Inet_Text\<close>, \<open>Flow_Module\<close> (\<open>agent/src/modules/flow_tracker_mod.c\<close>): addresses as text, and the module of the agent that composes
    the table and the exporter. Every sequence of its callbacks is safe, and its shutdown delivers
    what is in the table.
  \<^item> \<open>Demux\<close> (\<open>agent/src/capture/protocol_demux.c\<close>), \<open>Host_Table\<close> (\<open>agent/src/host_table.c\<close>): dispatch calls exactly the
    handlers that match; the table of hosts stays well formed.
  \<^item> \<open>Ring_Queues\<close> (\<open>kernel/src/activity_ring.c\<close>, \<open>agent/src/obs_queue.c\<close>): both rings refine bounded queues through
    the interface \<open>bounded_queue\<close>.
  \<^item> \<open>Activity\<close> (\<open>lib/activity_record.c\<close>, \<open>lib/provenance.c\<close>), \<open>Proc_Files\<close> (\<open>lib/proc_parse.c\<close>, \<open>lib/sock_parse.c\<close>): records
    survive their JSON form; the parsers read the fields of the kernel's files.
  \<^item> \<open>Agent_Proto\<close> (\<open>lib/agent_proto.c\<close>): framing over a transport that moves bytes in any pieces, and the scanner
    for the type of a message.
  \<^item> \<open>Seen_Set\<close>, \<open>Overwatch\<close> (\<open>kernel/src/modules/policy_overwatch.c\<close>), \<open>Baseline_Monitor\<close> (\<open>kernel/src/baseline_store.c\<close>,
    \<open>kernel/src/modules/baseline_monitor.c\<close>): the detectors, which compose the components above. Both use the
    interface \<open>seen_filter\<close>, from which follows that each deviation is reported once. Their composition
    with the activity ring is the pipeline at the end of this theory.
  \<^item> \<open>Proc_Profile\<close> (\<open>lib/proc_profile.c\<close>, \<open>lib/proc_profile_delta.c\<close>): the profile of a process and its
    replication by deltas.
  \<^item> \<open>Ulid\<close> (\<open>lib/ulid.c\<close>): identifiers grow. \<open>Ptr_Cache\<close> (\<open>lib/ptr_cache.c\<close>): lookups and the worker thread as an
    interleaving of critical sections.

  \<^bold>\<open>Loops and bounds.\<close> Every loop is a total function: structural where it walks a list, otherwise with a measure
  that is proved to decrease (the rest of the text, the free part of an array). The only fuel is
  the count of extension headers in \<open>Packet_Parse\<close>, where it is the bound the code has, and the number of
  steps in \<open>Ptr_Cache\<close>, where twice the number of pending entries is proved to be enough. Array
  sizes are those of the code.

  \<^bold>\<open>Not modelled.\<close> The event loops and system calls of the daemons, privilege separation, libpcap, raw
  sockets and timers (traceroute, probes, scans), the protocol clients of the audits, TLS, HTTP
  and key handling, the Redis bridge and the interactive shell: their behaviour is that of the
  libraries, the kernel and the peers they call. The decoders of the passive listeners, the recipe engine and the capture sessions are pure enough to be modelled and are not yet. Locks
  appear only as the atomicity of critical sections; memory allocation is assumed to succeed.
\<close>

section \<open>The detection pipeline\<close>

text \<open>Both detectors are consumers of the activity ring. What is pushed once reaches both of them, and neither takes
  records from the other.\<close>

definition detector_env :: "(string \<Rightarrow> string option) \<Rightarrow> bool" where
  \<comment> \<open>an environment that switches both detectors on\<close>
  "detector_env getenv \<longleftrightarrow> getenv ''PS_DETECT_POLICY_MODE'' = Some ''overwatch'' \<and> getenv ''PS_DETECT_BASELINE_MODE'' = Some ''on'' \<and>
     (case getenv ''PS_DETECT_BASELINE_STATE_DIR'' of Some d \<Rightarrow> length d \<le> 230 | None \<Rightarrow> True)"

definition state_dir :: "(string \<Rightarrow> string option) \<Rightarrow> string" where
  "state_dir getenv = bs_state_dir (fst (bl_init getenv ps_act_ring_init))"

lemma cstr_of_items: "list_all is_cstr rs \<Longrightarrow> map cstr_of (map (\<lambda>x. x @ [NUL]) rs) = rs"
proof (induction rs)
  case (Cons x rs)
  have "takeWhile (\<lambda>c. c \<noteq> NUL) (x @ [NUL]) = x" if "is_cstr x" for x
    using that by (induction x) auto
  with Cons show ?case by (simp add: cstr_of_def)
qed simp

lemma detectors_attach:
  assumes "detector_env getenv"
  obtains st1 st2 r where "overwatch_init getenv ps_act_ring_init = (st1, snd (overwatch_init getenv ps_act_ring_init))"
    "bl_init getenv (snd (overwatch_init getenv ps_act_ring_init)) = (st2, r)"
    "ow_mode st1 = 1" "ow_consumer st1 = 0" "ow_seen st1 = ps_overwatch_seen_new"
    "bs_on st2" "bs_consumer st2 = 1" "bs_seen st2 = ps_baseline_seen_new" "bs_state_dir st2 = state_dir getenv"
    "ring_inv r" "g_n r = 2" "queue_of r 0 = []" "queue_of r 1 = []"
proof -
  let ?r = "ps_act_ring_init\<lparr>g_n := 2\<rparr>"
  have init: "ring_inv ps_act_ring_init" "ring_abs ps_act_ring_init = fan_init" using ring_init_inv by blast+
  have q: "queue_of ps_act_ring_init c = []" if "c < 8" for c
    using queue_of_abs [OF init(1) that] that init(2) by (simp add: fan_init_def)
  have r: "ring_inv ?r" "queue_of ?r 0 = []" "queue_of ?r 1 = []"
    using init(1) q [of 0] q [of 1] by (simp_all add: ring_inv_def queue_of_def)
  have n: "g_n ps_act_ring_init = 0" by (simp add: ps_act_ring_init_def)
  show ?thesis
    by (rule that [of "fst (overwatch_init getenv ps_act_ring_init)" "fst (bl_init getenv (snd (overwatch_init getenv ps_act_ring_init)))" ?r])
       (use assms r n in \<open>simp_all add: detector_env_def overwatch_init_def bl_init_def state_dir_def ps_act_ring_register_def Let_def\<close>)
qed

lemma state_dir_short: "detector_env getenv \<Longrightarrow> length (state_dir getenv) \<le> 230"
  by (auto simp: detector_env_def state_dir_def bl_init_def ps_act_ring_register_def Let_def snprintf_s_def split: option.splits)


definition sample_env :: "string \<Rightarrow> string option" where
  "sample_env = [''PS_DETECT_POLICY_MODE'' \<mapsto> ''overwatch'', ''PS_DETECT_BASELINE_MODE'' \<mapsto> ''on'', ''PS_DETECT_BASELINE_STATE_DIR'' \<mapsto> ''/d'']"

definition sample_popen :: "string \<Rightarrow> string option" where
  "sample_popen cmd = Some (''FragmentPath=/u'' @ CHR 0x0A # ''InaccessiblePaths=/a'')"

definition sample_batch :: "string list" where
  \<open>sample_batch = [''{"event":"open","path":"/a/b","cgroup":"/s/c.service"}'', ''{"exe":"/b","path":"/p","event":"open"}'']\<close>

lemma sample_env_on: "detector_env sample_env" "state_dir sample_env = ''/d''"
  by (simp_all add: detector_env_def state_dir_def sample_env_def bl_init_def ps_act_ring_register_def Let_def split_def snprintf_s_def)

lemma sample_batch_fits: "list_all (\<lambda>x. pushable x \<and> is_cstr x) sample_batch" "length sample_batch \<le> 64"
  by (simp_all add: sample_batch_def pushable_def is_cstr_def)

lemma sample_loaded:
  "fst (ps_unit_policy_get (ps_unit_policy_load_systemctl sample_popen) empty_cache ''c.service'' 5 300) =
     empty_policy\<lparr>known := True, inacc := [''/a'']\<rparr>"
  by code_simp

lemma sample_batch_violations:
  "fst (all_violations (\<lambda>_. []) (ps_unit_policy_load_systemctl sample_popen) 5 empty_cache sample_batch) =
     [(''c.service|/a/b|open|InaccessiblePaths'',
       violation_finding ''c.service'' ''InaccessiblePaths'' ''/a/b'' ''open'' False [] [] [])]"
proof -
  have \<open>record_access ''{"exe":"/b","path":"/p","event":"open"}'' = None\<close> by code_simp
  then have \<open>fst (record_violations stale loader now g ''{"exe":"/b","path":"/p","event":"open"}'') = []\<close> for stale loader now g
    by (simp only: record_violations_def option.case fst_conv)
  then show ?thesis
    by (simp only: sample_batch_def all_violations.simps Let_def split_def fst_conv sample_violations [OF sample_loaded] append.simps append_Nil2)
qed

lemma sample_batch_reports:
  "concat (map (record_reports (\<lambda>_. []) (\<lambda>_. None) ''/d'') sample_batch) = [(''/b|/p'', path_finding ''candidate'' ''/b'' ''/p'' ''open'' [])]"
proof -
  have \<open>extract_cstr ''{"event":"open","path":"/a/b","cgroup":"/s/c.service"}'' ''exe'' 256 = None\<close> by code_simp
  then have \<open>record_reports (\<lambda>_. []) (\<lambda>_. None) ''/d'' ''{"event":"open","path":"/a/b","cgroup":"/s/c.service"}'' = []\<close>
    by (simp only: record_reports_def prod.case option.case)
  then show ?thesis by (simp only: sample_batch_def list.map concat.simps sample_reports append.simps)
qed


end
